(* ===== verification/Prelude.thy ===== *)
theory Prelude
  imports Main "HOL-Library.Word" "HOL-Library.Multiset"
begin

text \<open>
  Shared material of the rdss development: the machine-integer conversions the C++ sources
  perform explicitly (\<open>static_cast<int32_t>\<close>, 64-bit signed wrap-around), the type of the
  external hash function, and the generic facts on lists, keyed lists and words that the
  component theories use.
\<close>

section \<open>Collections of proof rules\<close>

named_theorems ht_defs \<open>definitions of the hash table operations\<close>
named_theorems ht_core \<open>facts about one operation of the hash table\<close>
named_theorems svc_defs \<open>definitions of the service operations\<close>

section \<open>Machine integers\<close>

text \<open>
  \<open>to_int32\<close> is \<open>static_cast<int32_t>\<close> and \<open>to_int64\<close> the value of a 64-bit signed
  register: two's complement reduction of a mathematical integer.
\<close>

definition to_int32 :: "int \<Rightarrow> int" where
  "to_int32 = signed_take_bit 31"

definition to_int64 :: "int \<Rightarrow> int" where
  "to_int64 = signed_take_bit 63"

abbreviation int64_max :: int where
  "int64_max \<equiv> 9223372036854775807"

abbreviation int64_min :: int where
  "int64_min \<equiv> - 9223372036854775808"

lemma to_int32_id: "0 \<le> n \<Longrightarrow> n < 2147483648 \<Longrightarrow> to_int32 n = n"
  unfolding to_int32_def by (rule signed_take_bit_int_eq_self) auto

lemma to_int32_of_nat [simp]: "n < 2147483648 \<Longrightarrow> to_int32 (int n) = int n"
  by (rule to_int32_id) auto

lemma to_int64_id: "int64_min \<le> n \<Longrightarrow> n \<le> int64_max \<Longrightarrow> to_int64 n = n"
  unfolding to_int64_def by (rule signed_take_bit_int_eq_self) auto

section \<open>The external hash function\<close>

text \<open>
  \<open>HashTable::Hash\<close> calls \<open>XXH64\<close> of the xxhash library with seed 0. The library is not part
  of the sources, so the hash function is a parameter of every definition that uses it; it is
  any function from byte strings to 64-bit words.
\<close>

type_synonym hash_fn = "string \<Rightarrow> 64 word"

section \<open>Keyed lists\<close>

lemma map_of_keyed_eq_Some:
  assumes "distinct (map f xs)"
  shows "map_of (map (\<lambda>x. (f x, x)) xs) k = Some x \<longleftrightarrow> x \<in> set xs \<and> f x = k"
  using assms by (induction xs) (auto simp: image_iff)

lemma map_of_keyed_eq_None:
  "map_of (map (\<lambda>x. (f x, x)) xs) k = None \<longleftrightarrow> k \<notin> f ` set xs"
  by (auto simp: map_of_eq_None_iff image_image)

lemma distinct_map_mset:
  assumes "mset xs = mset ys"
  shows "distinct (map f xs) \<longleftrightarrow> distinct (map f ys)"
proof -
  have "mset (map f xs) = mset (map f ys)" using assms by simp
  then show ?thesis by (rule mset_eq_imp_distinct_iff)
qed

lemma map_of_keyed_mset:
  assumes "mset xs = mset ys" and "distinct (map f xs)"
  shows "map_of (map (\<lambda>x. (f x, x)) xs) = map_of (map (\<lambda>x. (f x, x)) ys)"
proof -
  have "distinct (map f ys)" using assms distinct_map_mset by blast
  moreover have "set xs = set ys" using assms(1) by (rule mset_eq_setD)
  ultimately show ?thesis using assms(2)
    by (intro map_of_inject_set [THEN iffD2]) (auto simp: comp_def)
qed

section \<open>Lists of buckets\<close>

lemma mset_concat_update:
  assumes "i < length bs"
  shows "mset (concat (bs[i := b])) + mset (bs ! i) = mset (concat bs) + mset b"
  using assms
proof (induction bs arbitrary: i)
  case Nil
  then show ?case by simp
next
  case (Cons c bs)
  show ?case
  proof (cases i)
    case 0
    then show ?thesis by simp
  next
    case (Suc j)
    with Cons.IH [of j] Cons.prems show ?thesis by (simp add: ac_simps)
  qed
qed

lemma set_concat_nth:
  "x \<in> set (concat bs) \<longleftrightarrow> (\<exists>i<length bs. x \<in> set (bs ! i))"
  by simp (metis in_set_conv_nth)

end
