(* ===== verification/HashTable.thy ===== *)
theory HashTable
  imports Prelude
begin

text \<open>
  The incrementally rehashed chained hash table of \<open>src/src/data_structure/hash_table.h\<close>:
  its entries and keys, its state, and every operation that reads or changes it. A bucket is
  the singly linked chain of entries, a list whose head is the entry the bucket pointer points
  to. An entry pointer is identified by the key of the entry it points to (keys are unique), so
  a write through such a pointer is \<open>update_entry\<close> at that key.
\<close>

section \<open>Keys, entries and the table\<close>

text \<open>\<open>HashTableKey\<close>: the key string and the last access time, 32-bit milliseconds.\<close>

record hkey =
  key_data :: string
  key_lru :: "32 word"

text \<open>\<open>HashTableEntry\<close>: the key object and the value; \<open>next\<close> is the rest of the chain.\<close>

record 'v hentry =
  ekey :: hkey
  evalue :: 'v

definition Equals :: "hkey \<Rightarrow> string \<Rightarrow> bool" where
  "Equals k rhs \<longleftrightarrow> key_data k = rhs"

definition SetLRU :: "32 word \<Rightarrow> hkey \<Rightarrow> hkey" where
  "SetLRU lru k = k\<lparr>key_lru := lru\<rparr>"

type_synonym 'v bucket = "'v hentry list"

record 'v htable =
  buckets0 :: "'v bucket list"
  buckets1 :: "'v bucket list"
  entries :: nat
  rehash_index :: int

definition HashTable_init :: "'v htable" where
  "HashTable_init = \<lparr>buckets0 = [], buckets1 = [], entries = 0, rehash_index = -1\<rparr>"

abbreviation kstr :: "'v hentry \<Rightarrow> string" where
  "kstr e \<equiv> key_data (ekey e)"

definition IsRehashing :: "'v htable \<Rightarrow> bool" where
  "IsRehashing t \<longleftrightarrow> rehash_index t \<ge> 0"

definition Count :: "'v htable \<Rightarrow> nat" where
  "Count t = entries t"

definition BucketCount :: "'v htable \<Rightarrow> nat" where
  "BucketCount t = length (buckets0 t)"

section \<open>Rehashing\<close>

text \<open>
  \<open>static_cast<int32_t>(hash % size)\<close>, the bucket index of a key in a bucket vector of the
  given size.
\<close>

definition hash_index :: "hash_fn \<Rightarrow> nat \<Rightarrow> string \<Rightarrow> int" where
  "hash_index h n k = to_int32 (int (unat (h k) mod n))"

text \<open>The loop of \<open>RehashBucket\<close>: each entry of the chain is pushed on its target bucket.\<close>

fun rehash_entries :: "hash_fn \<Rightarrow> 'v bucket \<Rightarrow> nat \<Rightarrow> 'v bucket list \<Rightarrow> nat \<times> 'v bucket list" where
  "rehash_entries h [] num b1 = (num, b1)"
| "rehash_entries h (e # next_entry) num b1 =
     (let target = nat (hash_index h (length b1) (kstr e))
      in rehash_entries h next_entry (num + 1) (b1[target := e # b1 ! target]))"

definition RehashBucket :: "hash_fn \<Rightarrow> nat \<Rightarrow> 'v htable \<Rightarrow> nat \<times> 'v htable" where
  "RehashBucket h i t =
     (if buckets0 t ! i = [] then (0, t)
      else (let (num, b1) = rehash_entries h (buckets0 t ! i) 0 (buckets1 t)
            in (num, t\<lparr>buckets0 := (buckets0 t)[i := []], buckets1 := b1\<rparr>)))"

text \<open>
  The \<open>while (true)\<close> of \<open>RehashSome\<close>. Each round either returns or decreases one of the two
  allowances, which start above zero, so the loop ends.
\<close>

fun rehash_loop :: "hash_fn \<Rightarrow> nat \<Rightarrow> nat \<Rightarrow> 'v htable \<Rightarrow> bool \<times> 'v htable" where
  "rehash_loop h buckets_to_rehash empty_allowed t =
     (let (moved, t1) = RehashBucket h (nat (rehash_index t)) t;
          t2 = t1\<lparr>rehash_index := rehash_index t1 + 1\<rparr>
      in if rehash_index t2 = to_int32 (int (length (buckets0 t2)))
         then (True, t2\<lparr>rehash_index := -1, buckets0 := buckets1 t2, buckets1 := []\<rparr>)
         else if moved = 0
         then (if empty_allowed - 1 = 0 then (False, t2)
               else rehash_loop h buckets_to_rehash (empty_allowed - 1) t2)
         else (if buckets_to_rehash - 1 = 0 then (False, t2)
               else rehash_loop h (buckets_to_rehash - 1) empty_allowed t2))"

declare rehash_loop.simps [simp del]

definition RehashSome :: "hash_fn \<Rightarrow> nat \<Rightarrow> 'v htable \<Rightarrow> bool \<times> 'v htable" where
  "RehashSome h buckets_to_rehash t = rehash_loop h buckets_to_rehash (buckets_to_rehash * 10) t"

section \<open>Finding a bucket\<close>

text \<open>An iterator into one of the two bucket vectors.\<close>

datatype place = Place0 nat | Place1 nat

definition locate :: "hash_fn \<Rightarrow> 'v htable \<Rightarrow> string \<Rightarrow> place" where
  "locate h t k =
     (let index = hash_index h (length (buckets0 t)) k
      in if index \<ge> rehash_index t then Place0 (nat index)
         else Place1 (nat (hash_index h (length (buckets1 t)) k)))"

definition FindBucket :: "hash_fn \<Rightarrow> 'v htable \<Rightarrow> string \<Rightarrow> place \<times> 'v htable" where
  "FindBucket h t k =
     (let t' = (if IsRehashing t then snd (RehashSome h 1 t) else t)
      in (locate h t' k, t'))"

fun bucket_at :: "'v htable \<Rightarrow> place \<Rightarrow> 'v bucket" where
  "bucket_at t (Place0 i) = buckets0 t ! i"
| "bucket_at t (Place1 i) = buckets1 t ! i"

fun put_bucket :: "'v htable \<Rightarrow> place \<Rightarrow> 'v bucket \<Rightarrow> 'v htable" where
  "put_bucket t (Place0 i) b = t\<lparr>buckets0 := (buckets0 t)[i := b]\<rparr>"
| "put_bucket t (Place1 i) b = t\<lparr>buckets1 := (buckets1 t)[i := b]\<rparr>"

fun place_ok :: "'v htable \<Rightarrow> place \<Rightarrow> bool" where
  "place_ok t (Place0 i) \<longleftrightarrow> i < length (buckets0 t)"
| "place_ok t (Place1 i) \<longleftrightarrow> i < length (buckets1 t)"

fun FindEntryInBucket :: "'v bucket \<Rightarrow> string \<Rightarrow> 'v hentry option" where
  "FindEntryInBucket [] k = None"
| "FindEntryInBucket (e # es) k = (if Equals (ekey e) k then Some e else FindEntryInBucket es k)"

fun EraseEntryInBucket :: "'v bucket \<Rightarrow> string \<Rightarrow> bool \<times> 'v bucket" where
  "EraseEntryInBucket [] k = (False, [])"
| "EraseEntryInBucket (e # es) k =
     (if Equals (ekey e) k then (True, es)
      else (let (erased, es') = EraseEntryInBucket es k in (erased, e # es')))"

text \<open>
  \<open>CreateEntryInBucket\<close> default-constructs the value (\<open>dv\<close>) and the last access time. When the
  caller passes \<open>create_shared_key = false\<close> it fills the key in right after
  (\<open>Upsert\<close> with a key pointer); both callers leave an entry with the key of the call.
\<close>

definition new_entry :: "'v \<Rightarrow> string \<Rightarrow> 'v hentry" where
  "new_entry dv k = \<lparr>ekey = \<lparr>key_data = k, key_lru = 0\<rparr>, evalue = dv\<rparr>"

definition CreateEntryInBucket :: "'v \<Rightarrow> 'v htable \<Rightarrow> place \<Rightarrow> string \<Rightarrow> 'v hentry \<times> 'v htable" where
  "CreateEntryInBucket dv t p k =
     (let entry = new_entry dv k in (entry, put_bucket t p (entry # bucket_at t p)))"

section \<open>Growing\<close>

definition NeedsToExpand :: "'v htable \<Rightarrow> bool \<times> 'v htable" where
  "NeedsToExpand t =
     (if buckets0 t = [] then (False, t\<lparr>buckets0 := replicate 4 []\<rparr>)
      else (entries t \<ge> length (buckets0 t), t))"

definition StartRehashing :: "hash_fn \<Rightarrow> 'v htable \<Rightarrow> 'v htable" where
  "StartRehashing h t = snd (RehashSome h 1 (t\<lparr>rehash_index := 0\<rparr>))"

datatype expand_result = kNoExpand | kRehashing | kExpandDone

definition Expand :: "hash_fn \<Rightarrow> 'v htable \<Rightarrow> expand_result \<times> 'v htable" where
  "Expand h t =
     (if IsRehashing t then (kRehashing, t)
      else (let (needed, t1) = NeedsToExpand t
            in if \<not> needed then (kNoExpand, t1)
               else (let t2 = t1\<lparr>buckets1 := replicate (length (buckets0 t1) * 2) []\<rparr>;
                         t3 = StartRehashing h t2
                     in (if IsRehashing t3 then kRehashing else kExpandDone, t3))))"

section \<open>The public operations\<close>

definition FindOrCreate ::
  "hash_fn \<Rightarrow> 'v \<Rightarrow> 'v htable \<Rightarrow> string \<Rightarrow> bool \<Rightarrow> ('v hentry option \<times> bool) \<times> 'v htable" where
  "FindOrCreate h dv t key create_on_missing =
     (if buckets0 t = [] \<and> \<not> create_on_missing then ((None, False), t)
      else
        (let t0 = (if buckets0 t = [] then snd (Expand h t) else t);
             (bucket, t1) = FindBucket h t0 key
         in case FindEntryInBucket (bucket_at t1 bucket) key of
              Some entry \<Rightarrow> ((Some entry, True), t1)
            | None \<Rightarrow>
                if \<not> create_on_missing then ((None, False), t1)
                else
                  (let (r, t2) = Expand h t1;
                       (bucket', t3) = (if r \<noteq> kNoExpand then FindBucket h t2 key else (bucket, t2));
                       (entry, t4) = CreateEntryInBucket dv t3 bucket' key
                   in ((Some entry, False), t4\<lparr>entries := entries t4 + 1\<rparr>))))"

definition Find :: "hash_fn \<Rightarrow> 'v \<Rightarrow> 'v htable \<Rightarrow> string \<Rightarrow> 'v hentry option \<times> 'v htable" where
  "Find h dv t key = (let ((entry, _), t') = FindOrCreate h dv t key False in (entry, t'))"

text \<open>A write through the pointer to the entry with key \<open>k\<close>.\<close>

definition update_entry :: "string \<Rightarrow> ('v hentry \<Rightarrow> 'v hentry) \<Rightarrow> 'v htable \<Rightarrow> 'v htable" where
  "update_entry k f t =
     (let g = map (map (\<lambda>e. if kstr e = k then f e else e))
      in t\<lparr>buckets0 := g (buckets0 t), buckets1 := g (buckets1 t)\<rparr>)"

definition set_value :: "string \<Rightarrow> 'v \<Rightarrow> 'v htable \<Rightarrow> 'v htable" where
  "set_value k v = update_entry k (\<lambda>e. e\<lparr>evalue := v\<rparr>)"

definition set_key_lru :: "string \<Rightarrow> 32 word \<Rightarrow> 'v htable \<Rightarrow> 'v htable" where
  "set_key_lru k lru = update_entry k (\<lambda>e. e\<lparr>ekey := SetLRU lru (ekey e)\<rparr>)"

text \<open>\<open>Insert\<close>, and the two overloads of \<open>Upsert\<close> (by string, by shared key).\<close>

definition Insert :: "hash_fn \<Rightarrow> 'v \<Rightarrow> 'v htable \<Rightarrow> string \<Rightarrow> 'v \<Rightarrow> bool \<times> 'v htable" where
  "Insert h dv t key v =
     (let ((entry, exists), t1) = FindOrCreate h dv t key True
      in (\<not> exists, if \<not> exists then set_value key v t1 else t1))"

definition Upsert :: "hash_fn \<Rightarrow> 'v \<Rightarrow> 'v htable \<Rightarrow> string \<Rightarrow> 'v \<Rightarrow> bool \<times> 'v htable" where
  "Upsert h dv t key v =
     (let ((entry, exists), t1) = FindOrCreate h dv t key True
      in (exists, set_value key v t1))"

definition Upsert_key :: "hash_fn \<Rightarrow> 'v \<Rightarrow> 'v htable \<Rightarrow> hkey \<Rightarrow> 'v \<Rightarrow> bool \<times> 'v htable" where
  "Upsert_key h dv t key_ptr v =
     (let ((entry, exists), t1) = FindOrCreate h dv t (key_data key_ptr) True;
          t2 = (if exists then t1
                else update_entry (key_data key_ptr) (\<lambda>e. e\<lparr>ekey := key_ptr\<rparr>) t1)
      in (exists, set_value (key_data key_ptr) v t2))"

definition Erase :: "hash_fn \<Rightarrow> 'v htable \<Rightarrow> string \<Rightarrow> bool \<times> 'v htable" where
  "Erase h t key =
     (if buckets0 t = [] then (False, t)
      else (let (bucket, t1) = FindBucket h t key;
                (erased, b) = EraseEntryInBucket (bucket_at t1 bucket) key;
                t2 = put_bucket t1 bucket b
            in (erased, if erased then t2\<lparr>entries := entries t2 - 1\<rparr> else t2)))"

end
