(* ===== verification/HashTableInv.thy ===== *)
theory HashTableInv
  imports HashTable
begin

text \<open>
  The well-formedness invariant of the hash table and its preservation by every operation;
  the abstraction of a table to the finite map it represents; and the functional correctness of
  every operation against that map.
\<close>

section \<open>Abstraction and invariant\<close>

definition all_entries :: "'v htable \<Rightarrow> 'v hentry list" where
  "all_entries t = concat (buckets0 t) @ concat (buckets1 t)"

text \<open>The finite map a table represents: from a key to the entry that holds it.\<close>

definition ht_map :: "'v htable \<Rightarrow> string \<rightharpoonup> 'v hentry" where
  "ht_map t = map_of (map (\<lambda>e. (kstr e, e)) (all_entries t))"

abbreviation slot :: "hash_fn \<Rightarrow> nat \<Rightarrow> string \<Rightarrow> nat" where
  "slot h n k \<equiv> unat (h k) mod n"

definition placed :: "hash_fn \<Rightarrow> 'v bucket list \<Rightarrow> bool" where
  "placed h bs \<longleftrightarrow> (\<forall>i<length bs. \<forall>e\<in>set (bs ! i). slot h (length bs) (kstr e) = i)"

definition pow2_size :: "nat \<Rightarrow> bool" where
  "pow2_size n \<longleftrightarrow> (\<exists>m\<ge>2. n = 2 ^ m) \<and> n < 2147483648"

definition counted :: "'v htable \<Rightarrow> bool" where
  "counted t \<longleftrightarrow> distinct (map kstr (all_entries t)) \<and> entries t = length (all_entries t)"

text \<open>The table outside a rehash: one bucket vector, load factor at most one.\<close>

definition stable :: "hash_fn \<Rightarrow> 'v htable \<Rightarrow> bool" where
  "stable h t \<longleftrightarrow> rehash_index t = -1 \<and> buckets1 t = [] \<and> counted t \<and> placed h (buckets0 t) \<and>
     (buckets0 t = [] \<or> pow2_size (length (buckets0 t)) \<and> entries t \<le> length (buckets0 t))"

text \<open>
  The table in a rehash with the first \<open>r\<close> buckets of the first vector drained into the second,
  which is twice as long.
\<close>

definition draining :: "hash_fn \<Rightarrow> nat \<Rightarrow> 'v htable \<Rightarrow> bool" where
  "draining h r t \<longleftrightarrow> pow2_size (length (buckets0 t)) \<and> pow2_size (length (buckets1 t)) \<and>
     length (buckets1 t) = 2 * length (buckets0 t) \<and> counted t \<and>
     placed h (buckets0 t) \<and> placed h (buckets1 t) \<and>
     (\<forall>i<r. buckets0 t ! i = []) \<and>
     (\<forall>e\<in>set (concat (buckets1 t)). slot h (length (buckets0 t)) (kstr e) < r)"

definition rehashing :: "hash_fn \<Rightarrow> 'v htable \<Rightarrow> bool" where
  "rehashing h t \<longleftrightarrow> (\<exists>r. rehash_index t = int r \<and> r < length (buckets0 t) \<and> draining h r t \<and>
     entries t \<le> length (buckets0 t) + r)"

definition ht_inv :: "hash_fn \<Rightarrow> 'v htable \<Rightarrow> bool" where
  "ht_inv h t \<longleftrightarrow> stable h t \<or> rehashing h t"

text \<open>The bound under which growing keeps every bucket index inside \<open>int32_t\<close>.\<close>

definition ht_room :: "'v htable \<Rightarrow> bool" where
  "ht_room t \<longleftrightarrow> entries t < 1073741824"

lemma stable_not_rehashing: "stable h t \<Longrightarrow> \<not> IsRehashing t"
  by (simp add: stable_def IsRehashing_def)

lemma rehashing_IsRehashing: "rehashing h t \<Longrightarrow> IsRehashing t"
  by (auto simp: rehashing_def IsRehashing_def)

lemma ht_inv_init: "ht_inv h HashTable_init"
  by (simp add: ht_inv_def stable_def HashTable_init_def counted_def all_entries_def placed_def)

lemma ht_map_init: "ht_map HashTable_init = Map.empty"
  by (simp add: ht_map_def all_entries_def HashTable_init_def)

lemma pow2_size_pos: "pow2_size n \<Longrightarrow> 0 < n"
  by (auto simp: pow2_size_def)

lemma pow2_size_bound: "pow2_size n \<Longrightarrow> n < 2147483648"
  by (simp add: pow2_size_def)

lemma pow2_size_double: "pow2_size n \<Longrightarrow> n < 1073741824 \<Longrightarrow> pow2_size (2 * n)"
proof -
  assume "pow2_size n" and small: "n < 1073741824"
  then obtain m where m: "2 \<le> m" "n = 2 ^ m" unfolding pow2_size_def by blast
  then have "2 * n = 2 ^ Suc m" by simp
  moreover have "2 \<le> Suc m" using m by simp
  moreover have "2 * n < 2147483648" using small by linarith
  ultimately show ?thesis unfolding pow2_size_def by blast
qed

lemma slot_less: "pow2_size n \<Longrightarrow> slot h n k < n"
  by (simp add: mod_less_divisor pow2_size_pos)

lemma hash_index_slot:
  assumes "0 < n" and "n < 2147483648"
  shows "hash_index h n k = int (slot h n k)"
proof -
  have "slot h n k < 2147483648" using assms mod_less_divisor order_less_trans by blast
  then show ?thesis by (simp only: hash_index_def to_int32_of_nat)
qed

lemma hash_index_pow2: "pow2_size n \<Longrightarrow> hash_index h n k = int (slot h n k)"
  by (rule hash_index_slot [OF pow2_size_pos pow2_size_bound])

lemma placedD: "placed h bs \<Longrightarrow> i < length bs \<Longrightarrow> e \<in> set (bs ! i) \<Longrightarrow> slot h (length bs) (kstr e) = i"
  unfolding placed_def by blast

lemma placed_concat:
  assumes "placed h bs" and "e \<in> set (concat bs)"
  shows "e \<in> set (bs ! slot h (length bs) (kstr e))"
proof -
  obtain i where "i < length bs" "e \<in> set (bs ! i)"
    using assms(2) by (auto simp only: set_concat_nth)
  then show ?thesis using placedD [OF assms(1)] by simp
qed

lemma placed_update:
  assumes "placed h bs" and "\<And>e. e \<in> set b \<Longrightarrow> slot h (length bs) (kstr e) = i"
  shows "placed h (bs[i := b])"
  unfolding placed_def
proof (intro allI impI ballI)
  fix j e
  assume "j < length (bs[i := b])" and e: "e \<in> set (bs[i := b] ! j)"
  then have j: "j < length bs" by simp
  show "slot h (length (bs[i := b])) (kstr e) = j"
  proof (cases "j = i")
    case True
    with e j assms(2) show ?thesis by simp
  next
    case False
    with e j placedD [OF assms(1)] show ?thesis by simp
  qed
qed

lemma placed_replicate: "placed h (replicate n [])"
  by (simp add: placed_def)

text \<open>What depends on the entries only up to their order.\<close>

lemma counted_mset:
  assumes "mset (all_entries t) = mset (all_entries t')" and "entries t' = entries t"
  shows "counted t \<longleftrightarrow> counted t'"
  using assms distinct_map_mset [OF assms(1)] mset_eq_length [OF assms(1)]
  by (auto simp: counted_def)

lemma ht_map_mset:
  assumes "mset (all_entries t) = mset (all_entries t')" and "counted t"
  shows "ht_map t' = ht_map t"
  using assms(2) unfolding ht_map_def counted_def
  by (intro map_of_keyed_mset [OF assms(1), symmetric]) blast

lemma ht_inv_counted: "ht_inv h t \<Longrightarrow> counted t"
  by (auto simp: ht_inv_def stable_def rehashing_def draining_def)

lemma ht_map_Some_iff:
  "counted t \<Longrightarrow> ht_map t k = Some e \<longleftrightarrow> e \<in> set (all_entries t) \<and> kstr e = k"
  unfolding ht_map_def counted_def by (rule map_of_keyed_eq_Some) blast

lemma ht_map_None_iff: "ht_map t k = None \<longleftrightarrow> k \<notin> kstr ` set (all_entries t)"
  unfolding ht_map_def by (rule map_of_keyed_eq_None)

lemma ht_map_key: "ht_map t k = Some e \<Longrightarrow> kstr e = k"
  unfolding ht_map_def by (auto dest: map_of_SomeD)

text \<open>The rehash index is not part of what these describe.\<close>

lemma all_entries_rehash_index [simp]: "all_entries (t\<lparr>rehash_index := x\<rparr>) = all_entries t"
  by (simp add: all_entries_def)

lemma counted_rehash_index [simp]: "counted (t\<lparr>rehash_index := x\<rparr>) = counted t"
  by (simp add: counted_def)

lemma draining_rehash_index [simp]: "draining h r (t\<lparr>rehash_index := x\<rparr>) = draining h r t"
  by (simp add: draining_def)

section \<open>Rehashing keeps the map\<close>

lemma rehash_entries_correct:
  assumes "rehash_entries h es num b1 = (num', b1')" and "0 < length b1" and "length b1 < 2147483648"
  shows "num' = num + length es \<and> length b1' = length b1 \<and>
     mset (concat b1') = mset (concat b1) + mset es \<and> (placed h b1 \<longrightarrow> placed h b1')"
  using assms
proof (induction h es num b1 rule: rehash_entries.induct)
  case (1 h num b1)
  then show ?case by simp
next
  case (2 h e es num b1)
  let ?i = "slot h (length b1) (kstr e)"
  let ?b = "b1[?i := e # b1 ! ?i]"
  have i: "?i < length b1" using "2.prems" by simp
  have t: "?i = nat (hash_index h (length b1) (kstr e))"
    using "2.prems" by (simp add: hash_index_slot)
  have eq: "rehash_entries h es (num + 1) ?b = (num', b1')"
    using "2.prems"(1) unfolding rehash_entries.simps Let_def t [symmetric] .
  have IH: "num' = num + 1 + length es \<and> length b1' = length ?b \<and>
     mset (concat b1') = mset (concat ?b) + mset es \<and> (placed h ?b \<longrightarrow> placed h b1')"
    by (rule "2.IH" [OF t eq]) (use "2.prems" in simp_all)
  have "mset (concat ?b) = add_mset e (mset (concat b1))"
    using mset_concat_update [OF i, of "e # b1 ! ?i"] by simp
  moreover have "placed h ?b" if "placed h b1"
    by (rule placed_update [OF that]) (use placedD [OF that i] in auto)
  ultimately show ?case using IH by simp
qed


lemma RehashBucket_correct:
  assumes "draining h r t" and "r < length (buckets0 t)" and "RehashBucket h r t = (moved, t')"
  shows "draining h (Suc r) t' \<and> mset (all_entries t') = mset (all_entries t) \<and>
     entries t' = entries t \<and> rehash_index t' = rehash_index t \<and>
     length (buckets0 t') = length (buckets0 t) \<and> moved = length (buckets0 t ! r)"
proof (cases "buckets0 t ! r = []")
  case True
  with assms(3) have eq: "t' = t" "moved = 0" by (auto simp: RehashBucket_def)
  have "draining h (Suc r) t"
    using assms(1) True by (auto simp: draining_def less_Suc_eq)
  with eq True show ?thesis by simp
next
  case False
  let ?b = "buckets0 t ! r"
  obtain num b1 where re: "rehash_entries h ?b 0 (buckets1 t) = (num, b1)" by fastforce
  have t': "t' = t\<lparr>buckets0 := (buckets0 t)[r := []], buckets1 := b1\<rparr>" and m: "moved = num"
    using assms(3) False re by (auto simp: RehashBucket_def)
  note d = assms(1) [unfolded draining_def]
  have re': "num = 0 + length ?b \<and> length b1 = length (buckets1 t) \<and>
     mset (concat b1) = mset (concat (buckets1 t)) + mset ?b \<and>
     (placed h (buckets1 t) \<longrightarrow> placed h b1)"
    using d by (intro rehash_entries_correct [OF re]) (auto dest: pow2_size_pos pow2_size_bound)
  have b0: "mset (concat ((buckets0 t)[r := []])) + mset ?b = mset (concat (buckets0 t))"
    using mset_concat_update [OF assms(2), of "[]"] by simp
  have ms: "mset (all_entries t') = mset (all_entries t)"
    using re' b0 by (simp add: all_entries_def t')
  then have "counted t'" using counted_mset [of t t'] d t' by simp
  moreover have "placed h (buckets0 t')"
    using d t' by (auto intro: placed_update)
  moreover have "slot h (length (buckets0 t)) (kstr e) < Suc r" if "e \<in> set (concat b1)" for e
  proof -
    have "e \<in># mset (concat b1)" using that by (simp only: set_mset_mset)
    then have "e \<in> set (concat (buckets1 t)) \<or> e \<in> set ?b"
      using re' by (metis set_mset_mset union_iff)
    then show ?thesis
    proof
      assume "e \<in> set ?b"
      then have "slot h (length (buckets0 t)) (kstr e) = r"
        using d assms(2) by (intro placedD) auto
      then show ?thesis by simp
    next
      assume "e \<in> set (concat (buckets1 t))"
      then show ?thesis using d less_SucI by blast
    qed
  qed
  moreover have "\<forall>i<Suc r. buckets0 t' ! i = []"
    using d assms(2) t' by (auto simp: nth_list_update less_Suc_eq)
  ultimately have "draining h (Suc r) t'"
    using d re' unfolding draining_def by (auto simp: t')
  with ms re' t' m show ?thesis by simp
qed

lemma draining_finish:
  assumes "draining h (length (buckets0 t)) t" and "entries t \<le> length (buckets1 t)"
  shows "stable h (t\<lparr>rehash_index := -1, buckets0 := buckets1 t, buckets1 := []\<rparr>) \<and>
     all_entries (t\<lparr>rehash_index := -1, buckets0 := buckets1 t, buckets1 := []\<rparr>) = all_entries t"
proof -
  have "concat (buckets0 t) = []"
    using assms(1) by (auto simp: draining_def in_set_conv_nth)
  then have "all_entries (t\<lparr>rehash_index := -1, buckets0 := buckets1 t, buckets1 := []\<rparr>) = all_entries t"
    by (simp add: all_entries_def)
  with assms show ?thesis
    by (auto simp: stable_def draining_def counted_def)
qed

text \<open>What a rehashing step may do to a table: the entries stay, the rehash advances or ends.\<close>

definition advanced :: "hash_fn \<Rightarrow> 'v htable \<Rightarrow> bool \<Rightarrow> 'v htable \<Rightarrow> bool" where
  "advanced h t finished t' \<longleftrightarrow> mset (all_entries t') = mset (all_entries t) \<and> entries t' = entries t \<and>
     (if finished then stable h t' \<and> length (buckets0 t') = 2 * length (buckets0 t) \<and>
         entries t' < length (buckets0 t')
      else rehashing h t' \<and> rehash_index t < rehash_index t' \<and>
         length (buckets0 t') = length (buckets0 t))"

lemma rehash_loop_advanced:
  assumes "rehashing h t" and "rehash_loop h n e t = (finished, t')"
  shows "advanced h t finished t'"
  using assms
proof (induction h n e t rule: rehash_loop.induct)
  case (1 h n e t)
  obtain r where r: "rehash_index t = int r" "r < length (buckets0 t)" "draining h r t"
      "entries t \<le> length (buckets0 t) + r"
    using "1.prems"(1) by (auto simp: rehashing_def)
  obtain moved t1 where rb: "RehashBucket h (nat (rehash_index t)) t = (moved, t1)" by fastforce
  let ?t2 = "t1\<lparr>rehash_index := rehash_index t1 + 1\<rparr>"
  have c: "draining h (Suc r) t1" "mset (all_entries t1) = mset (all_entries t)"
      "entries t1 = entries t" "rehash_index t1 = int r" "length (buckets0 t1) = length (buckets0 t)"
    using RehashBucket_correct [OF r(3,2), of moved t1] rb r(1) by auto
  have d2: "draining h (Suc r) ?t2"
    using c(1) by simp
  have len: "length (buckets0 ?t2) < 2147483648" "length (buckets1 ?t2) = 2 * length (buckets0 ?t2)"
    using d2 by (auto simp: draining_def dest: pow2_size_bound)
  show ?case
  proof (cases "Suc r = length (buckets0 ?t2)")
    case True
    then have eq: "(finished, t') =
        (True, ?t2\<lparr>rehash_index := -1, buckets0 := buckets1 ?t2, buckets1 := []\<rparr>)"
      using "1.prems"(2) rb len c(4) by (subst (asm) rehash_loop.simps) (simp add: Let_def)
    have "entries ?t2 < length (buckets1 ?t2)" using r(4) c len True by simp
    with draining_finish [of h ?t2] d2 True have st: "stable h t'" "all_entries t' = all_entries t1"
      using eq by simp_all
    have "finished" "entries t' = entries t" "length (buckets0 t') = 2 * length (buckets0 t)"
      using eq c len by auto
    with st c(2) r(2,4) show ?thesis by (simp add: advanced_def)
  next
    case False
    then have less: "Suc r < length (buckets0 ?t2)" using r(2) c(5) by simp
    have re: "rehashing h ?t2"
      unfolding rehashing_def using d2 less c r(4) by (intro exI [of _ "Suc r"]) auto
    have ne: "rehash_index ?t2 \<noteq> to_int32 (int (length (buckets0 ?t2)))"
      using False len c(4) by simp
    have sub: "advanced h t f u" if "advanced h ?t2 f u" for f u
      using that c r(1) by (auto simp: advanced_def all_entries_def split: if_splits)
    have stop: "advanced h t False ?t2"
      using re c r(1) by (auto simp: advanced_def all_entries_def)
    note IH = "1.IH" [OF rb [symmetric] refl refl ne _ _ re]
    show ?thesis
    proof (cases "moved = 0")
      case True
      then show ?thesis using "1.prems"(2) rb ne stop sub IH(1) 
        by (subst (asm) rehash_loop.simps) (auto simp: Let_def split: if_splits)
    next
      case False
      then show ?thesis using "1.prems"(2) rb ne stop sub IH(2)
        by (subst (asm) rehash_loop.simps) (auto simp: Let_def split: if_splits)
    qed
  qed
qed

lemma RehashSome_advanced:
  "rehashing h t \<Longrightarrow> RehashSome h n t = (finished, t') \<Longrightarrow> advanced h t finished t'"
  unfolding RehashSome_def by (rule rehash_loop_advanced)

lemma advanced_inv: "advanced h t finished t' \<Longrightarrow> ht_inv h t'"
  by (auto simp: advanced_def ht_inv_def split: if_splits)

text \<open>The first bucket vector only ever gets longer, so that an index of a bucket stays one.\<close>

lemma advanced_grows: "advanced h t finished t' \<Longrightarrow> length (buckets0 t) \<le> length (buckets0 t')"
  by (simp add: advanced_def split: if_splits)

lemma advanced_ht_map:
  assumes "advanced h t finished t'" and "counted t"
  shows "ht_map t' = ht_map t"
  using assms by (intro ht_map_mset) (simp_all add: advanced_def)

lemma advanced_IsRehashing: "advanced h t finished t' \<Longrightarrow> IsRehashing t' \<longleftrightarrow> \<not> finished"
  by (auto simp: advanced_def dest: stable_not_rehashing rehashing_IsRehashing split: if_splits)

section \<open>Locating a key\<close>

lemma drainingD:
  assumes "draining h r t"
  shows "pow2_size (length (buckets0 t))" and "pow2_size (length (buckets1 t))"
    and "placed h (buckets0 t)" and "placed h (buckets1 t)"
    and "i < r \<Longrightarrow> buckets0 t ! i = []"
    and "e \<in> set (concat (buckets1 t)) \<Longrightarrow> slot h (length (buckets0 t)) (kstr e) < r"
  using assms unfolding draining_def by blast+

lemma drainingI:
  assumes "pow2_size (length (buckets0 t))" and "pow2_size (length (buckets1 t))"
    and "length (buckets1 t) = 2 * length (buckets0 t)" and "counted t"
    and "placed h (buckets0 t)" and "placed h (buckets1 t)"
    and "\<And>i. i < r \<Longrightarrow> buckets0 t ! i = []"
    and "\<And>e. e \<in> set (concat (buckets1 t)) \<Longrightarrow> slot h (length (buckets0 t)) (kstr e) < r"
  shows "draining h r t"
  using assms unfolding draining_def by blast

lemma draining_locate:
  assumes "draining h r t" and "rehash_index t = int r"
  shows "locate h t k =
    (if r \<le> slot h (length (buckets0 t)) k then Place0 (slot h (length (buckets0 t)) k)
     else Place1 (slot h (length (buckets1 t)) k))"
  using drainingD(1,2) [OF assms(1)] assms(2) by (simp add: locate_def hash_index_pow2)

lemma stable_locate_eq:
  assumes "stable h t" and "buckets0 t \<noteq> []"
  shows "locate h t k = Place0 (slot h (length (buckets0 t)) k)"
  using assms by (auto simp: stable_def locate_def hash_index_pow2)

lemma rehashing_locate:
  assumes "rehashing h t"
  shows "place_ok t (locate h t k) \<and>
    set (filter (\<lambda>e. kstr e = k) (all_entries t)) \<subseteq> set (bucket_at t (locate h t k))"
proof -
  obtain r where r: "rehash_index t = int r" "r < length (buckets0 t)" "draining h r t"
    using assms by (auto simp: rehashing_def)
  let ?n0 = "length (buckets0 t)" and ?n1 = "length (buckets1 t)"
  note p = drainingD [OF r(3)] and loc = draining_locate [OF r(3,1), of k]
  have "e \<in> set (bucket_at t (locate h t k))" if e: "e \<in> set (all_entries t)" and ek: "kstr e = k" for e
  proof -
    consider "e \<in> set (concat (buckets0 t))" | "e \<in> set (concat (buckets1 t))"
      using e unfolding all_entries_def set_append by blast
    then show ?thesis
    proof cases
      case 1
      then have e0: "e \<in> set (buckets0 t ! slot h ?n0 k)" using placed_concat [OF p(3)] ek by blast
      then have "r \<le> slot h ?n0 k" using p(5) by (metis empty_iff empty_set not_le)
      with e0 loc show ?thesis by simp
    next
      case 2
      then have "e \<in> set (buckets1 t ! slot h ?n1 k)" using placed_concat [OF p(4)] ek by blast
      with p(6) [OF 2] loc ek show ?thesis by simp
    qed
  qed
  moreover have "place_ok t (locate h t k)"
    using loc p(1,2) by (simp add: slot_less)
  ultimately show ?thesis by auto
qed

lemma stable_locate:
  assumes "stable h t" and "buckets0 t \<noteq> []"
  shows "place_ok t (locate h t k) \<and>
    set (filter (\<lambda>e. kstr e = k) (all_entries t)) \<subseteq> set (bucket_at t (locate h t k))"
proof -
  let ?n0 = "length (buckets0 t)"
  have p: "pow2_size ?n0" "placed h (buckets0 t)" "buckets1 t = []" "rehash_index t = -1"
    using assms by (auto simp: stable_def)
  note loc = stable_locate_eq [OF assms, of k]
  have "e \<in> set (buckets0 t ! slot h ?n0 k)" if "e \<in> set (all_entries t)" "kstr e = k" for e
    using placed_concat [OF p(2), of e] that p(3) by (auto simp: all_entries_def)
  then show ?thesis using loc p(1) by (auto simp: slot_less)
qed

lemma bucket_at_subset: "place_ok t p \<Longrightarrow> set (bucket_at t p) \<subseteq> set (all_entries t)"
  by (cases p) (auto simp: all_entries_def set_concat_nth simp del: set_concat)

text \<open>Every bucket access of the table is in range, and the entry of a key is in its bucket.\<close>

lemma locate_correct:
  assumes "ht_inv h t" and "buckets0 t \<noteq> []"
  shows "place_ok t (locate h t k)"
    and "e \<in> set (all_entries t) \<Longrightarrow> kstr e = k \<Longrightarrow> e \<in> set (bucket_at t (locate h t k))"
  using assms rehashing_locate [of h t k] stable_locate [of h t k]
  by (auto simp: ht_inv_def)

lemma FindBucket_correct:
  assumes "ht_inv h t" and "buckets0 t \<noteq> []" and "FindBucket h t k = (p, t')"
  shows "ht_inv h t' \<and> buckets0 t' \<noteq> [] \<and> p = locate h t' k \<and>
    mset (all_entries t') = mset (all_entries t) \<and> entries t' = entries t \<and>
    (stable h t \<longrightarrow> t' = t) \<and> (rehashing h t \<longrightarrow> (\<exists>f. advanced h t f t'))"
proof (cases "IsRehashing t")
  case True
  with assms(1) have re: "rehashing h t" by (auto simp: ht_inv_def dest: stable_not_rehashing)
  obtain f u where f: "RehashSome h 1 t = (f, u)" by fastforce
  from RehashSome_advanced [OF re f] have adv: "advanced h t f u" .
  then have "buckets0 u \<noteq> []" using assms(2) by (auto simp: advanced_def split: if_splits)
  moreover have "\<not> stable h t" using True stable_not_rehashing by blast
  moreover have "p = locate h u k" "t' = u" using assms(3) True f by (auto simp: FindBucket_def)
  moreover have "mset (all_entries u) = mset (all_entries t)" "entries u = entries t"
    using adv by (simp_all add: advanced_def)
  ultimately show ?thesis using adv advanced_inv [OF adv] by blast
next
  case False
  with assms show ?thesis
    by (auto simp: FindBucket_def dest: rehashing_IsRehashing)
qed

section \<open>Writing a bucket\<close>

lemma put_bucket_mset:
  assumes "place_ok t p"
  shows "mset (all_entries (put_bucket t p b)) + mset (bucket_at t p) = mset (all_entries t) + mset b"
proof (cases p)
  case (Place0 i)
  then show ?thesis using assms mset_concat_update [of i "buckets0 t" b]
    by (simp add: all_entries_def)
next
  case (Place1 i)
  then show ?thesis using assms mset_concat_update [of i "buckets1 t" b]
    by (simp add: all_entries_def)
qed

lemma put_bucket_lengths [simp]:
  "length (buckets0 (put_bucket t p b)) = length (buckets0 t)"
  "length (buckets1 (put_bucket t p b)) = length (buckets1 t)"
  "rehash_index (put_bucket t p b) = rehash_index t"
  "entries (put_bucket t p b) = entries t"
  by (cases p; simp)+

lemma all_entries_entries [simp]: "all_entries (t\<lparr>entries := n\<rparr>) = all_entries t"
  by (simp add: all_entries_def)

text \<open>
  Replacing the bucket of \<open>k\<close> by entries that were in it or have key \<open>k\<close> keeps the invariant,
  if the new count is right and the load bound holds.
\<close>

lemma put_bucket_stable:
  assumes "stable h t" and "buckets0 t \<noteq> []" and "p = locate h t k"
    and "\<And>e. e \<in> set b \<Longrightarrow> e \<in> set (bucket_at t p) \<or> kstr e = k"
    and "counted ((put_bucket t p b)\<lparr>entries := n\<rparr>)" and "n \<le> length (buckets0 t)"
  shows "stable h ((put_bucket t p b)\<lparr>entries := n\<rparr>)"
proof -
  let ?n0 = "length (buckets0 t)"
  have s: "pow2_size ?n0" "placed h (buckets0 t)" "buckets1 t = []" "rehash_index t = -1"
    using assms(1,2) by (auto simp: stable_def)
  have p: "p = Place0 (slot h ?n0 k)"
    using stable_locate_eq [OF assms(1,2)] assms(3) by simp
  have "placed h ((buckets0 t)[slot h ?n0 k := b])"
    using assms(4) p placedD [OF s(2) slot_less [OF s(1)]] by (intro placed_update s) auto
  then show ?thesis using s p assms(5,6) by (simp add: stable_def)
qed

lemma put_bucket_rehashing:
  assumes "rehashing h t" and "p = locate h t k"
    and "\<And>e. e \<in> set b \<Longrightarrow> e \<in> set (bucket_at t p) \<or> kstr e = k"
    and "counted ((put_bucket t p b)\<lparr>entries := n\<rparr>)"
    and "int n \<le> int (length (buckets0 t)) + rehash_index t"
  shows "rehashing h ((put_bucket t p b)\<lparr>entries := n\<rparr>)"
proof -
  let ?n0 = "length (buckets0 t)" and ?n1 = "length (buckets1 t)"
  let ?t' = "(put_bucket t p b)\<lparr>entries := n\<rparr>"
  obtain r where r: "rehash_index t = int r" "r < ?n0" "draining h r t"
    using assms(1) by (auto simp: rehashing_def)
  note d = drainingD [OF r(3)]
  have loc: "p = (if r \<le> slot h ?n0 k then Place0 (slot h ?n0 k) else Place1 (slot h ?n1 k))"
    using draining_locate [OF r(3,1)] assms(2) by simp
  have two: "?n1 = 2 * ?n0" using r(3) by (simp add: draining_def)
  have "draining h r ?t'"
  proof (cases "r \<le> slot h ?n0 k")
    case True
    then have p: "p = Place0 (slot h ?n0 k)" using loc by simp
    have "placed h ((buckets0 t)[slot h ?n0 k := b])"
      using assms(3) p placedD [OF d(3) slot_less [OF d(1)]] by (intro placed_update d(3)) auto
    moreover have "(buckets0 t)[slot h ?n0 k := b] ! i = []" if "i < r" for i
      using d(5) [OF that] True that by simp
    moreover have "buckets0 ?t' = (buckets0 t)[slot h ?n0 k := b]" "buckets1 ?t' = buckets1 t"
      using p by simp_all
    ultimately show ?thesis using d two
      by (intro drainingI [OF _ _ _ assms(4)]) (simp_all only: length_list_update)
  next
    case False
    then have p: "p = Place1 (slot h ?n1 k)" using loc by simp
    have "placed h ((buckets1 t)[slot h ?n1 k := b])"
      using assms(3) p placedD [OF d(4) slot_less [OF d(2)]] by (intro placed_update d(4)) auto
    moreover have "slot h ?n0 (kstr e) < r" if e: "e \<in> set (concat ((buckets1 t)[slot h ?n1 k := b]))" for e
    proof -
      obtain j where j: "j < ?n1" "e \<in> set ((buckets1 t)[slot h ?n1 k := b] ! j)"
        using e by (auto simp only: set_concat_nth length_list_update)
      then have "e \<in> set (concat (buckets1 t)) \<or> kstr e = k"
        using assms(3) p set_concat_nth [of e "buckets1 t"] slot_less [OF d(2)]
        by (cases "j = slot h ?n1 k") auto
      then show ?thesis using d(6) False by auto
    qed
    moreover have "buckets0 ?t' = buckets0 t" "buckets1 ?t' = (buckets1 t)[slot h ?n1 k := b]"
      using p by simp_all
    ultimately show ?thesis using d(1,2,3,5) two
      by (intro drainingI [OF _ _ _ assms(4)]) (simp_all only: length_list_update)
  qed
  then show ?thesis using r(1,2) assms(5) unfolding rehashing_def by (intro exI [of _ r]) simp
qed

section \<open>One bucket\<close>

lemma FindEntryInBucket_Some:
  "FindEntryInBucket b k = Some e \<Longrightarrow> e \<in> set b \<and> kstr e = k"
  by (induction b) (auto simp: Equals_def split: if_splits)

lemma FindEntryInBucket_None: "FindEntryInBucket b k = None \<longleftrightarrow> (\<forall>e\<in>set b. kstr e \<noteq> k)"
  by (induction b) (auto simp: Equals_def)

lemma EraseEntryInBucket_found:
  "EraseEntryInBucket b k = (True, b') \<Longrightarrow> \<exists>e. kstr e = k \<and> mset b = add_mset e (mset b')"
  by (induction b arbitrary: b') (fastforce simp: Equals_def split: if_splits prod.splits)+

lemma EraseEntryInBucket_missing:
  "EraseEntryInBucket b k = (False, b') \<Longrightarrow> b' = b \<and> (\<forall>e\<in>set b. kstr e \<noteq> k)"
  by (induction b arbitrary: b') (fastforce simp: Equals_def split: if_splits prod.splits)+

lemma bucket_lookup:
  assumes "ht_inv h t" and "buckets0 t \<noteq> []"
  shows "FindEntryInBucket (bucket_at t (locate h t k)) k = ht_map t k"
proof (cases "FindEntryInBucket (bucket_at t (locate h t k)) k")
  case None
  then have "k \<notin> kstr ` set (all_entries t)"
    using locate_correct(2) [OF assms] by (auto simp: FindEntryInBucket_None)
  then have "ht_map t k = None" by (simp only: ht_map_None_iff not_False_eq_True)
  then show ?thesis using None by simp
next
  case (Some e)
  then have "e \<in> set (all_entries t)" "kstr e = k"
    using FindEntryInBucket_Some bucket_at_subset [OF locate_correct(1) [OF assms]] by blast+
  then have "ht_map t k = Some e"
    using ht_map_Some_iff [OF ht_inv_counted [OF assms(1)]] by blast
  then show ?thesis using Some by simp
qed

section \<open>Adding and removing an entry\<close>

text \<open>The load bound that leaves room for one more entry.\<close>

definition slack :: "'v htable \<Rightarrow> bool" where
  "slack t \<longleftrightarrow> (if IsRehashing t then int (entries t) < int (length (buckets0 t)) + rehash_index t
     else entries t < length (buckets0 t))"

lemma advanced_slack:
  assumes "rehashing h t" and "advanced h t f t'"
  shows "slack t'"
proof -
  have "int (entries t) \<le> int (length (buckets0 t)) + rehash_index t"
    using assms(1) by (auto simp: rehashing_def)
  with assms(2) advanced_IsRehashing [OF assms(2)] show ?thesis
    by (auto simp: slack_def advanced_def split: if_splits)
qed

lemma put_bucket_inv:
  assumes "ht_inv h t" and "buckets0 t \<noteq> []" and "p = locate h t k"
    and "\<And>e. e \<in> set b \<Longrightarrow> e \<in> set (bucket_at t p) \<or> kstr e = k"
    and "counted ((put_bucket t p b)\<lparr>entries := n\<rparr>)"
    and "if IsRehashing t then int n \<le> int (length (buckets0 t)) + rehash_index t
         else n \<le> length (buckets0 t)"
  shows "ht_inv h ((put_bucket t p b)\<lparr>entries := n\<rparr>)"
proof (cases "IsRehashing t")
  case True
  then have "rehashing h t" using assms(1) by (auto simp: ht_inv_def dest: stable_not_rehashing)
  then have "rehashing h ((put_bucket t p b)\<lparr>entries := n\<rparr>)"
    using assms(6) True by (intro put_bucket_rehashing [OF _ assms(3,4,5)]) simp_all
  then show ?thesis by (simp add: ht_inv_def)
next
  case False
  then have "stable h t" using assms(1) by (auto simp: ht_inv_def dest: rehashing_IsRehashing)
  then have "stable h ((put_bucket t p b)\<lparr>entries := n\<rparr>)"
    using assms(6) False by (intro put_bucket_stable [OF _ assms(2-5)]) simp_all
  then show ?thesis by (simp add: ht_inv_def)
qed

lemma insert_correct:
  assumes "ht_inv h t" and "buckets0 t \<noteq> []" and "slack t" and "p = locate h t k"
    and "ht_map t k = None" and "kstr e = k"
    and t': "t' = (put_bucket t p (e # bucket_at t p))\<lparr>entries := entries t + 1\<rparr>"
  shows "ht_inv h t' \<and> ht_map t' = (ht_map t)(k \<mapsto> e)"
proof -
  have c: "counted t" using assms(1) by (rule ht_inv_counted)
  have ok: "place_ok t p" using locate_correct(1) [OF assms(1,2)] assms(4) by simp
  have m: "mset (all_entries t') = mset (e # all_entries t)"
    using put_bucket_mset [OF ok, of "e # bucket_at t p"] by (simp add: t')
  have d: "distinct (map kstr (e # all_entries t))"
    using c assms(5,6) by (auto simp: counted_def ht_map_None_iff)
  have "counted t'"
    using d c distinct_map_mset [OF m, of kstr] mset_eq_length [OF m] by (simp add: counted_def t')
  moreover have "ht_map t' = (ht_map t)(k \<mapsto> e)"
    using map_of_keyed_mset [OF m [symmetric] d] assms(6) by (simp add: ht_map_def)
  ultimately show ?thesis
    using assms(3,6) unfolding t'
    by (auto intro!: put_bucket_inv [OF assms(1,2,4)] simp: slack_def split: if_splits)
qed

lemma erase_correct:
  assumes "ht_inv h t" and "buckets0 t \<noteq> []" and "p = locate h t k"
    and "kstr e = k" and "mset (bucket_at t p) = add_mset e (mset b)"
    and t': "t' = (put_bucket t p b)\<lparr>entries := entries t - 1\<rparr>"
  shows "ht_inv h t' \<and> ht_map t' = (ht_map t)(k := None) \<and> 0 < entries t"
proof -
  have c: "counted t" using assms(1) by (rule ht_inv_counted)
  have ok: "place_ok t p" using locate_correct(1) [OF assms(1,2)] assms(3) by simp
  have m: "mset (all_entries t) = mset (e # all_entries t')"
    using put_bucket_mset [OF ok, of b] assms(5) by (simp add: t')
  have d: "distinct (map kstr (e # all_entries t'))"
    using c distinct_map_mset [OF m, of kstr] by (simp add: counted_def)
  have l: "length (all_entries t) = Suc (length (all_entries t'))" using mset_eq_length [OF m] by simp
  have "counted t'" using d c l by (simp add: counted_def t')
  moreover have "ht_map t = (ht_map t')(k \<mapsto> e)"
    using map_of_keyed_mset [OF m, of kstr] c assms(4) by (simp add: ht_map_def counted_def)
  moreover have "ht_map t' k = None" using d assms(4) by (auto simp: ht_map_None_iff)
  moreover have "set b \<subseteq> set (bucket_at t p)"
    using assms(5) by (metis set_mset_add_mset_insert set_mset_mset subset_insertI)
  moreover have "if IsRehashing t then int (entries t - 1) \<le> int (length (buckets0 t)) + rehash_index t
         else entries t - 1 \<le> length (buckets0 t)"
    using assms(1,2) by (auto simp: ht_inv_def stable_def rehashing_def IsRehashing_def)
  ultimately show ?thesis
    using c l unfolding t'
    by (auto intro!: put_bucket_inv [OF assms(1,2,3)] simp: counted_def)
qed

section \<open>Growing\<close>

lemma Expand_correct:
  assumes "ht_inv h t" and "ht_room t" and "Expand h t = (r, t')"
  shows "ht_inv h t' \<and> buckets0 t' \<noteq> [] \<and> mset (all_entries t') = mset (all_entries t) \<and>
    entries t' = entries t \<and> (\<not> IsRehashing t' \<longrightarrow> slack t') \<and>
    (r = kNoExpand \<longrightarrow> \<not> IsRehashing t' \<and> (buckets0 t \<noteq> [] \<longrightarrow> t' = t)) \<and>
    length (buckets0 t) \<le> length (buckets0 t')"
proof (cases "IsRehashing t")
  case True
  then have "rehashing h t" using assms(1) by (auto simp: ht_inv_def dest: stable_not_rehashing)
  then have "buckets0 t \<noteq> []" by (auto simp: rehashing_def)
  with True assms show ?thesis by (auto simp: Expand_def)
next
  case False
  then have st: "stable h t" using assms(1) by (auto simp: ht_inv_def dest: rehashing_IsRehashing)
  show ?thesis
  proof (cases "buckets0 t = []")
    case True
    then have t': "t' = t\<lparr>buckets0 := replicate 4 []\<rparr>" "r = kNoExpand"
      using False assms(3) by (auto simp: Expand_def NeedsToExpand_def)
    have e: "all_entries t' = []" "entries t = 0"
      using st True t' by (auto simp: stable_def counted_def all_entries_def)
    have "pow2_size 4" unfolding pow2_size_def by (auto intro: exI [of _ 2])
    then have "stable h t'"
      using st t' e placed_replicate [of h 4] by (simp add: stable_def counted_def)
    moreover have "\<not> IsRehashing t'" using False t' by (simp add: IsRehashing_def)
    moreover have "all_entries t = []" using st True by (simp add: all_entries_def stable_def)
    ultimately show ?thesis using e t' True by (simp add: ht_inv_def slack_def)
  next
    case ne: False
    show ?thesis
    proof (cases "entries t \<ge> length (buckets0 t)")
      case full: False
      then have "t' = t" "r = kNoExpand"
        using False ne assms(3) by (auto simp: Expand_def NeedsToExpand_def)
      then show ?thesis using False ne full assms(1) by (simp add: slack_def)
    next
      case True
      let ?t2 = "t\<lparr>buckets1 := replicate (length (buckets0 t) * 2) [], rehash_index := 0\<rparr>"
      have p: "pow2_size (length (buckets0 t))" and len: "entries t = length (buckets0 t)"
        using st ne True by (auto simp: stable_def)
      have p2: "pow2_size (2 * length (buckets0 t))"
        using pow2_size_double [OF p] assms(2) len by (simp add: ht_room_def)
      have e2: "all_entries ?t2 = all_entries t" using st by (simp add: all_entries_def stable_def)
      have "draining h 0 ?t2"
        using p p2 st e2 placed_replicate [of h]
        by (intro drainingI) (auto simp: stable_def counted_def mult.commute)
      then have re: "rehashing h ?t2"
        using pow2_size_pos [OF p] len unfolding rehashing_def by (intro exI [of _ 0]) simp
      obtain f u where f: "RehashSome h 1 ?t2 = (f, u)" by fastforce
      note adv = RehashSome_advanced [OF re f]
      have "t' = u" "r \<noteq> kNoExpand"
        using f False ne True assms(3)
        by (auto simp: Expand_def NeedsToExpand_def StartRehashing_def Let_def split: if_splits)
      moreover have "mset (all_entries u) = mset (all_entries t)" "entries u = entries t"
        using adv e2 by (simp_all add: advanced_def)
      moreover have "buckets0 u \<noteq> []" using adv ne by (auto simp: advanced_def split: if_splits)
      moreover have "length (buckets0 t) \<le> length (buckets0 u)" using advanced_grows [OF adv] by simp
      ultimately show ?thesis using advanced_inv [OF adv] advanced_slack [OF re adv] by simp
    qed
  qed
qed

section \<open>The public operations against the map\<close>

lemma FindBucket_slack:
  assumes "ht_inv h t" and "buckets0 t \<noteq> []" and "\<not> IsRehashing t \<longrightarrow> slack t"
    and "FindBucket h t k = (p, t')"
  shows "slack t'"
proof (cases "IsRehashing t")
  case True
  then have "rehashing h t" using assms(1) by (auto simp: ht_inv_def dest: stable_not_rehashing)
  then show ?thesis using FindBucket_correct [OF assms(1,2,4)] advanced_slack by blast
next
  case False
  then have "stable h t" using assms(1) by (auto simp: ht_inv_def dest: rehashing_IsRehashing)
  then show ?thesis using FindBucket_correct [OF assms(1,2,4)] False assms(3) by blast
qed

text \<open>The part of \<open>FindOrCreate\<close> after the key was not found in its bucket.\<close>

lemma create_correct:
  assumes "ht_inv h t" and "buckets0 t \<noteq> []" and "ht_room t" and "ht_map t k = None"
    and "Expand h t = (r, t2)"
    and "(if r \<noteq> kNoExpand then FindBucket h t2 k else (locate h t k, t2)) = (p, t3)"
    and "CreateEntryInBucket dv t3 p k = (e, t4)"
  shows "ht_inv h (t4\<lparr>entries := entries t4 + 1\<rparr>) \<and> e = new_entry dv k \<and>
    ht_map (t4\<lparr>entries := entries t4 + 1\<rparr>) = (ht_map t)(k \<mapsto> e)"
proof -
  note ex = Expand_correct [OF assms(1,3,5)]
  have t3: "ht_inv h t3 \<and> buckets0 t3 \<noteq> [] \<and> p = locate h t3 k \<and> slack t3 \<and>
      mset (all_entries t3) = mset (all_entries t2)"
  proof (cases "r = kNoExpand")
    case True
    then show ?thesis using ex assms(1,2,6) by auto
  next
    case False
    then have fb: "FindBucket h t2 k = (p, t3)" using assms(6) by simp
    have inv2: "ht_inv h t2" "buckets0 t2 \<noteq> []" "\<not> IsRehashing t2 \<longrightarrow> slack t2" using ex by blast+
    show ?thesis using FindBucket_correct [OF inv2(1,2) fb] FindBucket_slack [OF inv2 fb] by blast
  qed
  have map3: "ht_map t3 = ht_map t"
    using ht_map_mset [of t t3] ht_inv_counted [OF assms(1)] t3 ex by simp
  have e: "e = new_entry dv k" and t4: "t4 = put_bucket t3 p (e # bucket_at t3 p)"
    using assms(7) by (auto simp: CreateEntryInBucket_def Let_def)
  have "ht_inv h (t4\<lparr>entries := entries t4 + 1\<rparr>) \<and> ht_map (t4\<lparr>entries := entries t4 + 1\<rparr>) = (ht_map t3)(k \<mapsto> e)"
    using t3 e assms(4) map3 by (intro insert_correct [where p = p]) (auto simp: new_entry_def t4)
  then show ?thesis using e map3 by simp
qed

lemma FindOrCreate_correct:
  assumes "ht_inv h t" and "create \<longrightarrow> ht_room t" and "FindOrCreate h dv t k create = ((eo, ex), t')"
  shows "ht_inv h t' \<and> ex = (ht_map t k \<noteq> None) \<and>
    (if ht_map t k = None \<and> create
     then eo = Some (new_entry dv k) \<and> ht_map t' = (ht_map t)(k \<mapsto> new_entry dv k)
     else eo = ht_map t k \<and> ht_map t' = ht_map t)"
proof (cases "buckets0 t = [] \<and> \<not> create")
  case True
  then have "stable h t" using assms(1) by (auto simp: ht_inv_def rehashing_def)
  then have "ht_map t = Map.empty" using True by (simp add: ht_map_def all_entries_def stable_def)
  then show ?thesis using True assms(1,3) by (simp add: FindOrCreate_def)
next
  case False
  define t0 where "t0 = (if buckets0 t = [] then snd (Expand h t) else t)"
  obtain r0 u0 where "Expand h t = (r0, u0)" by fastforce
  then have t0: "ht_inv h t0 \<and> buckets0 t0 \<noteq> [] \<and> mset (all_entries t0) = mset (all_entries t) \<and>
      entries t0 = entries t"
    using Expand_correct [OF assms(1)] assms(1,2) False by (auto simp: t0_def)
  obtain p t1 where fb: "FindBucket h t0 k = (p, t1)" by fastforce
  have t1: "ht_inv h t1 \<and> buckets0 t1 \<noteq> [] \<and> p = locate h t1 k \<and>
      mset (all_entries t1) = mset (all_entries t) \<and> entries t1 = entries t"
    using FindBucket_correct [OF _ _ fb] t0 by simp
  have m1: "ht_map t1 = ht_map t"
    using ht_map_mset [of t t1] ht_inv_counted [OF assms(1)] t1 by simp
  have look: "FindEntryInBucket (bucket_at t1 p) k = ht_map t k"
    using bucket_lookup [of h t1 k] t1 m1 by simp
  note un = assms(3) [unfolded FindOrCreate_def if_not_P [OF False] t0_def [symmetric] Let_def fb
      prod.case look]
  show ?thesis
  proof (cases "ht_map t k")
    case (Some e)
    then have "eo = Some e" "ex" "t' = t1" using un by auto
    then show ?thesis using Some t1 m1 by simp
  next
    case None
    show ?thesis
    proof (cases create)
      case False
      then show ?thesis using None un t1 m1 by simp
    next
      case True
      obtain r t2 where e2: "Expand h t1 = (r, t2)" by fastforce
      obtain p' t3 where e3: "(if r \<noteq> kNoExpand then FindBucket h t2 k else (p, t2)) = (p', t3)" by fastforce
      obtain en t4 where e4: "CreateEntryInBucket dv t3 p' k = (en, t4)" by fastforce
      have "eo = Some en" "\<not> ex" "t' = t4\<lparr>entries := entries t4 + 1\<rparr>"
        using un None True e2 e3 e4 by auto
      moreover have "ht_room t1" using t1 assms(2) True by (simp add: ht_room_def)
      moreover have "(if r \<noteq> kNoExpand then FindBucket h t2 k else (locate h t1 k, t2)) = (p', t3)"
        using e3 t1 by auto
      ultimately show ?thesis
        using create_correct [of h t1 k r t2 p' t3 dv en t4, OF _ _ _ _ e2 _ e4] t1 m1 None True by simp
    qed
  qed
qed

lemma FindBucket_grows:
  assumes "ht_inv h t" and "buckets0 t \<noteq> []" and "FindBucket h t k = (p, t')"
  shows "length (buckets0 t) \<le> length (buckets0 t')"
  using FindBucket_correct [OF assms] assms(1) advanced_grows by (auto simp: ht_inv_def)

lemma FindOrCreate_grows:
  assumes "ht_inv h t" and "create \<longrightarrow> ht_room t" and "FindOrCreate h dv t k create = (r, t')"
  shows "length (buckets0 t) \<le> length (buckets0 t')"
proof (cases "buckets0 t = []")
  case False
  obtain p t1 where fb: "FindBucket h t k = (p, t1)" by fastforce
  note g1 = FindBucket_grows [OF assms(1) False fb] and c1 = FindBucket_correct [OF assms(1) False fb]
  obtain r2 t2 where e2: "Expand h t1 = (r2, t2)" by fastforce
  obtain q t3 where e3: "(if r2 \<noteq> kNoExpand then FindBucket h t2 k else (p, t2)) = (q, t3)" by fastforce
  have "t' = t1 \<or> create \<and> length (buckets0 t') = length (buckets0 t3)"
    using assms(3) False fb e2 e3
    by (auto simp: FindOrCreate_def Let_def split_def CreateEntryInBucket_def split: option.splits if_splits)
  moreover have "length (buckets0 t1) \<le> length (buckets0 t3)" if create
  proof -
    have "ht_room t1" using c1 assms(2) that by (simp add: ht_room_def)
    then have c2: "ht_inv h t2" "buckets0 t2 \<noteq> []" "length (buckets0 t1) \<le> length (buckets0 t2)"
      using Expand_correct [OF _ _ e2] c1 by blast+
    then show ?thesis using FindBucket_grows [OF c2(1,2), of k q t3] e3 by (auto split: if_splits)
  qed
  ultimately show ?thesis using g1 by auto
qed simp

lemma Erase_grows:
  assumes "ht_inv h t" and "Erase h t k = (r, t')"
  shows "length (buckets0 t) \<le> length (buckets0 t')"
  using assms FindBucket_grows [OF assms(1) _ prod.collapse [symmetric], of k]
  by (auto simp: Erase_def Let_def split_def split: if_splits)

lemma Find_correct:
  assumes "ht_inv h t" and "Find h dv t k = (eo, t')"
  shows "ht_inv h t' \<and> eo = ht_map t k \<and> ht_map t' = ht_map t"
proof -
  obtain ex where "FindOrCreate h dv t k False = ((eo, ex), t')"
    using assms(2) by (auto simp: Find_def split: prod.splits)
  from FindOrCreate_correct [OF assms(1) _ this] show ?thesis by simp
qed

lemma Erase_correct:
  assumes "ht_inv h t" and "Erase h t k = (erased, t')"
  shows "ht_inv h t' \<and> erased = (ht_map t k \<noteq> None) \<and> ht_map t' = (ht_map t)(k := None)"
proof (cases "buckets0 t = []")
  case True
  then have "stable h t" using assms(1) by (auto simp: ht_inv_def rehashing_def)
  then have "ht_map t = Map.empty" using True by (simp add: ht_map_def all_entries_def stable_def)
  then show ?thesis using True assms by (auto simp: Erase_def)
next
  case False
  obtain p t1 where fb: "FindBucket h t k = (p, t1)" by fastforce
  note t1 = FindBucket_correct [OF assms(1) False fb]
  obtain er b where eb: "EraseEntryInBucket (bucket_at t1 p) k = (er, b)" by fastforce
  have t': "erased = er" "t' = (if er then (put_bucket t1 p b)\<lparr>entries := entries t1 - 1\<rparr> else put_bucket t1 p b)"
    using assms(2) False fb eb by (auto simp: Erase_def Let_def)
  have m1: "ht_map t1 = ht_map t"
    using ht_map_mset [of t t1] ht_inv_counted [OF assms(1)] t1 by simp
  show ?thesis
  proof (cases er)
    case True
    then obtain e where e: "kstr e = k" "mset (bucket_at t1 p) = add_mset e (mset b)"
      using EraseEntryInBucket_found [of "bucket_at t1 p" k b] eb by auto
    then have "e \<in> set (bucket_at t1 p)" by (metis set_mset_mset union_single_eq_member)
    then have "FindEntryInBucket (bucket_at t1 p) k \<noteq> None" using e by (auto simp: FindEntryInBucket_None)
    then have "ht_map t k \<noteq> None" using bucket_lookup [of h t1 k] t1 m1 by simp
    then show ?thesis
      using erase_correct [of h t1 p k e b t'] t1 e True t' m1 by simp
  next
    case False
    then have b: "b = bucket_at t1 p" "\<forall>e\<in>set (bucket_at t1 p). kstr e \<noteq> k"
      using EraseEntryInBucket_missing [of "bucket_at t1 p" k b] eb by auto
    from b(2) have "FindEntryInBucket (bucket_at t1 p) k = None" by (simp only: FindEntryInBucket_None)
    then have "ht_map t k = None" using bucket_lookup [of h t1 k] t1 m1 by simp
    moreover have "put_bucket t1 p b = t1" using b(1) by (cases p) simp_all
    ultimately show ?thesis using False t' t1 m1 by (simp add: fun_upd_idem)
  qed
qed

section \<open>Writes through an entry pointer\<close>

definition key_kept :: "string \<Rightarrow> ('v hentry \<Rightarrow> 'v hentry) \<Rightarrow> bool" where
  "key_kept k f \<longleftrightarrow> (\<forall>e. kstr e = k \<longrightarrow> kstr (f e) = k)"

lemma key_kept_simps [simp]:
  "key_kept k (\<lambda>e. e\<lparr>evalue := v\<rparr>)"
  "key_kept k (\<lambda>e. e\<lparr>ekey := SetLRU lru (ekey e)\<rparr>)"
  "key_data kp = k \<Longrightarrow> key_kept k (\<lambda>e. e\<lparr>ekey := kp\<rparr>)"
  by (simp_all add: key_kept_def SetLRU_def)

lemma update_entry_all_entries:
  "all_entries (update_entry k f t) = map (\<lambda>e. if kstr e = k then f e else e) (all_entries t)"
  by (simp add: all_entries_def update_entry_def map_concat Let_def)

lemma update_entry_simps [simp]:
  "length (buckets0 (update_entry k f t)) = length (buckets0 t)"
  "length (buckets1 (update_entry k f t)) = length (buckets1 t)"
  "rehash_index (update_entry k f t) = rehash_index t"
  "entries (update_entry k f t) = entries t"
  by (simp_all add: update_entry_def Let_def)

lemma placed_map:
  assumes "placed h bs" and "\<And>e. kstr (g e) = kstr e"
  shows "placed h (map (map g) bs)"
  unfolding placed_def
proof (intro allI impI ballI)
  fix i e
  assume i: "i < length (map (map g) bs)" and "e \<in> set (map (map g) bs ! i)"
  then obtain e' where "e' \<in> set (bs ! i)" "e = g e'" by auto
  then show "slot h (length (map (map g) bs)) (kstr e) = i"
    using placedD [OF assms(1), of i e'] i assms(2) by simp
qed

lemma update_entry_correct:
  assumes "ht_inv h t" and "key_kept k f"
  shows "ht_inv h (update_entry k f t) \<and> ht_map (update_entry k f t) = (ht_map t)(k := map_option f (ht_map t k))"
proof -
  let ?g = "\<lambda>e. if kstr e = k then f e else e" and ?t' = "update_entry k f t"
  have g: "kstr (?g e) = kstr e" for e using assms(2) by (simp add: key_kept_def)
  have b: "buckets0 ?t' = map (map ?g) (buckets0 t)" "buckets1 ?t' = map (map ?g) (buckets1 t)"
    by (simp_all add: update_entry_def Let_def)
  have keys: "map kstr (all_entries ?t') = map kstr (all_entries t)"
    using g by (simp add: update_entry_all_entries)
  have c: "counted ?t'"
    using ht_inv_counted [OF assms(1)] keys
    by (simp add: counted_def) (simp add: update_entry_all_entries)
  have "stable h ?t'" if "stable h t"
    using that c placed_map [of h "buckets0 t", OF _ g] b by (auto simp: stable_def)
  moreover have "rehashing h ?t'" if "rehashing h t"
  proof -
    obtain r where r: "rehash_index t = int r" "r < length (buckets0 t)" "draining h r t"
        "entries t \<le> length (buckets0 t) + r"
      using \<open>rehashing h t\<close> by (auto simp: rehashing_def)
    note d = drainingD [OF r(3)]
    have "draining h r ?t'"
    proof (rule drainingI)
      fix e assume "e \<in> set (concat (buckets1 ?t'))"
      then obtain e' where "e' \<in> set (concat (buckets1 t))" "e = ?g e'"
        unfolding b map_concat [symmetric] set_map by blast
      then show "slot h (length (buckets0 ?t')) (kstr e) < r" using d(6) g by simp
    qed (use c d r(2,3) placed_map [OF d(3) g] placed_map [OF d(4) g] in
        \<open>simp_all add: b draining_def\<close>)
    then show ?thesis using r unfolding rehashing_def by auto
  qed
  moreover have "ht_map ?t' = (ht_map t)(k := map_option f (ht_map t k))"
  proof
    fix k'
    have eq: "map (\<lambda>e. (kstr e, e)) (map ?g xs) = map (\<lambda>(x, e). (x, ?g e)) (map (\<lambda>e. (kstr e, e)) xs)" for xs
      using g by simp
    have "ht_map ?t' k' = map_option ?g (ht_map t k')"
      unfolding ht_map_def update_entry_all_entries eq by (simp only: map_of_map comp_apply)
    then show "ht_map ?t' k' = ((ht_map t)(k := map_option f (ht_map t k))) k'"
      using ht_map_key [of t k'] by (cases "ht_map t k'") auto
  qed
  ultimately show ?thesis using assms(1) by (auto simp: ht_inv_def)
qed

end
