(* ===== verification/HashTableSpec.thy ===== *)
theory HashTableSpec
  imports HashTableInv
begin

text \<open>
  The contract of the hash table towards the service (\<open>src/src/service/\<close>), as the locale
  \<open>kv_table\<close>; its interpretation on the table of \<open>hash_table.h\<close>; and the refinement of a finite
  map by any sequence of table operations.
\<close>

section \<open>The interface of a key-value table\<close>

text \<open>
  What the service relies on: a table with a well-formedness invariant \<open>inv\<close>, a capacity
  condition \<open>room\<close> for growing, and a view as a finite map from keys to entries. A lookup may
  reorganise the table and never changes the view.
\<close>

locale kv_table =
  fixes inv :: "'t \<Rightarrow> bool"
    and room :: "'t \<Rightarrow> bool"
    and view :: "'t \<Rightarrow> 'k \<Rightarrow> 'e option"
    and find :: "'t \<Rightarrow> 'k \<Rightarrow> 'e option \<times> 't"
    and create :: "'t \<Rightarrow> 'k \<Rightarrow> ('e option \<times> bool) \<times> 't"
    and fresh :: "'k \<Rightarrow> 'e"
    and erase :: "'t \<Rightarrow> 'k \<Rightarrow> bool \<times> 't"
    and modify :: "'k \<Rightarrow> ('e \<Rightarrow> 'e) \<Rightarrow> 't \<Rightarrow> 't"
    and keeps :: "'k \<Rightarrow> ('e \<Rightarrow> 'e) \<Rightarrow> bool"
  assumes find_law: "inv t \<Longrightarrow> find t k = (eo, t') \<Longrightarrow> inv t' \<and> eo = view t k \<and> view t' = view t"
    and create_law: "inv t \<Longrightarrow> room t \<Longrightarrow> create t k = ((eo, ex), t') \<Longrightarrow>
      inv t' \<and> ex = (view t k \<noteq> None) \<and>
      (if view t k = None then eo = Some (fresh k) \<and> view t' = (view t)(k \<mapsto> fresh k)
       else eo = view t k \<and> view t' = view t)"
    and erase_law: "inv t \<Longrightarrow> erase t k = (b, t') \<Longrightarrow>
      inv t' \<and> b = (view t k \<noteq> None) \<and> view t' = (view t)(k := None)"
    and modify_law: "inv t \<Longrightarrow> keeps k f \<Longrightarrow>
      inv (modify k f t) \<and> view (modify k f t) = (view t)(k := map_option f (view t k))"
    and finite_view: "inv t \<Longrightarrow> finite (dom (view t))"
    and room_law: "inv t \<Longrightarrow> card (dom (view t)) < 1073741824 \<Longrightarrow> room t"
begin

lemma find_inv: "inv t \<Longrightarrow> inv (snd (find t k))"
  using find_law [of t k "fst (find t k)" "snd (find t k)"] by simp

lemma find_result: "inv t \<Longrightarrow> fst (find t k) = view t k"
  using find_law [of t k "fst (find t k)" "snd (find t k)"] by simp

lemma find_view: "inv t \<Longrightarrow> view (snd (find t k)) = view t"
  using find_law [of t k "fst (find t k)" "snd (find t k)"] by simp

lemma erase_inv: "inv t \<Longrightarrow> inv (snd (erase t k))"
  using erase_law [of t k "fst (erase t k)" "snd (erase t k)"] by simp

lemma erase_result: "inv t \<Longrightarrow> fst (erase t k) = (view t k \<noteq> None)"
  using erase_law [of t k "fst (erase t k)" "snd (erase t k)"] by simp

lemma erase_view: "inv t \<Longrightarrow> view (snd (erase t k)) = (view t)(k := None)"
  using erase_law [of t k "fst (erase t k)" "snd (erase t k)"] by simp

lemma create_inv: "inv t \<Longrightarrow> room t \<Longrightarrow> inv (snd (create t k))"
  using create_law [of t k "fst (fst (create t k))" "snd (fst (create t k))" "snd (create t k)"] by simp

lemma create_result:
  "inv t \<Longrightarrow> room t \<Longrightarrow> fst (create t k) =
     (Some (case view t k of None \<Rightarrow> fresh k | Some e \<Rightarrow> e), view t k \<noteq> None)"
  using create_law [of t k "fst (fst (create t k))" "snd (fst (create t k))" "snd (create t k)"]
  by (auto simp: prod_eq_iff split: if_splits option.splits)

lemma create_view:
  "inv t \<Longrightarrow> room t \<Longrightarrow> view (snd (create t k)) =
     (view t)(k \<mapsto> (case view t k of None \<Rightarrow> fresh k | Some e \<Rightarrow> e))"
  using create_law [of t k "fst (fst (create t k))" "snd (fst (create t k))" "snd (create t k)"]
  by (auto split: if_splits option.splits)

lemma modify_inv: "inv t \<Longrightarrow> keeps k f \<Longrightarrow> inv (modify k f t)"
  using modify_law by blast

lemma modify_view: "inv t \<Longrightarrow> keeps k f \<Longrightarrow> view (modify k f t) = (view t)(k := map_option f (view t k))"
  using modify_law by blast

lemmas inv_rules = find_inv erase_inv create_inv modify_inv

lemmas view_rules = find_result find_view erase_result erase_view create_result create_view modify_view

text \<open>Creating the entry of a key and then writing it stores exactly that entry.\<close>

lemma store_view:
  assumes "inv t" and "room t" and "keeps k f"
  shows "view (modify k f (snd (create t k))) =
    (view t)(k \<mapsto> f (case view t k of None \<Rightarrow> fresh k | Some e \<Rightarrow> e))"
  using assms by (simp add: modify_view create_view create_inv)

lemma store_find:
  assumes "inv t" and "room t" and "keeps k f"
  shows "fst (find (modify k f (snd (create t k))) k') =
    (if k' = k then Some (f (case view t k of None \<Rightarrow> fresh k | Some e \<Rightarrow> e)) else view t k')"
  using assms by (simp add: find_result modify_inv create_inv store_view)

lemma erase_find:
  assumes "inv t"
  shows "fst (find (snd (erase t k)) k') = (if k' = k then None else view t k')"
  using assms by (simp add: find_result erase_inv erase_view)

lemma create_card:
  assumes "inv t" and "room t"
  shows "card (dom (view (snd (create t k)))) \<le> Suc (card (dom (view t)))"
  using assms finite_view [OF assms(1)] by (simp add: create_view card_insert_le_m1 card_insert_if)

end

section \<open>The table implements the interface\<close>

lemma entries_card:
  assumes "ht_inv h t"
  shows "entries t = card (dom (ht_map t))"
proof -
  have c: "distinct (map kstr (all_entries t))" "entries t = length (all_entries t)"
    using ht_inv_counted [OF assms] by (simp_all add: counted_def)
  have "dom (ht_map t) = set (map kstr (all_entries t))"
    by (simp add: ht_map_def dom_map_of_conv_image_fst image_image)
  then have "card (dom (ht_map t)) = length (map kstr (all_entries t))"
    using distinct_card [OF c(1)] by simp
  with c(2) show ?thesis by simp
qed

lemma finite_ht_map: "finite (dom (ht_map t))"
  by (simp add: ht_map_def finite_dom_map_of)

interpretation ht: kv_table "ht_inv h" ht_room ht_map "Find h dv"
    "\<lambda>t k. FindOrCreate h dv t k True" "new_entry dv" "Erase h" update_entry key_kept
  for h dv
proof unfold_locales
  show "ht_inv h t \<Longrightarrow> Find h dv t k = (eo, t') \<Longrightarrow>
      ht_inv h t' \<and> eo = ht_map t k \<and> ht_map t' = ht_map t" for t k eo t'
    by (rule Find_correct)
  show "ht_inv h t \<Longrightarrow> ht_room t \<Longrightarrow> FindOrCreate h dv t k True = ((eo, ex), t') \<Longrightarrow>
      ht_inv h t' \<and> ex = (ht_map t k \<noteq> None) \<and>
      (if ht_map t k = None then eo = Some (new_entry dv k) \<and> ht_map t' = (ht_map t)(k \<mapsto> new_entry dv k)
       else eo = ht_map t k \<and> ht_map t' = ht_map t)" for t k eo ex t'
    using FindOrCreate_correct [of h t True dv k eo ex t'] by simp
  show "ht_inv h t \<Longrightarrow> Erase h t k = (b, t') \<Longrightarrow>
      ht_inv h t' \<and> b = (ht_map t k \<noteq> None) \<and> ht_map t' = (ht_map t)(k := None)" for t k b t'
    by (rule Erase_correct)
  show "ht_inv h t \<Longrightarrow> key_kept k f \<Longrightarrow> ht_inv h (update_entry k f t) \<and>
      ht_map (update_entry k f t) = (ht_map t)(k := map_option f (ht_map t k))" for t k f
    by (rule update_entry_correct)
  show "finite (dom (ht_map t))" for t by (rule finite_ht_map)
  show "ht_inv h t \<Longrightarrow> card (dom (ht_map t)) < 1073741824 \<Longrightarrow> ht_room t" for t
    by (simp add: ht_room_def entries_card)
qed

section \<open>The derived operations\<close>

text \<open>The values of a table, forgetting the key objects.\<close>

definition vmap :: "'v htable \<Rightarrow> string \<rightharpoonup> 'v" where
  "vmap t k = map_option evalue (ht_map t k)"

lemma vmap_init: "vmap HashTable_init = Map.empty"
  by (simp add: vmap_def fun_eq_iff ht_map_init)

lemma set_value_correct:
  assumes "ht_inv h t"
  shows "ht_inv h (set_value k v t)"
    and "ht_map (set_value k v t) = (ht_map t)(k := map_option (\<lambda>e. e\<lparr>evalue := v\<rparr>) (ht_map t k))"
  using assms by (simp_all add: set_value_def ht.modify_inv ht.modify_view)

lemma set_key_lru_correct:
  assumes "ht_inv h t"
  shows "ht_inv h (set_key_lru k l t)"
    and "ht_map (set_key_lru k l t) = (ht_map t)(k := map_option (\<lambda>e. e\<lparr>ekey := SetLRU l (ekey e)\<rparr>) (ht_map t k))"
  using assms by (simp_all add: set_key_lru_def ht.modify_inv ht.modify_view)

lemma set_key_lru_vmap: "ht_inv h t \<Longrightarrow> vmap (set_key_lru k l t) = vmap t"
  by (auto simp: vmap_def fun_eq_iff set_key_lru_correct option.map_comp comp_def)

lemma set_value_vmap:
  "ht_inv h t \<Longrightarrow> vmap (set_value k v t) = (vmap t)(k := map_option (\<lambda>_. v) (vmap t k))"
  by (auto simp: vmap_def fun_eq_iff set_value_correct option.map_comp comp_def)

lemma Find_vmap: "ht_inv h t \<Longrightarrow> vmap (snd (Find h dv t k)) = vmap t"
  by (simp add: vmap_def fun_eq_iff ht.find_view)

lemma Erase_vmap: "ht_inv h t \<Longrightarrow> vmap (snd (Erase h t k)) = (vmap t)(k := None)"
  by (simp add: vmap_def fun_eq_iff ht.erase_view)

lemma FindOrCreate_vmap:
  "ht_inv h t \<Longrightarrow> ht_room t \<Longrightarrow> vmap (snd (FindOrCreate h dv t k True)) =
     (vmap t)(k \<mapsto> (case vmap t k of None \<Rightarrow> dv | Some v \<Rightarrow> v))"
  by (auto simp: vmap_def fun_eq_iff ht.create_view new_entry_def split: option.splits)

lemma FindOrCreate_result:
  assumes "ht_inv h t" and "ht_room t"
  shows "snd (fst (FindOrCreate h dv t k True)) \<longleftrightarrow> vmap t k \<noteq> None"
  using ht.create_result [OF assms, of dv k] by (auto simp: vmap_def)

lemma Upsert_correct:
  assumes "ht_inv h t" and "ht_room t" and "Upsert h dv t k v = (ex, t')"
  shows "ht_inv h t' \<and> ex = (vmap t k \<noteq> None) \<and> vmap t' = (vmap t)(k \<mapsto> v)"
proof -
  obtain e t1 where fc: "FindOrCreate h dv t k True = ((e, ex), t1)" and t': "t' = set_value k v t1"
    using assms(3) by (auto simp: Upsert_def split: prod.splits)
  have i: "ht_inv h t1" using ht.create_inv [OF assms(1,2), of dv k] fc by simp
  have "vmap t1 = (vmap t)(k \<mapsto> (case vmap t k of None \<Rightarrow> dv | Some v \<Rightarrow> v))"
    using FindOrCreate_vmap [OF assms(1,2), of dv k] fc by simp
  then show ?thesis
    using FindOrCreate_result [OF assms(1,2), of dv k] fc i
    by (simp add: t' set_value_correct set_value_vmap)
qed

lemma Upsert_key_correct:
  assumes "ht_inv h t" and "ht_room t" and "Upsert_key h dv t kp v = (ex, t')"
  shows "ht_inv h t' \<and> ex = (vmap t (key_data kp) \<noteq> None) \<and> vmap t' = (vmap t)(key_data kp \<mapsto> v)"
proof -
  let ?k = "key_data kp"
  obtain e t1 where fc: "FindOrCreate h dv t ?k True = ((e, ex), t1)"
    and t': "t' = set_value ?k v (if ex then t1 else update_entry ?k (\<lambda>e. e\<lparr>ekey := kp\<rparr>) t1)"
    using assms(3) by (auto simp: Upsert_key_def split: prod.splits)
  have i: "ht_inv h t1" using ht.create_inv [OF assms(1,2), of dv ?k] fc by simp
  have m1: "vmap t1 = (vmap t)(?k \<mapsto> (case vmap t ?k of None \<Rightarrow> dv | Some v \<Rightarrow> v))"
    using FindOrCreate_vmap [OF assms(1,2), of dv ?k] fc by simp
  have u: "ht_inv h (update_entry ?k (\<lambda>e. e\<lparr>ekey := kp\<rparr>) t1)"
    "vmap (update_entry ?k (\<lambda>e. e\<lparr>ekey := kp\<rparr>) t1) = vmap t1"
    using i by (auto simp: ht.modify_inv vmap_def fun_eq_iff ht.modify_view option.map_comp comp_def)
  show ?thesis
    using FindOrCreate_result [OF assms(1,2), of dv ?k] fc i m1 u
    by (simp add: t' set_value_correct set_value_vmap)
qed

lemma Insert_correct:
  assumes "ht_inv h t" and "ht_room t" and "Insert h dv t k v = (ins, t')"
  shows "ht_inv h t' \<and> ins = (vmap t k = None) \<and>
    vmap t' = (if vmap t k = None then (vmap t)(k \<mapsto> v) else vmap t)"
proof -
  obtain e ex t1 where fc: "FindOrCreate h dv t k True = ((e, ex), t1)"
    by (metis prod.collapse)
  have t': "t' = (if \<not> ex then set_value k v t1 else t1)" "ins = (\<not> ex)"
    using assms(3) fc by (auto simp: Insert_def)
  have i: "ht_inv h t1" using ht.create_inv [OF assms(1,2), of dv k] fc by simp
  have m1: "vmap t1 = (vmap t)(k \<mapsto> (case vmap t k of None \<Rightarrow> dv | Some v \<Rightarrow> v))"
    using FindOrCreate_vmap [OF assms(1,2), of dv k] fc by simp
  have ex: "ex \<longleftrightarrow> vmap t k \<noteq> None" using FindOrCreate_result [OF assms(1,2), of dv k] fc by simp
  show ?thesis
  proof (cases "vmap t k")
    case None
    then show ?thesis using ex i m1 by (simp add: t' set_value_correct set_value_vmap)
  next
    case (Some w)
    then have "vmap t1 = vmap t" using m1 by (simp add: fun_upd_idem)
    then show ?thesis using Some ex i by (simp add: t')
  qed
qed

end
