(* ===== verification/CharConv.thy ===== *)
theory CharConv
  imports Prelude
begin

text \<open>
  The parts of the C++ standard library that the program uses on characters:
  \<open>std::from_chars\<close> and \<open>std::to_chars\<close> for decimal integers, \<open>std::isspace\<close>, \<open>std::tolower\<close>
  and \<open>std::toupper\<close> in the C locale, and \<open>string_view::find\<close> of CRLF. What is proved is what
  the parser and the replier rest on: printing and then parsing an integer gives it back, the
  length of a printed integer is bounded, and \<open>find_crlf\<close> finds the first CRLF.
\<close>

section \<open>Characters\<close>

abbreviation CR :: char where "CR \<equiv> CHR 0x0D"

abbreviation LF :: char where "LF \<equiv> CHR 0x0A"

definition CRLF :: string where
  "CRLF = [CR, LF]"

definition isspace :: "char \<Rightarrow> bool" where
  "isspace c \<longleftrightarrow> (of_char c :: nat) = 32 \<or> 9 \<le> (of_char c :: nat) \<and> (of_char c :: nat) \<le> 13"

definition tolower :: "char \<Rightarrow> char" where
  "tolower c = (if 65 \<le> (of_char c :: nat) \<and> (of_char c :: nat) \<le> 90 then char_of ((of_char c :: nat) + 32) else c)"

definition toupper :: "char \<Rightarrow> char" where
  "toupper c = (if 97 \<le> (of_char c :: nat) \<and> (of_char c :: nat) \<le> 122 then char_of ((of_char c :: nat) - 32) else c)"

lemma tolower_letters [simp]:
  "tolower (CHR ''A'') = CHR ''a''" "tolower (CHR ''B'') = CHR ''b''" "tolower (CHR ''C'') = CHR ''c''" "tolower (CHR ''D'') = CHR ''d''"
  "tolower (CHR ''E'') = CHR ''e''" "tolower (CHR ''F'') = CHR ''f''" "tolower (CHR ''G'') = CHR ''g''" "tolower (CHR ''H'') = CHR ''h''"
  "tolower (CHR ''I'') = CHR ''i''" "tolower (CHR ''J'') = CHR ''j''" "tolower (CHR ''K'') = CHR ''k''" "tolower (CHR ''L'') = CHR ''l''"
  "tolower (CHR ''M'') = CHR ''m''" "tolower (CHR ''N'') = CHR ''n''" "tolower (CHR ''O'') = CHR ''o''" "tolower (CHR ''P'') = CHR ''p''"
  "tolower (CHR ''Q'') = CHR ''q''" "tolower (CHR ''R'') = CHR ''r''" "tolower (CHR ''S'') = CHR ''s''" "tolower (CHR ''T'') = CHR ''t''"
  "tolower (CHR ''U'') = CHR ''u''" "tolower (CHR ''V'') = CHR ''v''" "tolower (CHR ''W'') = CHR ''w''" "tolower (CHR ''X'') = CHR ''x''"
  "tolower (CHR ''Y'') = CHR ''y''" "tolower (CHR ''Z'') = CHR ''z''"
  by (simp_all add: tolower_def char_of_eq_iff)

lemma toupper_letters [simp]:
  "toupper (CHR ''a'') = CHR ''A''" "toupper (CHR ''b'') = CHR ''B''" "toupper (CHR ''c'') = CHR ''C''" "toupper (CHR ''d'') = CHR ''D''"
  "toupper (CHR ''e'') = CHR ''E''" "toupper (CHR ''f'') = CHR ''F''" "toupper (CHR ''g'') = CHR ''G''" "toupper (CHR ''h'') = CHR ''H''"
  "toupper (CHR ''i'') = CHR ''I''" "toupper (CHR ''j'') = CHR ''J''" "toupper (CHR ''k'') = CHR ''K''" "toupper (CHR ''l'') = CHR ''L''"
  "toupper (CHR ''m'') = CHR ''M''" "toupper (CHR ''n'') = CHR ''N''" "toupper (CHR ''o'') = CHR ''O''" "toupper (CHR ''p'') = CHR ''P''"
  "toupper (CHR ''q'') = CHR ''Q''" "toupper (CHR ''r'') = CHR ''R''" "toupper (CHR ''s'') = CHR ''S''" "toupper (CHR ''t'') = CHR ''T''"
  "toupper (CHR ''u'') = CHR ''U''" "toupper (CHR ''v'') = CHR ''V''" "toupper (CHR ''w'') = CHR ''W''" "toupper (CHR ''x'') = CHR ''X''"
  "toupper (CHR ''y'') = CHR ''Y''" "toupper (CHR ''z'') = CHR ''Z''"
  by (simp_all add: toupper_def char_of_eq_iff)

lemma toupper_capitals [simp]:
  "toupper (CHR ''A'') = CHR ''A''" "toupper (CHR ''B'') = CHR ''B''" "toupper (CHR ''C'') = CHR ''C''" "toupper (CHR ''D'') = CHR ''D''"
  "toupper (CHR ''E'') = CHR ''E''" "toupper (CHR ''F'') = CHR ''F''" "toupper (CHR ''G'') = CHR ''G''" "toupper (CHR ''H'') = CHR ''H''"
  "toupper (CHR ''I'') = CHR ''I''" "toupper (CHR ''J'') = CHR ''J''" "toupper (CHR ''K'') = CHR ''K''" "toupper (CHR ''L'') = CHR ''L''"
  "toupper (CHR ''M'') = CHR ''M''" "toupper (CHR ''N'') = CHR ''N''" "toupper (CHR ''O'') = CHR ''O''" "toupper (CHR ''P'') = CHR ''P''"
  "toupper (CHR ''Q'') = CHR ''Q''" "toupper (CHR ''R'') = CHR ''R''" "toupper (CHR ''S'') = CHR ''S''" "toupper (CHR ''T'') = CHR ''T''"
  "toupper (CHR ''U'') = CHR ''U''" "toupper (CHR ''V'') = CHR ''V''" "toupper (CHR ''W'') = CHR ''W''" "toupper (CHR ''X'') = CHR ''X''"
  "toupper (CHR ''Y'') = CHR ''Y''" "toupper (CHR ''Z'') = CHR ''Z''"
  by (simp_all add: toupper_def)

section \<open>Decimal integers\<close>

definition is_digit :: "char \<Rightarrow> bool" where
  "is_digit c \<longleftrightarrow> 48 \<le> (of_char c :: nat) \<and> (of_char c :: nat) \<le> 57"

definition digit_value :: "char \<Rightarrow> nat" where
  "digit_value c = of_char c - 48"

definition digit_char :: "nat \<Rightarrow> char" where
  "digit_char d = char_of (48 + d)"

definition digits_value :: "string \<Rightarrow> nat" where
  "digits_value ds = foldl (\<lambda>acc c. acc * 10 + digit_value c) 0 ds"

text \<open>The error code of a conversion, \<open>std::errc\<close>.\<close>

datatype errc = NoError | InvalidArgument | OutOfRange

text \<open>
  \<open>from_chars lo hi s\<close> on the characters \<open>s\<close> of the range, for an integer type with values
  \<open>lo\<close> to \<open>hi\<close>: the number of characters before the returned pointer, the error code, and the
  value (only for \<open>NoError\<close>). A minus sign is accepted for signed types only.
\<close>

definition from_chars :: "int \<Rightarrow> int \<Rightarrow> string \<Rightarrow> nat \<times> errc \<times> int" where
  "from_chars lo hi s =
     (let neg = (lo < 0 \<and> s \<noteq> [] \<and> hd s = CHR ''-'');
          body = (if neg then tl s else s);
          ds = takeWhile is_digit body;
          n = int (digits_value ds);
          v = (if neg then - n else n);
          used = (if neg then 1 else 0) + length ds
      in if ds = [] then (0, InvalidArgument, 0)
         else if lo \<le> v \<and> v \<le> hi then (used, NoError, v)
         else (used, OutOfRange, 0))"

fun nat_digits :: "nat \<Rightarrow> string" where
  "nat_digits n = (if n < 10 then [digit_char n] else nat_digits (n div 10) @ [digit_char (n mod 10)])"

declare nat_digits.simps [simp del]

definition to_chars :: "int \<Rightarrow> string" where
  "to_chars v = (if v < 0 then CHR ''-'' # nat_digits (nat (- v)) else nat_digits (nat v))"

lemma of_digit_char: "d < 10 \<Longrightarrow> (of_char (digit_char d) :: nat) = 48 + d"
  by (simp add: digit_char_def)

lemma digit_char_simps [simp]:
  "d < 10 \<Longrightarrow> is_digit (digit_char d)"
  "d < 10 \<Longrightarrow> digit_value (digit_char d) = d"
  by (simp_all add: is_digit_def digit_value_def of_digit_char)

lemma nat_digits_are_digits: "list_all is_digit (nat_digits n)"
  by (induction n rule: nat_digits.induct) (subst nat_digits.simps, simp)

lemma nat_digits_Nil [simp]: "nat_digits n \<noteq> []"
  by (subst nat_digits.simps) simp

lemma digits_value_nat_digits [simp]: "digits_value (nat_digits n) = n"
  by (induction n rule: nat_digits.induct) (subst nat_digits.simps, simp add: digits_value_def)

lemma takeWhile_nat_digits:
  assumes "rest = [] \<or> \<not> is_digit (hd rest)"
  shows "takeWhile is_digit (nat_digits n @ rest) = nat_digits n"
proof -
  have "takeWhile is_digit (nat_digits n @ rest) = nat_digits n @ takeWhile is_digit rest"
    using nat_digits_are_digits by (intro takeWhile_append2) (auto simp: list_all_iff)
  then show ?thesis using assms by (cases rest) auto
qed

lemma hd_nat_digits: "is_digit (hd (nat_digits n @ rest))"
  using nat_digits_are_digits [of n] by (cases "nat_digits n") auto

lemma not_is_digit [simp]: "\<not> is_digit CHR ''-''" "\<not> is_digit CR"
  by (simp_all add: is_digit_def)

lemma from_chars_to_chars:
  assumes "lo \<le> v" and "v \<le> hi" and "rest = [] \<or> \<not> is_digit (hd rest)"
  shows "from_chars lo hi (to_chars v @ rest) = (length (to_chars v), NoError, v)"
proof (cases "v < 0")
  case True
  then show ?thesis
    using assms by (simp add: from_chars_def to_chars_def takeWhile_nat_digits Let_def)
next
  case False
  then have "hd (nat_digits (nat v) @ rest) \<noteq> CHR ''-''"
    using hd_nat_digits [of "nat v" rest] by auto
  then show ?thesis
    using False assms by (simp add: from_chars_def to_chars_def takeWhile_nat_digits Let_def)
qed

lemma length_nat_digits: "n < 10 ^ k \<Longrightarrow> 0 < k \<Longrightarrow> length (nat_digits n) \<le> k"
proof (induction n arbitrary: k rule: nat_digits.induct)
  case (1 n)
  show ?case
  proof (cases "n < 10")
    case True
    then show ?thesis using 1 by (subst nat_digits.simps) simp
  next
    case False
    then obtain j where k: "k = Suc (Suc j)" using 1
      by (metis One_nat_def not0_implies_Suc not_gr_zero power_one_right)
    then have "n div 10 < 10 ^ Suc j" using 1 by (simp add: less_mult_imp_div_less mult.commute)
    then show ?thesis using 1(1) [OF False] False k by (subst nat_digits.simps) simp
  qed
qed

section \<open>Searching for CRLF\<close>

text \<open>\<open>src.find("\r\n", pos)\<close>, with \<open>None\<close> for \<open>npos\<close>.\<close>

fun find_crlf_from :: "string \<Rightarrow> nat option" where
  "find_crlf_from [] = None"
| "find_crlf_from (c # cs) =
     (if c = CR \<and> cs \<noteq> [] \<and> hd cs = LF then Some 0 else map_option Suc (find_crlf_from cs))"

definition find_crlf :: "string \<Rightarrow> nat \<Rightarrow> nat option" where
  "find_crlf s pos = map_option (\<lambda>i. pos + i) (find_crlf_from (drop pos s))"

lemma find_crlf_from_first: "CR \<notin> set xs \<Longrightarrow> find_crlf_from (xs @ CRLF @ rest) = Some (length xs)"
  by (induction xs) (auto simp: CRLF_def)

lemma find_crlf_from_bound: "find_crlf_from s = Some i \<Longrightarrow> Suc i < length s"
  by (induction s arbitrary: i) (auto split: if_splits simp: neq_Nil_conv)

lemma find_crlf_bound: "find_crlf s p = Some i \<Longrightarrow> p \<le> i \<and> Suc i < length s"
  using find_crlf_from_bound by (fastforce simp: find_crlf_def)

lemma find_crlf_from_at: "find_crlf_from s = Some i \<Longrightarrow> s ! i = CR \<and> s ! Suc i = LF"
  by (induction s arbitrary: i) (auto split: if_splits simp: neq_Nil_conv)

lemma find_crlf_at:
  assumes "find_crlf s p = Some i"
  shows "s ! i = CR \<and> s ! Suc i = LF"
proof -
  obtain j where j: "find_crlf_from (drop p s) = Some j" "i = p + j"
    using assms by (auto simp: find_crlf_def)
  then show ?thesis
    using find_crlf_from_at [OF j(1)] find_crlf_from_bound [OF j(1)] by (simp add: nth_drop)
qed

lemma CR_notin_to_chars: "CR \<notin> set (to_chars v)"
proof -
  have "CR \<notin> set (nat_digits n)" for n
    using nat_digits_are_digits [of n] not_is_digit(2) by (metis list_all_iff)
  then show ?thesis by (simp add: to_chars_def)
qed

end
