(* ===== verification/Buffer.thy ===== *)
theory Buffer
  imports CharConv
begin

text \<open>
  The byte buffer of \<open>src/src/base/buffer.h\<close> and \<open>buffer.cc\<close>. Addresses are integers: a buffer
  knows the address of its first byte, a \<open>string_view\<close> is an address and a length, and a resize
  moves the data to a new address, so that a view taken before a resize no longer denotes the
  bytes it denoted. Sizes are natural numbers without the 64-bit bound, which no buffer in memory
  reaches. An operation whose \<open>assert\<close> fails returns \<open>None\<close>.
\<close>

section \<open>State\<close>

type_synonym addr = int

record view =
  vptr :: addr
  vlen :: nat

record buffer =
  virtual_view :: bool
  buf_data :: string
  buf_base :: addr
  read_index :: nat
  write_index :: nat
  bview :: string
  bview_base :: addr

definition Buffer_init :: "nat \<Rightarrow> addr \<Rightarrow> buffer" where
  "Buffer_init capacity a =
     \<lparr>virtual_view = (capacity = 0), buf_data = replicate capacity (CHR 0x00), buf_base = a,
      read_index = 0, write_index = 0, bview = [], bview_base = 0\<rparr>"

section \<open>Operations\<close>

definition IsVirtual :: "buffer \<Rightarrow> bool" where
  "IsVirtual b = virtual_view b"

definition Capacity :: "buffer \<Rightarrow> nat" where
  "Capacity b = length (buf_data b)"

definition kResizeThreshold :: nat where
  "kResizeThreshold = 1024 * 1024"

definition MakeRoomFor :: "nat \<Rightarrow> bool \<Rightarrow> nat" where
  "MakeRoomFor expected_size greedy =
     (if \<not> greedy then expected_size
      else if expected_size < kResizeThreshold then expected_size * 2
      else expected_size + kResizeThreshold)"

text \<open>
  \<open>EnsureAvailable\<close> returns the old start of the data when it resized the buffer and a null
  pointer otherwise. \<open>new_base\<close> is the address that the allocator gives the resized data.
\<close>

definition EnsureAvailable :: "nat \<Rightarrow> bool \<Rightarrow> addr \<Rightarrow> buffer \<Rightarrow> addr option \<times> buffer" where
  "EnsureAvailable n greedy new_base b =
     (let needed_size = n + write_index b
      in if length (buf_data b) \<ge> needed_size then (None, b)
         else (let new_size = MakeRoomFor needed_size greedy
               in (Some (buf_base b),
                   b\<lparr>buf_data := buf_data b @ replicate (new_size - length (buf_data b)) (CHR 0x00),
                     buf_base := new_base\<rparr>)))"

definition Available :: "buffer \<Rightarrow> nat" where
  "Available b = length (buf_data b) - write_index b"

definition Sink :: "buffer \<Rightarrow> view option" where
  "Sink b = (if virtual_view b then None
     else Some \<lparr>vptr = buf_base b + int (write_index b), vlen = Available b\<rparr>)"

definition Produce :: "nat \<Rightarrow> buffer \<Rightarrow> buffer option" where
  "Produce n b = (if virtual_view b \<or> length (buf_data b) < write_index b + n then None
     else Some (b\<lparr>write_index := write_index b + n\<rparr>))"

text \<open>The second overload, for a ring buffer view: the bytes of the view and their address.\<close>

definition Produce_view :: "string \<Rightarrow> addr \<Rightarrow> buffer \<Rightarrow> buffer option" where
  "Produce_view v a b = (if \<not> virtual_view b \<or> bview b \<noteq> [] then None
     else Some (b\<lparr>bview := v, bview_base := a, write_index := length v\<rparr>))"

definition Source :: "buffer \<Rightarrow> view" where
  "Source b =
     (if write_index b = read_index b then \<lparr>vptr = 0, vlen = 0\<rparr>
      else if \<not> virtual_view b
      then \<lparr>vptr = buf_base b + int (read_index b), vlen = write_index b - read_index b\<rparr>
      else \<lparr>vptr = bview_base b + int (read_index b), vlen = length (bview b) - read_index b\<rparr>)"

definition Consume :: "nat \<Rightarrow> buffer \<Rightarrow> buffer option" where
  "Consume n b = (if read_index b + n \<le> write_index b then Some (b\<lparr>read_index := read_index b + n\<rparr>)
     else None)"

definition Reset :: "buffer \<Rightarrow> buffer" where
  "Reset b =
     (let b1 = b\<lparr>read_index := 0, write_index := 0\<rparr>
      in if virtual_view b then b1\<lparr>bview := [], bview_base := 0\<rparr> else b1)"

text \<open>
  The bytes a view denotes in the memory that the buffer gives access to, and a write of bytes
  through the sink, as \<open>recv\<close> and the replier do it.
\<close>

definition mem_start :: "buffer \<Rightarrow> addr" where
  "mem_start b = (if virtual_view b then bview_base b else buf_base b)"

definition mem_bytes :: "buffer \<Rightarrow> string" where
  "mem_bytes b = (if virtual_view b then bview b else buf_data b)"

definition chars :: "buffer \<Rightarrow> view \<Rightarrow> string" where
  "chars b v = take (vlen v) (drop (nat (vptr v - mem_start b)) (mem_bytes b))"

definition view_ok :: "buffer \<Rightarrow> view \<Rightarrow> bool" where
  "view_ok b v \<longleftrightarrow> mem_start b \<le> vptr v \<and> vptr v + int (vlen v) \<le> mem_start b + int (write_index b)"

definition write_at :: "nat \<Rightarrow> string \<Rightarrow> string \<Rightarrow> string" where
  "write_at i s d = take i d @ s @ drop (i + length s) d"

section \<open>Invariant\<close>

definition buffer_inv :: "buffer \<Rightarrow> bool" where
  "buffer_inv b \<longleftrightarrow> read_index b \<le> write_index b \<and>
     (if virtual_view b then write_index b = length (bview b) else write_index b \<le> length (buf_data b))"

lemma buffer_inv_init: "buffer_inv (Buffer_init c a)"
  by (simp add: buffer_inv_def Buffer_init_def)

lemma MakeRoomFor_enough: "n \<le> MakeRoomFor n greedy"
  by (simp add: MakeRoomFor_def)

lemma EnsureAvailable_inv: "buffer_inv b \<Longrightarrow> EnsureAvailable n g a b = (r, b') \<Longrightarrow> buffer_inv b'"
  by (auto simp: EnsureAvailable_def buffer_inv_def Let_def split: if_splits)

lemma EnsureAvailable_room:
  "buffer_inv b \<Longrightarrow> \<not> virtual_view b \<Longrightarrow> EnsureAvailable n g a b = (r, b') \<Longrightarrow> n \<le> Available b'"
  using MakeRoomFor_enough [of "n + write_index b" g]
  by (auto simp: EnsureAvailable_def buffer_inv_def Available_def Let_def split: if_splits)

lemma EnsureAvailable_kept:
  assumes "buffer_inv b" and "EnsureAvailable n g a b = (r, b')"
  shows "read_index b' = read_index b \<and> write_index b' = write_index b \<and>
    virtual_view b' = virtual_view b \<and> bview b' = bview b \<and> bview_base b' = bview_base b \<and>
    (\<not> virtual_view b \<longrightarrow> take (write_index b) (buf_data b') = take (write_index b) (buf_data b))"
  using assms by (auto simp: EnsureAvailable_def buffer_inv_def Let_def split: if_splits)

lemma Consume_inv: "buffer_inv b \<Longrightarrow> Consume n b = Some b' \<Longrightarrow> buffer_inv b'"
  by (auto simp: Consume_def buffer_inv_def split: if_splits)

lemma Produce_inv: "buffer_inv b \<Longrightarrow> Produce n b = Some b' \<Longrightarrow> buffer_inv b'"
  by (auto simp: Produce_def buffer_inv_def split: if_splits)

lemma Produce_view_inv:
  "buffer_inv b \<Longrightarrow> read_index b = 0 \<Longrightarrow> Produce_view v a b = Some b' \<Longrightarrow> buffer_inv b'"
  by (auto simp: Produce_view_def buffer_inv_def split: if_splits)

lemma Reset_inv: "buffer_inv (Reset b)"
  by (simp add: Reset_def buffer_inv_def Let_def)

text \<open>The bytes still to be read.\<close>

definition unread :: "buffer \<Rightarrow> string" where
  "unread b = drop (read_index b) (take (write_index b) (mem_bytes b))"

lemma chars_Source: "buffer_inv b \<Longrightarrow> chars b (Source b) = unread b"
  by (auto simp: chars_def Source_def unread_def mem_start_def mem_bytes_def buffer_inv_def
      drop_take take_all)

lemma length_unread: "buffer_inv b \<Longrightarrow> length (unread b) = write_index b - read_index b"
  by (auto simp: unread_def mem_bytes_def buffer_inv_def split: if_splits)

end
