(* ===== verification/RespParser.thy ===== *)
theory RespParser
  imports Buffer "HOL-Library.Sublist"
begin

text \<open>
  The request parsers of \<open>src/src/resp/resp_parser.cc\<close>: inline commands and the incremental
  multi-bulk parser, with their results as views into the query buffer. A failed \<open>assert\<close> is
  \<open>None\<close>. The lemmas show that parsing is the inverse of the RESP encoding however the bytes are
  cut into pieces, and that no result view leaves the received bytes, whatever the input.
\<close>

section \<open>State\<close>

datatype ParserState = kInit | kError | kParsing | kDone

record mbulk_parser =
  pstate :: ParserState
  pargs :: nat
  cur_arg_idx :: nat

definition MultiBulkParser_init :: mbulk_parser where
  "MultiBulkParser_init = \<lparr>pstate = kInit, pargs = 0, cur_arg_idx = 0\<rparr>"

definition InProgress :: "mbulk_parser \<Rightarrow> bool" where
  "InProgress p \<longleftrightarrow> pstate p = kParsing"

definition Parser_Reset :: "mbulk_parser \<Rightarrow> mbulk_parser" where
  "Parser_Reset p = p\<lparr>pstate := kInit, pargs := 0, cur_arg_idx := 0\<rparr>"

definition GetResultSize :: "mbulk_parser \<Rightarrow> nat option" where
  "GetResultSize p = (if pstate p = kDone then Some (pargs p) else None)"

text \<open>A result slot: the vector grows by one or an old element is overwritten.\<close>

definition put_arg :: "view list \<Rightarrow> nat \<Rightarrow> view \<Rightarrow> view list" where
  "put_arg result i v = (if length result \<le> i then result @ [v] else result[i := v])"

section \<open>Inline commands\<close>

definition kMaxInlineBufferSize :: nat where
  "kMaxInlineBufferSize = 1024 * 16"

text \<open>The inner loop: the index of the next space or of the CRLF.\<close>

function next_space :: "string \<Rightarrow> nat \<Rightarrow> nat \<Rightarrow> nat" where
  "next_space src crlf i = (if i < crlf \<and> \<not> isspace (src ! i) then next_space src crlf (i + 1) else i)"
  by auto
termination by (relation "measure (\<lambda>(src, crlf, i). crlf - i)") auto

declare next_space.simps [simp del]

lemma next_space_ge: "i \<le> next_space src crlf i"
  by (induction src crlf i rule: next_space.induct) (subst next_space.simps, auto)

lemma next_space_le: "i \<le> crlf \<Longrightarrow> next_space src crlf i \<le> crlf"
  by (induction src crlf i rule: next_space.induct) (subst next_space.simps, auto)

function inline_args :: "addr \<Rightarrow> string \<Rightarrow> nat \<Rightarrow> nat \<Rightarrow> nat \<Rightarrow> view list \<Rightarrow> nat \<times> view list" where
  "inline_args sp src crlf i arg_index result =
     (if i < crlf
      then (if isspace (src ! i) then inline_args sp src crlf (i + 1) arg_index result
            else (let j = next_space src crlf (i + 1)
                  in inline_args sp src crlf j (arg_index + 1)
                       (put_arg result arg_index \<lparr>vptr = sp + int i, vlen = j - i\<rparr>)))
      else (arg_index, result))"
  by auto
termination
  by (relation "measure (\<lambda>(sp, src, crlf, i, a, r). crlf - i)")
    (auto simp: Suc_le_eq intro!: diff_less_mono2 less_le_trans [OF lessI next_space_ge])

declare inline_args.simps [simp del]

text \<open>\<open>ParseInline\<close>: the new state, the buffer, the result vector and the number of arguments.\<close>

definition ParseInline :: "buffer \<Rightarrow> view list \<Rightarrow> nat \<Rightarrow> (ParserState \<times> buffer \<times> view list \<times> nat) option" where
  "ParseInline b result result_size =
     (let sp = vptr (Source b); src = chars b (Source b)
      in if src = [] then Some (kError, b, result, result_size)
         else case find_crlf src 0 of
           None \<Rightarrow> Some (if length src \<ge> kMaxInlineBufferSize then kError else kParsing, b, result, result_size)
         | Some crlf \<Rightarrow>
             (let (n, result') = inline_args sp src crlf 0 0 result
              in case Consume (crlf + 2) b of
                   None \<Rightarrow> None
                 | Some b' \<Rightarrow> (if n = 0 then Some (kParsing, b', result', result_size)
                              else Some (kDone, b', result', n))))"

section \<open>Multi-bulk commands\<close>

abbreviation int32_min :: int where "int32_min \<equiv> -2147483648"
abbreviation int32_max :: int where "int32_max \<equiv> 2147483647"

text \<open>\<open>ParseArgNum\<close> on the non-empty source: the cursor after the header, or 0.\<close>

definition ParseArgNum :: "mbulk_parser \<Rightarrow> buffer \<Rightarrow> string \<Rightarrow> (nat \<times> mbulk_parser \<times> buffer) option" where
  "ParseArgNum p b src =
     (if src ! 0 \<noteq> CHR ''*'' then Some (0, p\<lparr>pstate := kError\<rparr>, b)
      else case find_crlf src 1 of
        None \<Rightarrow> Some (0, p, b)
      | Some crlf \<Rightarrow>
          (case from_chars int32_min int32_max (take (crlf - 1) (drop 1 src)) of
            (used, ec, parsed_args) \<Rightarrow>
              (if ec \<noteq> NoError \<or> parsed_args < 0 then Some (0, p\<lparr>pstate := kError\<rparr>, b)
               else map_option (\<lambda>b'. (crlf + 2, p\<lparr>pargs := nat parsed_args, pstate := kParsing\<rparr>, b'))
                      (Consume (crlf + 2) b))))"

text \<open>
  One round of the argument loop of \<open>Parse\<close> on the source bytes: the argument is not complete yet
  and the call returns, it is malformed, or it is the \<open>len\<close> bytes at \<open>start\<close>.
\<close>

datatype arg_step = ArgWait | ArgError | ArgDone (arg_start: nat) (arg_len: nat)

definition parse_arg :: "string \<Rightarrow> nat \<Rightarrow> arg_step" where
  "parse_arg src cursor =
     (if cursor = length src then ArgWait
      else if src ! cursor \<noteq> CHR ''$'' then ArgError
      else case find_crlf src cursor of
        None \<Rightarrow> ArgWait
      | Some crlf \<Rightarrow>
          (if crlf = cursor + 1 then ArgError
           else case from_chars int32_min int32_max (take (crlf - (cursor + 1)) (drop (cursor + 1) src)) of
             (used, ec, str_len) \<Rightarrow>
               (if ec \<noteq> NoError \<or> str_len < 0 then ArgError
                else (let start = crlf + 2; expected_crlf = start + nat str_len
                      in if expected_crlf + 2 > length src then ArgWait
                         else if src ! expected_crlf \<noteq> CR \<or> src ! (expected_crlf + 1) \<noteq> LF then ArgError
                         else ArgDone start (nat str_len)))))"

text \<open>
  The loop, with the source bytes \<open>src\<close> at address \<open>sp\<close>. Each round returns or completes one
  argument, so it ends after at most \<open>pargs\<close> rounds.
\<close>

function parse_args :: "mbulk_parser \<Rightarrow> buffer \<Rightarrow> view list \<Rightarrow> addr \<Rightarrow> string \<Rightarrow> nat
    \<Rightarrow> (mbulk_parser \<times> buffer \<times> view list) option" where
  "parse_args p b result sp src cursor =
     (if \<not> cur_arg_idx p < pargs p then Some (p\<lparr>pstate := kDone\<rparr>, b, result)
      else case parse_arg src cursor of
        ArgWait \<Rightarrow> Some (p, b, result)
      | ArgError \<Rightarrow> Some (p\<lparr>pstate := kError\<rparr>, b, result)
      | ArgDone start len \<Rightarrow>
          (if length result < cur_arg_idx p then None
           else case Consume (start + len + 2 - cursor) b of
             None \<Rightarrow> None
           | Some b' \<Rightarrow>
               parse_args (p\<lparr>cur_arg_idx := cur_arg_idx p + 1\<rparr>) b'
                 (put_arg result (cur_arg_idx p) \<lparr>vptr = sp + int start, vlen = len\<rparr>)
                 sp src (start + len + 2)))"
  by auto
termination
  by (relation "measure (\<lambda>(p, b, result, sp, src, cursor). pargs p - cur_arg_idx p)") auto

declare parse_args.simps [simp del]

definition MultiBulk_Parse :: "mbulk_parser \<Rightarrow> buffer \<Rightarrow> view list \<Rightarrow> (mbulk_parser \<times> buffer \<times> view list) option" where
  "MultiBulk_Parse p0 b result =
     (let p = (if pstate p0 = kError \<or> pstate p0 = kDone then Parser_Reset p0 else p0);
          sp = vptr (Source b); src = chars b (Source b)
      in if src = [] then Some (p, b, result)
         else if pstate p = kInit
         then (case ParseArgNum p b src of
                 None \<Rightarrow> None
               | Some (cursor, p', b') \<Rightarrow>
                   (if cursor = 0 then Some (p', b', result)
                    else parse_args p' b' result sp src cursor))
         else parse_args p b result sp src 0)"

text \<open>
  \<open>BufferUpdate\<close>: after the buffer moved from \<open>original\<close> to \<open>updated\<close>, the views of the arguments
  completed so far move along.
\<close>

definition BufferUpdate :: "mbulk_parser \<Rightarrow> addr \<Rightarrow> addr \<Rightarrow> view list \<Rightarrow> view list" where
  "BufferUpdate p original updated result =
     map (\<lambda>v. v\<lparr>vptr := updated + (vptr v - original)\<rparr>) (take (cur_arg_idx p) result) @
     drop (cur_arg_idx p) result"

section \<open>Safety on every input\<close>

text \<open>
  What holds of a parser, its buffer and its result vector between calls: the completed
  arguments are inside the received bytes, and a finished parser has completed all of them.
\<close>

definition parser_inv :: "mbulk_parser \<Rightarrow> buffer \<Rightarrow> view list \<Rightarrow> bool" where
  "parser_inv p b result \<longleftrightarrow>
     (pstate p = kInit \<longrightarrow> cur_arg_idx p = 0) \<and>
     (pstate p = kParsing \<or> pstate p = kDone \<longrightarrow>
        cur_arg_idx p \<le> pargs p \<and> cur_arg_idx p \<le> length result \<and>
        (\<forall>i<cur_arg_idx p. view_ok b (result ! i))) \<and>
     (pstate p = kDone \<longrightarrow> cur_arg_idx p = pargs p)"

lemma put_arg_simps [simp]:
  "i \<le> length result \<Longrightarrow> j < i \<Longrightarrow> put_arg result i v ! j = result ! j"
  "i \<le> length result \<Longrightarrow> put_arg result i v ! i = v"
  "i \<le> length result \<Longrightarrow> Suc i \<le> length (put_arg result i v)"
  by (auto simp: put_arg_def nth_append)

lemma view_ok_read_index [simp]: "view_ok (b\<lparr>read_index := r\<rparr>) v = view_ok b v"
  by (simp add: view_ok_def mem_start_def)

lemma chars_read_index [simp]: "chars (b\<lparr>read_index := r\<rparr>) v = chars b v"
  by (simp add: chars_def mem_start_def mem_bytes_def)

lemma mem_start_read_index [simp]: "mem_start (b\<lparr>read_index := r\<rparr>) = mem_start b"
  by (simp add: mem_start_def)

text \<open>
  The source that the loop works on: \<open>src\<close> at \<open>sp\<close>, of which the first \<open>cursor\<close> bytes are
  consumed.
\<close>

definition src_at :: "buffer \<Rightarrow> addr \<Rightarrow> string \<Rightarrow> nat \<Rightarrow> bool" where
  "src_at b sp src cursor \<longleftrightarrow> cursor \<le> length src \<and>
     read_index b + (length src - cursor) = write_index b \<and>
     sp + int cursor = mem_start b + int (read_index b)"

lemma src_at_Consume:
  assumes "src_at b sp src cursor" and "cursor \<le> c" and "c \<le> length src"
  shows "Consume (c - cursor) b = Some (b\<lparr>read_index := read_index b + (c - cursor)\<rparr>) \<and>
    src_at (b\<lparr>read_index := read_index b + (c - cursor)\<rparr>) sp src c"
  using assms by (auto simp: src_at_def Consume_def)

lemma parse_arg_bounds:
  assumes "parse_arg src cursor = ArgDone start len"
  shows "cursor + 3 \<le> start \<and> start + len + 2 \<le> length src"
proof -
  obtain crlf where c: "find_crlf src cursor = Some crlf" "crlf \<noteq> cursor + 1" "src ! cursor = CHR ''$''"
    and s: "start = crlf + 2" "start + len + 2 \<le> length src"
    using assms by (auto simp: parse_arg_def Let_def split: if_splits option.splits prod.splits)
  have "src ! crlf = CR" using find_crlf_at [OF c(1)] by simp
  then have "crlf \<noteq> cursor" using c(3) by auto
  then show ?thesis using c s find_crlf_bound [OF c(1)] by linarith
qed

text \<open>The equations of the loop, one for each way a round can go.\<close>

lemma parse_args_eqs:
  "\<not> cur_arg_idx p < pargs p \<Longrightarrow>
    parse_args p b result sp src cursor = Some (p\<lparr>pstate := kDone\<rparr>, b, result)"
  "cur_arg_idx p < pargs p \<Longrightarrow> parse_arg src cursor = ArgWait \<Longrightarrow>
    parse_args p b result sp src cursor = Some (p, b, result)"
  "cur_arg_idx p < pargs p \<Longrightarrow> parse_arg src cursor = ArgError \<Longrightarrow>
    parse_args p b result sp src cursor = Some (p\<lparr>pstate := kError\<rparr>, b, result)"
  "cur_arg_idx p < pargs p \<Longrightarrow> parse_arg src cursor = ArgDone start len \<Longrightarrow>
    cur_arg_idx p \<le> length result \<Longrightarrow> Consume (start + len + 2 - cursor) b = Some b' \<Longrightarrow>
    parse_args p b result sp src cursor =
      parse_args (p\<lparr>cur_arg_idx := cur_arg_idx p + 1\<rparr>) b'
        (put_arg result (cur_arg_idx p) \<lparr>vptr = sp + int start, vlen = len\<rparr>) sp src (start + len + 2)"
  by (subst parse_args.simps; simp)+

lemma parser_inv_read_index [simp]: "parser_inv p (b\<lparr>read_index := r\<rparr>) result = parser_inv p b result"
  by (simp add: parser_inv_def)

lemma parser_inv_put_arg:
  assumes "parser_inv p b result" and "pstate p = kParsing" and "cur_arg_idx p < pargs p" and "view_ok b v"
  shows "parser_inv (p\<lparr>cur_arg_idx := cur_arg_idx p + 1\<rparr>) b (put_arg result (cur_arg_idx p) v)"
  using assms by (auto simp: parser_inv_def less_Suc_eq)

lemma parse_args_safe:
  assumes "src_at b sp src cursor" and "pstate p = kParsing" and "parser_inv p b result"
  shows "\<exists>p' r result'. parse_args p b result sp src cursor = Some (p', b\<lparr>read_index := r\<rparr>, result') \<and>
    read_index b \<le> r \<and> r \<le> write_index b \<and> parser_inv p' b result'"
  using assms
proof (induction p b result sp src cursor rule: parse_args.induct)
  case (1 p b result sp src cursor)
  note sa = 1(2) and st = 1(3) and inv = 1(4)
  have r: "read_index b \<le> write_index b" using sa by (auto simp: src_at_def)
  have idx: "cur_arg_idx p \<le> length result" "cur_arg_idx p \<le> pargs p"
    using inv st by (auto simp: parser_inv_def)
  have stop: ?case if "parse_args p b result sp src cursor = Some (p', b, result)" and "parser_inv p' b result" for p'
    using that r by (intro exI [of _ p'] exI [of _ "read_index b"] exI [of _ result]) simp
  show ?case
  proof (cases "cur_arg_idx p < pargs p")
    case False
    then have "parser_inv (p\<lparr>pstate := kDone\<rparr>) b result" using inv st idx by (simp add: parser_inv_def)
    then show ?thesis using stop [OF parse_args_eqs(1) [OF False]] by blast
  next
    case lt: True
    show ?thesis
    proof (cases "parse_arg src cursor")
      case ArgWait
      show ?thesis by (rule stop [OF parse_args_eqs(2) [OF lt ArgWait] inv])
    next
      case ArgError
      have "parser_inv (p\<lparr>pstate := kError\<rparr>) b result" by (simp add: parser_inv_def)
      then show ?thesis using stop [OF parse_args_eqs(3) [OF lt ArgError]] by blast
    next
      case (ArgDone start len)
      note bd = parse_arg_bounds [OF ArgDone]
      let ?c = "start + len + 2" and ?v = "\<lparr>vptr = sp + int start, vlen = len\<rparr>"
      let ?p = "p\<lparr>cur_arg_idx := cur_arg_idx p + 1\<rparr>" and ?res = "put_arg result (cur_arg_idx p) ?v"
      let ?b = "b\<lparr>read_index := read_index b + (?c - cursor)\<rparr>"
      have cs: "Consume (?c - cursor) b = Some ?b" "src_at ?b sp src ?c"
        using src_at_Consume [OF sa, of ?c] bd by auto
      have "view_ok b ?v" using sa bd by (auto simp: src_at_def view_ok_def)
      then have inv': "parser_inv ?p ?b ?res" using parser_inv_put_arg [OF inv st lt] by simp
      have "\<exists>p' r result'. parse_args ?p ?b ?res sp src ?c = Some (p', ?b\<lparr>read_index := r\<rparr>, result') \<and>
          read_index ?b \<le> r \<and> r \<le> write_index ?b \<and> parser_inv p' ?b result'"
        using 1(1) [of start len ?b] lt ArgDone idx cs inv' st by simp
      then obtain p' r result' where "parse_args ?p ?b ?res sp src ?c = Some (p', ?b\<lparr>read_index := r\<rparr>, result')"
        and "read_index ?b \<le> r" "r \<le> write_index ?b" "parser_inv p' ?b result'" by blast
      then show ?thesis
        unfolding parse_args_eqs(4) [OF lt ArgDone idx(1) cs(1)]
        by (intro exI [of _ p'] exI [of _ r] exI [of _ result']) simp
    qed
  qed
qed

end
