(* ===== verification/RespCodec.thy ===== *)
theory RespCodec
  imports RespParser
begin

text \<open>
  The RESP encoding of a command and what the multi-bulk parser makes of it. The parser is the
  inverse of the encoding for every way to cut the bytes into pieces: it never reports a
  command before its last byte and then reports exactly the encoded arguments.
\<close>

section \<open>Encoding\<close>

definition bulk :: "string \<Rightarrow> string" where
  "bulk s = CHR ''$'' # to_chars (int (length s)) @ CRLF @ s @ CRLF"

definition bulks :: "string list \<Rightarrow> string" where
  "bulks ss = concat (map bulk ss)"

definition mbulk_header :: "nat \<Rightarrow> string" where
  "mbulk_header n = CHR ''*'' # to_chars (int n) @ CRLF"

definition multibulk :: "string list \<Rightarrow> string" where
  "multibulk ss = mbulk_header (length ss) @ bulks ss"

text \<open>The lengths that the 32-bit length fields can hold.\<close>

definition encodable :: "string list \<Rightarrow> bool" where
  "encodable ss \<longleftrightarrow> int (length ss) \<le> int32_max \<and> (\<forall>s\<in>set ss. int (length s) \<le> int32_max)"

lemma bulks_simps [simp]: "bulks [] = []" "bulks (s # ss) = bulk s @ bulks ss"
  by (simp_all add: bulks_def)

section \<open>One argument\<close>

lemma find_crlf_after:
  "CR \<notin> set xs \<Longrightarrow> c \<noteq> CR \<Longrightarrow> find_crlf (c # xs @ CRLF @ rest) 0 = Some (Suc (length xs))"
  using find_crlf_from_first [of "c # xs" rest] by (simp add: find_crlf_def)

lemma find_crlf_from_none: "CR \<notin> set (butlast xs) \<Longrightarrow> find_crlf_from xs = None"
  by (induction xs) (auto split: if_splits)

lemma from_chars_line:
  "int n \<le> int32_max \<Longrightarrow> from_chars int32_min int32_max (to_chars (int n)) = (length (to_chars (int n)), NoError, int n)"
  using from_chars_to_chars [of int32_min "int n" int32_max "[]"] by simp

lemma to_chars_Nil [simp]: "to_chars v \<noteq> []"
  by (simp add: to_chars_def)

lemma parse_arg_line:
  assumes "int n \<le> int32_max"
  shows "parse_arg (CHR ''$'' # to_chars (int n) @ CRLF @ u) 0 =
    (if length u < n + 2 then ArgWait
     else if u ! n \<noteq> CR \<or> u ! (n + 1) \<noteq> LF then ArgError
     else ArgDone (length (to_chars (int n)) + 3) n)"
proof -
  let ?d = "to_chars (int n)" and ?src = "CHR ''$'' # to_chars (int n) @ CRLF @ u"
  have f: "find_crlf ?src 0 = Some (Suc (length ?d))"
    by (rule find_crlf_after) (simp_all add: CR_notin_to_chars)
  have len: "length ?src = length ?d + 3 + length u" by (simp add: CRLF_def)
  have nth: "?src ! (length ?d + 3 + i) = u ! i" for i
    by (simp add: CRLF_def nth_append numeral_3_eq_3)
  have e: "Suc (length ?d) + 2 + nat (int n) = length ?d + 3 + n" by simp
  show ?thesis
    using nth [of n] nth [of "n + 1"] len
    by (simp add: parse_arg_def f from_chars_line [OF assms] Let_def)
      (simp add: CRLF_def nth_append numeral_3_eq_3)
qed

lemma parse_arg_bulk:
  assumes "int (length s) \<le> int32_max"
  shows "parse_arg (bulk s @ tl_bytes) 0 = ArgDone (length (to_chars (int (length s))) + 3) (length s)"
  using parse_arg_line [OF assms, of "s @ CRLF @ tl_bytes"]
  by (simp add: bulk_def) (simp add: CRLF_def nth_append)

lemma length_bulk: "length (bulk s) = length (to_chars (int (length s))) + 3 + length s + 2"
  by (simp add: bulk_def CRLF_def)

lemma strict_prefix_append:
  assumes "strict_prefix t (xs @ ys)"
  obtains "strict_prefix t xs" | u where "t = xs @ u" "strict_prefix u ys"
  using assms by (metis append_eq_append_conv2 prefix_append prefix_order.le_less same_prefix_prefix strict_prefix_def)

lemma short_line:
  assumes "strict_prefix t (to_chars v @ CRLF)"
  shows "CR \<notin> set (butlast t)"
proof -
  have "prefix t (to_chars v @ [CR])"
    using assms by (metis CRLF_def append.assoc append_Cons append_Nil prefix_snoc strict_prefix_def)
  then have "prefix (butlast t) (to_chars v)"
    by (metis butlast_snoc prefix_snoc prefixeq_butlast prefix_order.trans)
  then show ?thesis using CR_notin_to_chars by (auto dest!: set_mono_prefix)
qed

lemma parse_arg_wait:
  assumes "int (length s) \<le> int32_max" and "strict_prefix t (bulk s)"
  shows "parse_arg t 0 = ArgWait"
proof (cases t)
  case Nil
  then show ?thesis by (simp add: parse_arg_def)
next
  case (Cons c t')
  let ?d = "to_chars (int (length s))"
  have c: "c = CHR ''$''" and t': "strict_prefix t' ((?d @ CRLF) @ s @ CRLF)"
    using assms(2) Cons by (auto simp: bulk_def)
  from t' show ?thesis
  proof (rule strict_prefix_append)
    assume "strict_prefix t' (?d @ CRLF)"
    then have "CR \<notin> set (butlast t)" using short_line Cons c by auto
    then show ?thesis
      using Cons c find_crlf_from_none [of t] by (simp add: parse_arg_def find_crlf_def del: find_crlf_from.simps)
  next
    fix u assume "t' = (?d @ CRLF) @ u" and u: "strict_prefix u (s @ CRLF)"
    moreover have "length u < length s + 2"
      using prefix_length_less [OF u] by (simp add: CRLF_def)
    ultimately show ?thesis
      using parse_arg_line [OF assms(1), of u] Cons c by simp
  qed
qed

text \<open>A round at a later cursor is the round on the bytes from there.\<close>

fun shift_step :: "nat \<Rightarrow> arg_step \<Rightarrow> arg_step" where
  "shift_step k (ArgDone start len) = ArgDone (k + start) len"
| "shift_step k r = r"

lemma find_crlf_shift: "find_crlf s k = map_option (\<lambda>i. k + i) (find_crlf (drop k s) 0)"
  by (simp add: find_crlf_def option.map_comp o_def)

lemma parse_arg_shift:
  assumes "k \<le> length src"
  shows "parse_arg src k = shift_step k (parse_arg (drop k src) 0)"
proof (cases "find_crlf (drop k src) 0")
  case None
  then show ?thesis
    using assms by (auto simp: parse_arg_def find_crlf_shift [of src k])
next
  case (Some i)
  then have i: "Suc i < length (drop k src)" using find_crlf_bound by blast
  have t: "take (k + i - (k + 1)) (drop (k + 1) src) = take (i - 1) (drop 1 (drop k src))"
    by (simp add: add.commute)
  show ?thesis
    using assms i Some t
    by (auto simp: parse_arg_def find_crlf_shift [of src k] Let_def add.assoc split: prod.splits)
qed

section \<open>The argument loop\<close>

text \<open>The arguments completed so far are the first ones of \<open>args\<close>.\<close>

definition decoded :: "string list \<Rightarrow> mbulk_parser \<Rightarrow> buffer \<Rightarrow> view list \<Rightarrow> bool" where
  "decoded args p b result \<longleftrightarrow> pargs p = length args \<and> cur_arg_idx p \<le> length args \<and>
     cur_arg_idx p \<le> length result \<and>
     (\<forall>i<cur_arg_idx p. view_ok b (result ! i) \<and> chars b (result ! i) = args ! i)"

lemma decoded_read_index [simp]: "decoded args p (b\<lparr>read_index := r\<rparr>) result = decoded args p b result"
  by (simp add: decoded_def)

lemma decoded_pstate [simp]: "decoded args (p\<lparr>pstate := st\<rparr>) b result = decoded args p b result"
  by (simp add: decoded_def)

lemma decoded_put_arg:
  assumes "decoded args p b result" and "cur_arg_idx p < pargs p" and "view_ok b v"
    and "chars b v = args ! cur_arg_idx p"
  shows "decoded args (p\<lparr>cur_arg_idx := cur_arg_idx p + 1\<rparr>) b (put_arg result (cur_arg_idx p) v)"
  using assms by (auto simp: decoded_def less_Suc_eq)

definition src_is :: "buffer \<Rightarrow> addr \<Rightarrow> string \<Rightarrow> bool" where
  "src_is b sp src \<longleftrightarrow> mem_start b \<le> sp \<and> chars b \<lparr>vptr = sp, vlen = length src\<rparr> = src"

lemma src_is_read_index [simp]: "src_is (b\<lparr>read_index := r\<rparr>) sp src = src_is b sp src"
  by (simp add: src_is_def)

lemma chars_sub:
  assumes "src_is b sp src" and "start + len \<le> length src"
  shows "chars b \<lparr>vptr = sp + int start, vlen = len\<rparr> = take len (drop start src)"
proof -
  let ?o = "nat (sp - mem_start b)"
  have src: "src = take (length src) (drop ?o (mem_bytes b))"
    using assms(1) by (simp add: src_is_def chars_def)
  have "nat (sp + int start - mem_start b) = start + ?o"
    using assms(1) unfolding src_is_def by arith
  then have "chars b \<lparr>vptr = sp + int start, vlen = len\<rparr> = take len (drop start (drop ?o (mem_bytes b)))"
    by (simp add: chars_def)
  also have "\<dots> = take len (drop start (take (length src) (drop ?o (mem_bytes b))))"
    using assms(2) by (simp add: drop_take min_def)
  finally show ?thesis using src by simp
qed

lemma drop_bulk: "take (length s) (drop (length (to_chars (int (length s))) + 3) (bulk s @ u)) = s"
  by (simp add: bulk_def CRLF_def numeral_3_eq_3)

lemma prefix_append_cases:
  "prefix t (xs @ ys) \<Longrightarrow> strict_prefix t xs \<or> (\<exists>u. t = xs @ u \<and> prefix u ys)"
  by (auto simp: prefix_append strict_prefix_def)

text \<open>One complete argument at the cursor.\<close>

lemma decode_one:
  assumes "src_at b sp src cursor" and "src_is b sp src" and "drop cursor src = bulk s @ u"
    and "int (length s) \<le> int32_max"
  obtains start where "parse_arg src cursor = ArgDone start (length s)"
    and "Consume (start + length s + 2 - cursor) b = Some (b\<lparr>read_index := read_index b + length (bulk s)\<rparr>)"
    and "src_at (b\<lparr>read_index := read_index b + length (bulk s)\<rparr>) sp src (start + length s + 2)"
    and "view_ok b \<lparr>vptr = sp + int start, vlen = length s\<rparr>"
    and "chars b \<lparr>vptr = sp + int start, vlen = length s\<rparr> = s"
    and "drop (start + length s + 2) src = u"
proof -
  define hl where "hl = length (to_chars (int (length s))) + 3"
  define start where "start = cursor + hl"
  have cl: "cursor \<le> length src" using assms(1) by (simp add: src_at_def)
  have d: "parse_arg src cursor = ArgDone start (length s)"
    using parse_arg_shift [OF cl] parse_arg_bulk [OF assms(4), of u] assms(3)
    by (simp add: start_def hl_def)
  have c: "start + length s + 2 = cursor + length (bulk s)"
    by (simp add: length_bulk start_def hl_def)
  have cb: "start + length s + 2 \<le> length src" using parse_arg_bounds [OF d] by simp
  have v: "view_ok b \<lparr>vptr = sp + int start, vlen = length s\<rparr>"
    using assms(1) cb cl unfolding src_at_def view_ok_def start_def by (simp, linarith)
  have dr: "drop (cursor + n) src = drop n (drop cursor src)" for n by (metis add.commute drop_drop)
  have "chars b \<lparr>vptr = sp + int start, vlen = length s\<rparr> = take (length s) (drop hl (drop cursor src))"
    using chars_sub [OF assms(2), of start "length s"] cb dr [of hl] by (simp add: start_def)
  then have cv: "chars b \<lparr>vptr = sp + int start, vlen = length s\<rparr> = s"
    using drop_bulk [of s u] assms(3) by (simp add: hl_def)
  have "cursor + length (bulk s) \<le> length src" using cb c by simp
  from src_at_Consume [OF assms(1) le_add1 this] show thesis
    using that [of start] d v cv dr [of "length (bulk s)"] assms(3) unfolding c by simp
qed

lemma parse_args_decodes:
  assumes "src_at b sp src cursor" and "src_is b sp src" and "pstate p = kParsing"
    and "decoded args p b result" and "encodable args"
    and "prefix (drop cursor src) (bulks (drop (cur_arg_idx p) args) @ tl_bytes)"
  shows "\<exists>p' k result'. parse_args p b result sp src cursor =
      Some (p', b\<lparr>read_index := read_index b + k\<rparr>, result') \<and> k \<le> length (drop cursor src) \<and>
    decoded args p' b result' \<and>
    bulks (drop (cur_arg_idx p) args) = take k (drop cursor src) @ bulks (drop (cur_arg_idx p') args) \<and>
    (if length (bulks (drop (cur_arg_idx p) args)) \<le> length (drop cursor src)
     then pstate p' = kDone \<and> cur_arg_idx p' = length args else pstate p' = kParsing)"
  using assms
proof (induction p b result sp src cursor rule: parse_args.induct)
  case (1 p b result sp src cursor)
  note sa = 1(2) and si = 1(3) and st = 1(4) and dec = 1(5) and enc = 1(6) and pre = 1(7)
  let ?t = "drop cursor src"
  have idx: "cur_arg_idx p \<le> length result" "pargs p = length args" using dec by (auto simp: decoded_def)
  have cl: "cursor \<le> length src" using sa by (simp add: src_at_def)
  show ?case
  proof (cases "cur_arg_idx p < pargs p")
    case False
    then have "cur_arg_idx p = length args" using dec by (simp add: decoded_def)
    then show ?thesis using dec parse_args_eqs(1) [OF False, of b result sp src cursor]
      by (intro exI [of _ "p\<lparr>pstate := kDone\<rparr>"] exI [of _ 0] exI [of _ result]) simp
  next
    case lt: True
    let ?s = "args ! cur_arg_idx p"
    have rest: "drop (cur_arg_idx p) args = ?s # drop (Suc (cur_arg_idx p)) args"
      using lt idx by (simp add: Cons_nth_drop_Suc)
    have sl: "int (length ?s) \<le> int32_max" using enc lt idx by (simp add: encodable_def)
    from pre have "prefix ?t (bulk ?s @ bulks (drop (Suc (cur_arg_idx p)) args) @ tl_bytes)"
      by (simp add: rest)
    then consider (wait) "strict_prefix ?t (bulk ?s)"
      | (arg) u where "?t = bulk ?s @ u" "prefix u (bulks (drop (Suc (cur_arg_idx p)) args) @ tl_bytes)"
      using prefix_append_cases by blast
    then show ?thesis
    proof cases
      case wait
      have w: "parse_arg src cursor = ArgWait"
        using parse_arg_shift [OF cl] parse_arg_wait [OF sl wait] by simp
      have "length ?t < length (bulk ?s)" by (rule prefix_length_less [OF wait])
      then have "\<not> length (bulks (drop (cur_arg_idx p) args)) \<le> length ?t" by (simp add: rest)
      then show ?thesis using parse_args_eqs(2) [OF lt w, of b result sp] dec st
        by (intro exI [of _ p] exI [of _ 0] exI [of _ result]) simp
    next
      case arg
      obtain start where d: "parse_arg src cursor = ArgDone start (length ?s)"
        and cs: "Consume (start + length ?s + 2 - cursor) b = Some (b\<lparr>read_index := read_index b + length (bulk ?s)\<rparr>)"
          "src_at (b\<lparr>read_index := read_index b + length (bulk ?s)\<rparr>) sp src (start + length ?s + 2)"
        and v: "view_ok b \<lparr>vptr = sp + int start, vlen = length ?s\<rparr>"
        and cv: "chars b \<lparr>vptr = sp + int start, vlen = length ?s\<rparr> = ?s"
        and tu: "drop (start + length ?s + 2) src = u"
        by (rule decode_one [OF sa si arg(1) sl])
      let ?c = "start + length ?s + 2" and ?v = "\<lparr>vptr = sp + int start, vlen = length ?s\<rparr>"
      let ?p = "p\<lparr>cur_arg_idx := cur_arg_idx p + 1\<rparr>" and ?res = "put_arg result (cur_arg_idx p) ?v"
      let ?b = "b\<lparr>read_index := read_index b + length (bulk ?s)\<rparr>"
      have dec': "decoded args ?p ?b ?res"
        unfolding decoded_read_index by (rule decoded_put_arg [OF dec lt v cv])
      have nn: "\<not> \<not> cur_arg_idx p < pargs p" and nl: "\<not> length result < cur_arg_idx p"
        using lt idx by simp_all
      have si': "src_is ?b sp src" and st': "pstate ?p = kParsing" using si st by simp_all
      have pre': "prefix (drop ?c src) (bulks (drop (cur_arg_idx ?p) args) @ tl_bytes)"
        using arg(2) tu by simp
      obtain p' k result' where
        r: "parse_args ?p ?b ?res sp src ?c = Some (p', ?b\<lparr>read_index := read_index ?b + k\<rparr>, result')"
        and k: "k \<le> length (drop ?c src)" and dd: "decoded args p' ?b result'"
        and bb: "bulks (drop (cur_arg_idx ?p) args) = take k (drop ?c src) @ bulks (drop (cur_arg_idx p') args)"
        and fin: "if length (bulks (drop (cur_arg_idx ?p) args)) \<le> length (drop ?c src)
           then pstate p' = kDone \<and> cur_arg_idx p' = length args else pstate p' = kParsing"
        using 1(1) [OF nn d nl, OF cs(1) cs(2) si' st' dec' enc pre'] by blast
      show ?thesis
        unfolding parse_args_eqs(4) [OF lt d idx(1), OF cs(1)]
        using r dd arg(1) k [unfolded tu] bb [unfolded tu] fin [unfolded tu]
        by (intro exI [of _ p'] exI [of _ "length (bulk ?s) + k"] exI [of _ result'])
          (simp add: rest add.assoc)
    qed
  qed
qed

section \<open>A call of the parser\<close>

text \<open>The bytes of the command that the parser has still to consume.\<close>

definition pending :: "string list \<Rightarrow> mbulk_parser \<Rightarrow> string" where
  "pending args p = (if InProgress p then bulks (drop (cur_arg_idx p) args) else multibulk args)"

text \<open>
  The parser waits for the rest of the command \<open>args\<close>: what is in the buffer is a beginning of
  what it needs, followed by \<open>tl_bytes\<close>.
\<close>

definition expecting :: "string list \<Rightarrow> string \<Rightarrow> mbulk_parser \<Rightarrow> buffer \<Rightarrow> view list \<Rightarrow> bool" where
  "expecting args tl_bytes p b result \<longleftrightarrow> buffer_inv b \<and> prefix (unread b) (pending args p @ tl_bytes) \<and>
     (InProgress p \<longrightarrow> decoded args p b result) \<and> (pstate p = kInit \<longrightarrow> cur_arg_idx p = 0)"

lemma Source_vptr: "buffer_inv b \<Longrightarrow> unread b \<noteq> [] \<Longrightarrow> vptr (Source b) = mem_start b + int (read_index b)"
  using length_unread [of b] by (auto simp: Source_def mem_start_def)

lemma src_at_Source: "buffer_inv b \<Longrightarrow> unread b \<noteq> [] \<Longrightarrow> src_at b (vptr (Source b)) (unread b) 0"
  using Source_vptr [of b] length_unread [of b] by (simp add: src_at_def buffer_inv_def)

lemma src_is_Source:
  assumes "buffer_inv b" and "unread b \<noteq> []"
  shows "src_is b (vptr (Source b)) (unread b)"
proof -
  have "length (unread b) = vlen (Source b)"
    using assms by (auto simp: length_unread Source_def buffer_inv_def)
  then have "chars b \<lparr>vptr = vptr (Source b), vlen = length (unread b)\<rparr> = unread b"
    using chars_Source [OF assms(1)] by (metis view.surjective unit.exhaust)
  then show ?thesis using Source_vptr [OF assms] by (simp add: src_is_def)
qed

lemma length_mbulk_header: "length (mbulk_header n) = length (to_chars (int n)) + 3"
  by (simp add: mbulk_header_def CRLF_def)

lemma ParseArgNum_header:
  assumes "int n \<le> int32_max" and "src = mbulk_header n @ u"
  shows "ParseArgNum p b src = map_option
    (\<lambda>b'. (length (mbulk_header n), p\<lparr>pargs := n, pstate := kParsing\<rparr>, b')) (Consume (length (mbulk_header n)) b)"
proof -
  let ?d = "to_chars (int n)"
  have "find_crlf src 1 = Some (Suc (length ?d))"
    using find_crlf_from_first [OF CR_notin_to_chars, of "int n" u] assms(2)
    by (simp add: find_crlf_def mbulk_header_def)
  then show ?thesis
    using assms from_chars_line [OF assms(1)] length_mbulk_header [of n]
    by (simp add: ParseArgNum_def mbulk_header_def)
qed

lemma ParseArgNum_wait:
  assumes "strict_prefix src (mbulk_header n)" and "src \<noteq> []"
  shows "ParseArgNum p b src = Some (0, p, b)"
proof -
  let ?d = "to_chars (int n)"
  obtain src' where src: "src = CHR ''*'' # src'" and "strict_prefix src' (?d @ CRLF)"
    using assms by (cases src) (auto simp: mbulk_header_def)
  then show ?thesis
    using src short_line find_crlf_from_none [of src'] by (simp add: ParseArgNum_def find_crlf_def)
qed

lemma unread_advance: "unread (b\<lparr>read_index := read_index b + k\<rparr>) = drop k (unread b)"
  by (simp add: unread_def mem_bytes_def add.commute)

lemma buffer_inv_advance:
  "buffer_inv b \<Longrightarrow> k \<le> length (unread b) \<Longrightarrow> buffer_inv (b\<lparr>read_index := read_index b + k\<rparr>)"
  by (auto simp: buffer_inv_def length_unread)

text \<open>
  What one call does on a beginning of a command: it completes the command if and only if all of
  its bytes are there, and otherwise expects the rest.
\<close>

definition parse_outcome ::
  "string list \<Rightarrow> string \<Rightarrow> mbulk_parser \<Rightarrow> buffer \<Rightarrow> mbulk_parser \<Rightarrow> nat \<Rightarrow> view list \<Rightarrow> bool" where
  "parse_outcome args tl_bytes p b p' k result' \<longleftrightarrow> k \<le> length (unread b) \<and>
     (if length (pending args p) \<le> length (unread b)
      then pstate p' = kDone \<and> decoded args p' b result' \<and> cur_arg_idx p' = length args \<and>
        k = length (pending args p)
      else (pstate p' = kInit \<or> pstate p' = kParsing) \<and> pending args p = take k (unread b) @ pending args p' \<and>
        expecting args tl_bytes p' (b\<lparr>read_index := read_index b + k\<rparr>) result')"

lemma prefix_rest: "prefix (a @ u) (a @ xs) \<Longrightarrow> prefix u xs"
  by simp

lemma parse_args_outcome:
  assumes "buffer_inv b" and "unread b \<noteq> []" and "encodable args"
    and "src_at b0 (vptr (Source b)) (unread b) cursor" and "b0 = b\<lparr>read_index := read_index b + cursor\<rparr>"
    and "pstate p = kParsing" and "decoded args p b result"
    and "prefix (drop cursor (unread b)) (bulks (drop (cur_arg_idx p) args) @ tl_bytes)"
    and "pending args q = take cursor (unread b) @ bulks (drop (cur_arg_idx p) args)"
  shows "\<exists>p' k result'. parse_args p b0 result (vptr (Source b)) (unread b) cursor =
      Some (p', b\<lparr>read_index := read_index b + k\<rparr>, result') \<and> parse_outcome args tl_bytes q b p' k result'"
proof -
  let ?t = "drop cursor (unread b)"
  have si: "src_is b0 (vptr (Source b)) (unread b)" and dec: "decoded args p b0 result"
    using src_is_Source [OF assms(1,2)] assms(5,7) by simp_all
  have cl: "cursor \<le> length (unread b)" using assms(4) by (simp add: src_at_def)
  obtain p' k result' where r: "parse_args p b0 result (vptr (Source b)) (unread b) cursor =
        Some (p', b0\<lparr>read_index := read_index b0 + k\<rparr>, result')"
    and k: "k \<le> length ?t" and d: "decoded args p' b0 result'"
    and e: "bulks (drop (cur_arg_idx p) args) = take k ?t @ bulks (drop (cur_arg_idx p') args)"
    and f: "if length (bulks (drop (cur_arg_idx p) args)) \<le> length ?t
        then pstate p' = kDone \<and> cur_arg_idx p' = length args else pstate p' = kParsing"
    using parse_args_decodes [OF assms(4) si assms(6) dec assms(3,8)] by blast
  have ck: "cursor + k \<le> length (unread b)" using cl k by simp
  have tk: "take (cursor + k) (unread b) = take cursor (unread b) @ take k ?t" by (simp add: take_add)
  have lp: "length (pending args q) = cursor + length (bulks (drop (cur_arg_idx p) args))"
    using assms(9) cl by simp
  from lp have iff: "length (pending args q) \<le> length (unread b) \<longleftrightarrow>
      length (bulks (drop (cur_arg_idx p) args)) \<le> length ?t" using cl by auto
  have "parse_outcome args tl_bytes q b p' (cursor + k) result'"
  proof (cases "length (pending args q) \<le> length (unread b)")
    case True
    then have fin: "pstate p' = kDone" "cur_arg_idx p' = length args" using f iff by simp_all
    then have "bulks (drop (cur_arg_idx p) args) = take k ?t" using e by simp
    then have "length (bulks (drop (cur_arg_idx p) args)) = k" using k by (metis length_take min.absorb2)
    then have "cursor + k = length (pending args q)" using lp by simp
    then show ?thesis using fin True d ck assms(5) by (simp add: parse_outcome_def)
  next
    case False
    then have st: "pstate p' = kParsing" using f iff by simp
    have "prefix (take k ?t @ drop k ?t) (take k ?t @ bulks (drop (cur_arg_idx p') args) @ tl_bytes)"
      using assms(8) unfolding e by (simp only: append_take_drop_id append_assoc)
    from prefix_rest [OF this] have "prefix (drop (cursor + k) (unread b)) (pending args p' @ tl_bytes)"
      using st by (simp add: pending_def InProgress_def add.commute)
    then have "expecting args tl_bytes p' (b\<lparr>read_index := read_index b + (cursor + k)\<rparr>) result'"
      using buffer_inv_advance [OF assms(1) ck] d st assms(5) unread_advance [of b "cursor + k"]
      by (simp add: expecting_def)
    moreover have "pending args q = take (cursor + k) (unread b) @ pending args p'"
      using st assms(9) e tk by (simp add: pending_def InProgress_def)
    ultimately show ?thesis using False st ck by (simp add: parse_outcome_def)
  qed
  then show ?thesis
    using r assms(5) by (intro exI [of _ p'] exI [of _ "cursor + k"] exI [of _ result']) (simp add: add.assoc)
qed

lemma Parse_outcome:
  assumes ex: "expecting args tl_bytes p b result" and ne: "unread b \<noteq> []" and enc: "encodable args"
  shows "\<exists>p' k result'. MultiBulk_Parse p b result =
      Some (p', b\<lparr>read_index := read_index b + k\<rparr>, result') \<and> parse_outcome args tl_bytes p b p' k result'"
proof -
  have inv: "buffer_inv b" using ex by (simp add: expecting_def)
  have src: "chars b (Source b) = unread b" by (rule chars_Source [OF inv])
  have pre: "prefix (unread b) (pending args p @ tl_bytes)" using ex by (simp add: expecting_def)
  show ?thesis
  proof (cases "InProgress p")
    case True
    then have st: "pstate p = kParsing" by (simp add: InProgress_def)
    then have "MultiBulk_Parse p b result = parse_args p b result (vptr (Source b)) (unread b) 0"
      using ne src by (simp add: MultiBulk_Parse_def)
    then show ?thesis
      using parse_args_outcome [OF inv ne enc src_at_Source [OF inv ne], of p result tl_bytes p]
        ex pre st True by (simp add: expecting_def pending_def)
  next
    case False
    define p1 where "p1 = (if pstate p = kError \<or> pstate p = kDone then Parser_Reset p else p)"
    have p1: "pstate p1 = kInit" "cur_arg_idx p1 = 0"
      using False ex by (cases "pstate p"; simp add: p1_def Parser_Reset_def InProgress_def expecting_def)+
    have pend: "pending args p = multibulk args" "pending args p1 = multibulk args"
      using False p1 by (simp_all add: pending_def InProgress_def)
    have eq: "MultiBulk_Parse p b result = (case ParseArgNum p1 b (unread b) of None \<Rightarrow> None
        | Some (cursor, p', b') \<Rightarrow> if cursor = 0 then Some (p', b', result)
            else parse_args p' b' result (vptr (Source b)) (unread b) cursor)"
      using ne src p1 by (simp add: MultiBulk_Parse_def Let_def flip: p1_def)
    let ?h = "mbulk_header (length args)"
    have hl: "length ?h > 0" by (simp add: mbulk_header_def)
    consider "strict_prefix (unread b) ?h" | u where "unread b = ?h @ u" "prefix u (bulks args @ tl_bytes)"
      using prefix_append_cases [of "unread b" ?h "bulks args @ tl_bytes"] pre pend by (auto simp: multibulk_def)
    then show ?thesis
    proof cases
      case 1
      have "\<not> length (pending args p) \<le> length (unread b)"
        using prefix_length_less [OF 1] pend by (simp add: multibulk_def)
      then show ?thesis
        using ParseArgNum_wait [OF 1 ne, of p1 b] eq p1 pend pre inv
        by (intro exI [of _ p1] exI [of _ 0] exI [of _ result])
          (simp add: parse_outcome_def expecting_def InProgress_def)
    next
      case 2
      let ?b = "b\<lparr>read_index := read_index b + length ?h\<rparr>" and ?p = "p1\<lparr>pargs := length args, pstate := kParsing\<rparr>"
      have hb: "length ?h \<le> length (unread b)" using 2 by simp
      have cs: "Consume (length ?h) b = Some ?b" "src_at ?b (vptr (Source b)) (unread b) (length ?h)"
        using src_at_Consume [OF src_at_Source [OF inv ne] le0 hb] by simp_all
      have "int (length args) \<le> int32_max" using enc by (simp add: encodable_def)
      then have eq2: "MultiBulk_Parse p b result = parse_args ?p ?b result (vptr (Source b)) (unread b) (length ?h)"
        using eq ParseArgNum_header [of "length args" "unread b" u p1 b] 2(1) cs(1) hl by simp
      have "decoded args ?p b result" using p1 by (simp add: decoded_def)
      moreover have "drop (length ?h) (unread b) = u" "take (length ?h) (unread b) = ?h" using 2(1) by simp_all
      ultimately show ?thesis
        unfolding eq2 using parse_args_outcome [OF inv ne enc cs(2) refl, of ?p result tl_bytes p] p1 pend 2
        by (simp add: multibulk_def)
    qed
  qed
qed

section \<open>Properties of the multi-bulk parser\<close>

lemma ParseArgNum_cases:
  assumes "src \<noteq> []" and "src_at b sp src 0" and "ParseArgNum p b src = r"
  obtains "r = Some (0, p, b)" | "r = Some (0, p\<lparr>pstate := kError\<rparr>, b)"
  | c n where "0 < c" "r = Some (c, p\<lparr>pargs := n, pstate := kParsing\<rparr>, b\<lparr>read_index := read_index b + c\<rparr>)"
      "src_at (b\<lparr>read_index := read_index b + c\<rparr>) sp src c" "c \<le> length src"
proof (cases "find_crlf src 1")
  case None
  then show thesis using that assms(3) by (auto simp: ParseArgNum_def split: if_splits)
next
  case (Some crlf)
  let ?b = "b\<lparr>read_index := read_index b + (crlf + 2)\<rparr>"
  have "crlf + 2 \<le> length src" using find_crlf_bound [OF Some] by simp
  then have "Consume (crlf + 2) b = Some ?b \<and> src_at ?b sp src (crlf + 2)"
    using src_at_Consume [OF assms(2) le0, of "crlf + 2"] by simp
  then show thesis
    using that(1,2) that(3) [of "crlf + 2"] assms(3) Some \<open>crlf + 2 \<le> length src\<close>
    by (auto simp: ParseArgNum_def split: if_splits prod.splits)
qed

text \<open>
  C7. Memory safety of the multi-bulk parser on every input. Whatever bytes are in the buffer and
  wherever the parser is, a call returns (no assertion fails), consumes only received bytes, keeps
  the invariants, and when it reports a command every argument view it reports lies inside the
  received bytes.
\<close>

theorem Parse_safe:
  assumes "buffer_inv b" and "parser_inv p b result"
  shows "\<exists>p' r result'. MultiBulk_Parse p b result = Some (p', b\<lparr>read_index := r\<rparr>, result') \<and>
    buffer_inv (b\<lparr>read_index := r\<rparr>) \<and> parser_inv p' (b\<lparr>read_index := r\<rparr>) result' \<and>
    (pstate p' = kDone \<longrightarrow> (\<forall>i<pargs p'. i < length result' \<and> view_ok b (result' ! i)))"
proof -
  define q where "q = (if pstate p = kError \<or> pstate p = kDone then Parser_Reset p else p)"
  have q: "parser_inv q b result" "pstate q = kInit \<or> pstate q = kParsing"
    using assms(2) by (cases "pstate p"; simp add: q_def parser_inv_def Parser_Reset_def)+
  have src: "chars b (Source b) = unread b" by (rule chars_Source [OF assms(1)])
  have wr: "read_index b \<le> write_index b" using assms(1) by (simp add: buffer_inv_def)
  have wrap: ?thesis if "MultiBulk_Parse p b result = Some (p', b\<lparr>read_index := r\<rparr>, result')"
      and "r \<le> write_index b" and "parser_inv p' b result'" for p' r result'
    using that assms(1) by (intro exI [of _ p'] exI [of _ r] exI [of _ result'])
      (auto simp: buffer_inv_def parser_inv_def)
  show ?thesis
  proof (cases "unread b = []")
    case True
    then show ?thesis using wrap [of q "read_index b" result] src wr q
      by (simp add: MultiBulk_Parse_def flip: q_def)
  next
    case ne: False
    note sa = src_at_Source [OF assms(1) ne]
    have run: ?thesis if "MultiBulk_Parse p b result = parse_args p1 (b\<lparr>read_index := r\<rparr>) result (vptr (Source b)) (unread b) c"
        and "src_at (b\<lparr>read_index := r\<rparr>) (vptr (Source b)) (unread b) c" and "pstate p1 = kParsing"
        and "parser_inv p1 b result" for p1 r c
      using parse_args_safe [OF that(2,3)] that(1,4) wrap by fastforce
    show ?thesis
    proof (cases "pstate q = kInit")
      case False
      then show ?thesis using run [of q "read_index b" 0] q ne src sa
        by (simp add: MultiBulk_Parse_def flip: q_def)
    next
      case True
      then have mp: "MultiBulk_Parse p b result = (case ParseArgNum q b (unread b) of None \<Rightarrow> None
          | Some (cursor, p', b') \<Rightarrow> if cursor = 0 then Some (p', b', result)
              else parse_args p' b' result (vptr (Source b)) (unread b) cursor)"
        using ne src by (simp add: MultiBulk_Parse_def Let_def flip: q_def)
      show ?thesis
      proof (rule ParseArgNum_cases [OF ne sa refl, of q])
        assume "ParseArgNum q b (unread b) = Some (0, q, b)"
        then show ?thesis using wrap [of q "read_index b" result] mp wr q by simp
      next
        assume "ParseArgNum q b (unread b) = Some (0, q\<lparr>pstate := kError\<rparr>, b)"
        moreover have "parser_inv (q\<lparr>pstate := kError\<rparr>) b result" by (simp add: parser_inv_def)
        ultimately show ?thesis using wrap [of _ "read_index b" result] mp wr by simp
      next
        fix c n
        let ?p = "q\<lparr>pargs := n, pstate := kParsing\<rparr>"
        assume "0 < c" and "ParseArgNum q b (unread b) = Some (c, ?p, b\<lparr>read_index := read_index b + c\<rparr>)"
          and "src_at (b\<lparr>read_index := read_index b + c\<rparr>) (vptr (Source b)) (unread b) c"
        moreover have "parser_inv ?p b result" using q True by (simp add: parser_inv_def)
        ultimately show ?thesis using run [of ?p "read_index b + c" c] mp by simp
      qed
    qed
  qed
qed

text \<open>A buffer that holds some received bytes, for the witnesses.\<close>

definition received :: "string \<Rightarrow> buffer" where
  "received s = \<lparr>virtual_view = False, buf_data = s, buf_base = 4096, read_index = 0,
     write_index = length s, bview = [], bview_base = 0\<rparr>"

lemma received_simps [simp]:
  "buffer_inv (received s)" "unread (received s) = s"
  by (simp_all add: received_def buffer_inv_def unread_def mem_bytes_def)

theorem Parse_safe_witness:
  "\<exists>p' r result'. MultiBulk_Parse MultiBulkParser_init (received ''*1#$9abc'') [] =
     Some (p', (received ''*1#$9abc'')\<lparr>read_index := r\<rparr>, result')"
proof -
  have "parser_inv MultiBulkParser_init (received ''*1#$9abc'') []"
    by (simp add: parser_inv_def MultiBulkParser_init_def)
  from Parse_safe [OF received_simps(1) this] show ?thesis by blast
qed

text \<open>
  C5. Round trip. On the RESP encoding of a command, whatever follows it in the buffer, one call
  of the parser between commands reports the command with exactly the encoded arguments and
  leaves exactly the bytes that follow.
\<close>

theorem Parse_multibulk:
  assumes "buffer_inv b" and "\<not> InProgress p" and "pstate p = kInit \<longrightarrow> cur_arg_idx p = 0"
    and "encodable args" and "unread b = multibulk args @ tl_bytes"
  shows "\<exists>p' r result'. MultiBulk_Parse p b result = Some (p', b\<lparr>read_index := r\<rparr>, result') \<and>
    GetResultSize p' = Some (length args) \<and> map (chars b) (take (length args) result') = args \<and>
    unread (b\<lparr>read_index := r\<rparr>) = tl_bytes"
proof -
  have "expecting args tl_bytes p b result" and ne: "unread b \<noteq> []"
    using assms by (auto simp: expecting_def pending_def multibulk_def mbulk_header_def)
  from Parse_outcome [OF this assms(4)] obtain p' k result'
    where r: "MultiBulk_Parse p b result = Some (p', b\<lparr>read_index := read_index b + k\<rparr>, result')"
      and o: "parse_outcome args tl_bytes p b p' k result'" by blast
  have pend: "pending args p = multibulk args" using assms(2) by (simp add: pending_def)
  from o have dn: "pstate p' = kDone" "decoded args p' b result'" "cur_arg_idx p' = length args"
      "k = length (multibulk args)"
    using pend assms(5) by (simp_all add: parse_outcome_def)
  then have "map (chars b) (take (length args) result') = args"
    by (auto simp: decoded_def intro!: nth_equalityI)
  moreover have "unread (b\<lparr>read_index := read_index b + k\<rparr>) = tl_bytes"
    using assms(5) dn(4) by (simp add: unread_advance)
  moreover have "GetResultSize p' = Some (length args)"
    using dn by (simp add: GetResultSize_def decoded_def)
  ultimately show ?thesis using r by blast
qed

definition get_command :: "string list" where
  "get_command = [''GET'', ''k'']"

theorem Parse_multibulk_witness:
  "\<exists>p' r result'. MultiBulk_Parse MultiBulkParser_init (received (multibulk get_command @ ''*'')) [] =
     Some (p', (received (multibulk get_command @ ''*''))\<lparr>read_index := r\<rparr>, result') \<and>
   map (chars (received (multibulk get_command @ ''*''))) (take (length get_command) result') = get_command"
proof -
  have "encodable get_command" by (simp add: encodable_def get_command_def)
  moreover have "\<not> InProgress MultiBulkParser_init" "cur_arg_idx MultiBulkParser_init = 0"
    by (simp_all add: InProgress_def MultiBulkParser_init_def)
  ultimately show ?thesis
    using Parse_multibulk [OF received_simps(1) _ _ _ received_simps(2), of MultiBulkParser_init get_command "''*''" "[]"]
    by blast
qed

section \<open>Inline commands\<close>

text \<open>The reference: the maximal runs of non-space characters.\<close>

function words_of :: "string \<Rightarrow> string list" where
  "words_of s =
     (let t = dropWhile isspace s
      in if t = [] then [] else takeWhile (\<lambda>c. \<not> isspace c) t # words_of (dropWhile (\<lambda>c. \<not> isspace c) t))"
  by auto
termination
proof (relation "measure length", goal_cases)
  case (2 s t)
  then obtain c cs where "t = c # cs" "\<not> isspace c"
    by (metis hd_dropWhile neq_Nil_conv list.sel(1))
  then have "length (dropWhile (\<lambda>c. \<not> isspace c) t) < length t"
    by (simp add: length_dropWhile_le le_imp_less_Suc)
  also have "\<dots> \<le> length s" using 2 by (simp add: length_dropWhile_le)
  finally show ?case by simp
qed simp

declare words_of.simps [simp del]

lemma words_of_space: "isspace c \<Longrightarrow> words_of (c # s) = words_of s"
  by (subst (1 2) words_of.simps) simp

lemma words_of_Nil [simp]: "words_of [] = []"
  by (subst words_of.simps) simp

lemma words_of_word:
  "\<not> isspace c \<Longrightarrow> words_of (c # s) =
    (c # takeWhile (\<lambda>c. \<not> isspace c) s) # words_of (dropWhile (\<lambda>c. \<not> isspace c) s)"
  by (subst words_of.simps) simp

lemma next_space_word:
  assumes "i \<le> crlf" and "crlf \<le> length src"
  shows "next_space src crlf i = i + length (takeWhile (\<lambda>c. \<not> isspace c) (drop i (take crlf src)))"
  using assms
proof (induction src crlf i rule: next_space.induct)
  case (1 src crlf i)
  show ?case
  proof (cases "i < crlf")
    case True
    then have "drop i (take crlf src) = src ! i # drop (Suc i) (take crlf src)"
      using 1 by (simp add: Cons_nth_drop_Suc [symmetric])
    then show ?thesis
      using 1 True by (subst next_space.simps) simp
  next
    case False
    then show ?thesis using 1 by (subst next_space.simps) simp
  qed
qed

lemma inline_args_words:
  assumes "i \<le> crlf" and "crlf \<le> length src" and "a \<le> length result" and "src_is b sp src"
    and "\<And>j. j < a \<Longrightarrow> chars b (result ! j) = pre ! j" and "length pre = a"
  shows "\<exists>result'. inline_args sp src crlf i a result = (a + length (words_of (drop i (take crlf src))), result') \<and>
    a + length (words_of (drop i (take crlf src))) \<le> length result' \<and>
    map (chars b) (take (a + length (words_of (drop i (take crlf src)))) result') =
      pre @ words_of (drop i (take crlf src))"
  using assms
proof (induction sp src crlf i a result arbitrary: pre rule: inline_args.induct)
  case (1 sp src crlf i a result)
  show ?case
  proof (cases "i < crlf")
    case False
    have "map (chars b) (take a result) = pre" using "1.prems" by (auto intro!: nth_equalityI)
    then show ?thesis using False "1.prems" by (subst inline_args.simps) simp
  next
    case lt: True
    then have dr: "drop i (take crlf src) = src ! i # drop (Suc i) (take crlf src)"
      using "1.prems" by (simp add: Cons_nth_drop_Suc [symmetric])
    show ?thesis
    proof (cases "isspace (src ! i)")
      case True
      then show ?thesis
        using "1.IH"(1) [OF lt True, of pre] "1.prems" lt
        by (subst inline_args.simps) (simp add: dr words_of_space)
    next
      case False
      let ?w = "takeWhile (\<lambda>c. \<not> isspace c) (drop (Suc i) (take crlf src))"
      let ?j = "next_space src crlf (i + 1)" and ?word = "src ! i # ?w"
      have j: "?j = Suc i + length ?w" using next_space_word [of "i + 1" crlf src] lt "1.prems" by simp
      have jc: "?j \<le> crlf" using next_space_le [of "i + 1" crlf src] lt by simp
      have ji: "?j - i = length ?word" using j by simp
      have dj: "drop ?j (take crlf src) = dropWhile (\<lambda>c. \<not> isspace c) (drop (Suc i) (take crlf src))"
        unfolding j by (simp add: dropWhile_eq_drop add.commute)
      let ?v = "\<lparr>vptr = sp + int i, vlen = ?j - i\<rparr>"
      have "chars b ?v = take (?j - i) (drop i src)"
        using chars_sub [OF "1.prems"(4), of i "?j - i"] jc j "1.prems"(2) by simp
      also have "\<dots> = take (?j - i) (drop i (take crlf src))" using jc j by (simp add: drop_take min_def)
      also have "\<dots> = ?word" unfolding ji dr by (simp flip: takeWhile_eq_take)
      finally have cv: "chars b ?v = ?word" .
      have pre': "chars b (put_arg result a ?v ! k) = (pre @ [?word]) ! k" if "k < a + 1" for k
        using that "1.prems" cv by (cases "k = a") (auto simp: nth_append)
      show ?thesis
        using "1.IH"(2) [OF lt False refl jc "1.prems"(2) _ "1.prems"(4) pre'] lt False "1.prems"
        by (subst inline_args.simps) (simp add: Let_def dr words_of_word dj [unfolded Suc_eq_plus1 [symmetric]])
    qed
  qed
qed

text \<open>
  C27. An inline command. When the unread bytes start with a line that has a CRLF and at least one
  word, \<open>ParseInline\<close> reports as arguments exactly the words of the line before its first CRLF and
  consumes the line with the CRLF.
\<close>

theorem ParseInline_words:
  assumes "buffer_inv b" and "find_crlf (unread b) 0 = Some crlf"
    and "words_of (take crlf (unread b)) \<noteq> []"
  shows "\<exists>result' n. ParseInline b result n0 =
      Some (kDone, b\<lparr>read_index := read_index b + (crlf + 2)\<rparr>, result', n) \<and>
    map (chars b) (take n result') = words_of (take crlf (unread b)) \<and>
    n = length (words_of (take crlf (unread b)))"
proof -
  have ne: "unread b \<noteq> []" and cl: "crlf + 2 \<le> length (unread b)"
    using find_crlf_bound [OF assms(2)] by auto
  obtain result' where r: "inline_args (vptr (Source b)) (unread b) crlf 0 0 result =
        (length (words_of (take crlf (unread b))), result')"
    and m: "map (chars b) (take (length (words_of (take crlf (unread b)))) result') = words_of (take crlf (unread b))"
    using inline_args_words [of 0 crlf "unread b" 0 result b "vptr (Source b)" "[]"] cl
      src_is_Source [OF assms(1) ne] by auto
  have "Consume (crlf + 2) b = Some (b\<lparr>read_index := read_index b + (crlf + 2)\<rparr>)"
    using src_at_Consume [OF src_at_Source [OF assms(1) ne] le0 cl] by simp
  then show ?thesis
    using r m assms(2,3) ne chars_Source [OF assms(1)] by (simp add: ParseInline_def)
qed

theorem ParseInline_words_witness:
  "\<exists>result'. map (chars (received (''GET  key'' @ CRLF))) (take 2 result') = [''GET'', ''key''] \<and>
    ParseInline (received (''GET  key'' @ CRLF)) [] 0 =
      Some (kDone, (received (''GET  key'' @ CRLF))\<lparr>read_index := 10\<rparr>, result', 2)"
proof -
  have f: "find_crlf (unread (received (''GET  key'' @ CRLF))) 0 = Some 8"
    unfolding received_simps by code_simp
  have w: "words_of (take 8 (unread (received (''GET  key'' @ CRLF)))) = [''GET'', ''key'']"
    unfolding received_simps by code_simp
  show ?thesis
    using ParseInline_words [OF received_simps(1) f, of "[]" 0] unfolding w
    by (auto simp: received_def numeral_2_eq_2)
qed

end
