(* ===== verification/Replier.thy ===== *)
theory Replier
  imports RespCodec
begin

text \<open>
  Command results and their serialisation: \<open>src/src/resp/error.cc\<close>, \<open>result.cc\<close> and
  \<open>replier.cc\<close>. A reply is either one string view or a list of I/O vectors that point into static
  strings, into the output buffer and into the value strings; gathering them gives the RESP
  encoding of the result, and no write leaves the output buffer. A failed \<open>assert\<close> is \<open>None\<close>.
\<close>

section \<open>Errors and results\<close>

datatype Error = kProtocol | kUnknownCommand | kOOM | kWrongArgNum | kSyntaxError | kNotAnInt

fun ErrorToStringView :: "Error \<Rightarrow> string" where
  "ErrorToStringView kProtocol = ''-ERR Protocol error'' @ CRLF"
| "ErrorToStringView kUnknownCommand = ''-ERR unknown command'' @ CRLF"
| "ErrorToStringView kOOM =
     ''-OOM command not allowed when used memory > '' @ [CHR 0x27] @ ''maxmemory'' @ [CHR 0x27] @ ''.'' @ CRLF"
| "ErrorToStringView kWrongArgNum = ''-ERR wrong number of arguments.'' @ CRLF"
| "ErrorToStringView kSyntaxError = ''-ERR syntax error'' @ CRLF"
| "ErrorToStringView kNotAnInt = ''-ERR value is not an integer or out of range'' @ CRLF"

datatype result_type = TOk | TError | TNil | TInt | TString | TStrings

text \<open>\<open>MTSPtr\<close>, a shared pointer to a string: \<open>None\<close> is the null pointer.\<close>

type_synonym mts_ptr = "string option"

record result =
  rtype :: result_type
  rerror :: Error
  int_value :: int
  string_ptr :: mts_ptr
  rstrings :: "mts_ptr list"

definition Result_init :: result where
  "Result_init = \<lparr>rtype = TOk, rerror = kProtocol, int_value = 0, string_ptr = None, rstrings = []\<rparr>"

definition SetOk :: "result \<Rightarrow> result" where
  "SetOk r = r\<lparr>rtype := TOk\<rparr>"

definition SetError :: "Error \<Rightarrow> result \<Rightarrow> result" where
  "SetError e r = r\<lparr>rtype := TError, rerror := e\<rparr>"

definition SetNil :: "result \<Rightarrow> result" where
  "SetNil r = r\<lparr>rtype := TNil\<rparr>"

definition SetString :: "mts_ptr \<Rightarrow> result \<Rightarrow> result" where
  "SetString s r = r\<lparr>rtype := TString, string_ptr := s\<rparr>"

definition SetInt :: "int \<Rightarrow> result \<Rightarrow> result" where
  "SetInt v r = r\<lparr>rtype := TInt, int_value := v\<rparr>"

definition AddString :: "mts_ptr \<Rightarrow> result \<Rightarrow> result" where
  "AddString s r = r\<lparr>rtype := TStrings, rstrings := rstrings r @ [s]\<rparr>"

definition Result_Reset :: "result \<Rightarrow> result" where
  "Result_Reset r = r\<lparr>rtype := TOk, string_ptr := None, rstrings := []\<rparr>"

section \<open>The replier\<close>

definition kOkStr :: string where
  "kOkStr = ''+OK'' @ CRLF"

definition kNilStr :: string where
  "kNilStr = ''$-1'' @ CRLF"

text \<open>
  \<open>IntToChars\<close> writes at index \<open>off\<close> of the output buffer, where the sink begins, and returns the
  number of bytes written.
\<close>

definition IntToChars :: "int \<Rightarrow> nat \<Rightarrow> buffer \<Rightarrow> (nat \<times> buffer) option" where
  "IntToChars val off b =
     (let sink_size = length (buf_data b) - off; n = length (to_chars val)
      in if sink_size < 13 \<or> n + 2 > sink_size then None
         else Some (n + 2, b\<lparr>buf_data := write_at off (to_chars val @ CRLF) (buf_data b)\<rparr>))"

text \<open>An I/O vector: a static string, a range of the output buffer, or a value string.\<close>

datatype iovec = IoStatic string | IoBuffer nat nat | IoString string

definition put_char :: "nat \<Rightarrow> char \<Rightarrow> buffer \<Rightarrow> buffer option" where
  "put_char i c b = (if i < length (buf_data b) then Some (b\<lparr>buf_data := (buf_data b)[i := c]\<rparr>) else None)"

definition StrToIovecs :: "mts_ptr \<Rightarrow> nat \<Rightarrow> buffer \<Rightarrow> iovec list \<Rightarrow> (nat \<times> buffer \<times> iovec list) option" where
  "StrToIovecs str off b iovecs =
     (case str of
        None \<Rightarrow> Some (0, b, iovecs @ [IoStatic kNilStr])
      | Some s \<Rightarrow>
          (case put_char off (CHR ''$'') b of
             None \<Rightarrow> None
           | Some b1 \<Rightarrow>
               (case IntToChars (to_int32 (int (length s))) (off + 1) b1 of
                  None \<Rightarrow> None
                | Some (n, b2) \<Rightarrow>
                    (let offset = n + 1
                     in Some (offset, b2,
                          iovecs @ [IoBuffer off offset, IoString s, IoBuffer (off + offset - 2) 2])))))"

definition NeedsGather :: "result \<Rightarrow> bool" where
  "NeedsGather r \<longleftrightarrow> rtype r = TString \<or> rtype r = TStrings"

text \<open>\<open>ResultToStringView\<close>: the bytes of the view and the output buffer. \<open>a\<close> is the address of a resized buffer.\<close>

definition ResultToStringView :: "addr \<Rightarrow> result \<Rightarrow> buffer \<Rightarrow> (string \<times> buffer) option" where
  "ResultToStringView a r b =
     (case rtype r of
        TOk \<Rightarrow> Some (kOkStr, b)
      | TNil \<Rightarrow> Some (kNilStr, b)
      | TError \<Rightarrow> Some (ErrorToStringView (rerror r), b)
      | TInt \<Rightarrow>
          (let b0 = snd (EnsureAvailable 32 False a b)
           in if virtual_view b0 then None
              else case put_char (write_index b0) (CHR '':'') b0 of
                None \<Rightarrow> None
              | Some b1 \<Rightarrow>
                  (case IntToChars (int_value r) (write_index b1 + 1) b1 of
                     None \<Rightarrow> None
                   | Some (offset, b2) \<Rightarrow>
                       (case Produce (offset + 1) b2 of
                          None \<Rightarrow> None
                        | Some b3 \<Rightarrow> Some (chars b3 (Source b3), b3))))
      | _ \<Rightarrow> None)"

fun strings_to_iovecs :: "mts_ptr list \<Rightarrow> nat \<Rightarrow> buffer \<Rightarrow> iovec list \<Rightarrow> (nat \<times> buffer \<times> iovec list) option" where
  "strings_to_iovecs [] cursor b iovecs = Some (cursor, b, iovecs)"
| "strings_to_iovecs (str # strs) cursor b iovecs =
     (case StrToIovecs str cursor b iovecs of
        None \<Rightarrow> None
      | Some (n, b', iovecs') \<Rightarrow> strings_to_iovecs strs (cursor + n) b' iovecs')"

definition ResultToIovecs :: "addr \<Rightarrow> result \<Rightarrow> buffer \<Rightarrow> iovec list \<Rightarrow> (buffer \<times> iovec list) option" where
  "ResultToIovecs a r b iovecs =
     (if rtype r = TString
      then (let b0 = snd (EnsureAvailable 64 False a b)
            in if virtual_view b0 then None
               else map_option snd (StrToIovecs (string_ptr r) (write_index b0) b0 iovecs))
      else (let b0 = snd (EnsureAvailable (length (rstrings r) * 32) False a b); w = write_index b0
            in if virtual_view b0 then None
               else case put_char w (CHR ''*'') b0 of
                 None \<Rightarrow> None
               | Some b1 \<Rightarrow>
                   (case IntToChars (int (length (rstrings r))) (w + 1) b1 of
                      None \<Rightarrow> None
                    | Some (n, b2) \<Rightarrow>
                        map_option snd
                          (strings_to_iovecs (rstrings r) (w + (n + 1)) b2
                             (iovecs @ [IoBuffer w (n + 1)])))))"

text \<open>The bytes that \<open>writev\<close> sends for I/O vectors over the output buffer.\<close>

fun iov_bytes :: "buffer \<Rightarrow> iovec \<Rightarrow> string" where
  "iov_bytes b (IoStatic s) = s"
| "iov_bytes b (IoBuffer off len) = take len (drop off (buf_data b))"
| "iov_bytes b (IoString s) = s"

definition gather :: "buffer \<Rightarrow> iovec list \<Rightarrow> string" where
  "gather b iovecs = concat (map (iov_bytes b) iovecs)"

text \<open>
  What the client sends for a result: one \<open>send\<close> of a view or one \<open>writev\<close>, with an output buffer
  and a vector of I/O vectors that \<open>ResetState\<close> has left empty.
\<close>

definition send_reply :: "addr \<Rightarrow> result \<Rightarrow> buffer \<Rightarrow> (string \<times> buffer) option" where
  "send_reply a r b =
     (if NeedsGather r then map_option (\<lambda>(b', iovecs). (gather b' iovecs, b')) (ResultToIovecs a r b [])
      else ResultToStringView a r b)"

section \<open>The specification of a reply\<close>

fun bulk_or_nil :: "mts_ptr \<Rightarrow> string" where
  "bulk_or_nil None = kNilStr"
| "bulk_or_nil (Some s) = bulk s"

definition encode_reply :: "result \<Rightarrow> string" where
  "encode_reply r =
     (case rtype r of
        TOk \<Rightarrow> kOkStr
      | TNil \<Rightarrow> kNilStr
      | TError \<Rightarrow> ErrorToStringView (rerror r)
      | TInt \<Rightarrow> CHR '':'' # to_chars (int_value r) @ CRLF
      | TString \<Rightarrow> bulk_or_nil (string_ptr r)
      | TStrings \<Rightarrow> CHR ''*'' # to_chars (int (length (rstrings r))) @ CRLF @ concat (map bulk_or_nil (rstrings r)))"

text \<open>The results that occur: 64-bit integers, and strings and arrays below \<open>2 ^ 31\<close> elements.\<close>

fun ptr_ok :: "mts_ptr \<Rightarrow> bool" where
  "ptr_ok None \<longleftrightarrow> True"
| "ptr_ok (Some s) \<longleftrightarrow> int (length s) \<le> int32_max"

definition result_ok :: "result \<Rightarrow> bool" where
  "result_ok r \<longleftrightarrow> int64_min \<le> int_value r \<and> int_value r \<le> int64_max \<and> ptr_ok (string_ptr r) \<and>
     list_all ptr_ok (rstrings r) \<and> int (length (rstrings r)) \<le> int32_max"

section \<open>Writing to the output buffer\<close>

lemma write_at_simps:
  assumes "i + length s \<le> length d"
  shows "length (write_at i s d) = length d" and "take i (write_at i s d) = take i d"
    and "take (length s) (drop i (write_at i s d)) = s" and "take (i + length s) (write_at i s d) = take i d @ s"
  using assms by (auto simp: write_at_def min_def neq_Nil_conv)

lemma write_at_Cons:
  assumes "i < length d"
  shows "write_at (i + 1) s (d[i := c]) = write_at i (c # s) d"
proof -
  have "take (i + 1) (d[i := c]) = take i d @ [c]"
    using assms by (simp add: take_Suc_conv_app_nth)
  then show ?thesis by (simp add: write_at_def)
qed

lemma length_to_chars32: "0 \<le> v \<Longrightarrow> v \<le> int32_max \<Longrightarrow> length (to_chars v) \<le> 10"
  using length_nat_digits [of "nat v" 10] by (simp add: to_chars_def)

lemma length_to_chars64: "int64_min \<le> v \<Longrightarrow> v \<le> int64_max \<Longrightarrow> length (to_chars v) \<le> 20"
  using length_nat_digits [of "nat v" 19] length_nat_digits [of "nat (- v)" 19]
  by (cases "v < 0") (simp_all add: to_chars_def nat_less_iff)

text \<open>A line of the reply: a type character, a number and CRLF.\<close>

definition reply_line :: "char \<Rightarrow> int \<Rightarrow> string" where
  "reply_line c v = c # to_chars v @ CRLF"

lemma length_reply_line: "length (reply_line c v) = length (to_chars v) + 3"
  by (simp add: reply_line_def CRLF_def)

lemma write_line:
  assumes "off + 14 \<le> length (buf_data b)" and "off + length (reply_line c v) \<le> length (buf_data b)"
  obtains b1 where "put_char off c b = Some b1"
    and "IntToChars v (off + 1) b1 =
      Some (length (to_chars v) + 2, b\<lparr>buf_data := write_at off (reply_line c v) (buf_data b)\<rparr>)"
    and "write_index b1 = write_index b"
proof -
  let ?b = "b\<lparr>buf_data := (buf_data b)[off := c]\<rparr>"
  have "put_char off c b = Some ?b" using assms(1) by (simp add: put_char_def)
  moreover have "IntToChars v (off + 1) ?b =
      Some (length (to_chars v) + 2, b\<lparr>buf_data := write_at off (reply_line c v) (buf_data b)\<rparr>)"
    using assms write_at_Cons [of off "buf_data b" "to_chars v @ CRLF" c]
    by (auto simp: IntToChars_def Let_def reply_line_def CRLF_def)
  ultimately show thesis using that by simp
qed

lemma line_kept:
  assumes "off + length l \<le> length d" and "take (off + length l) d' = take (off + length l) (write_at off l d)"
  shows "take (length l) (drop off d') = l" and "k \<le> length l \<Longrightarrow> take k (drop (off + length l - k) d') = drop (length l - k) l"
    and "take off d' = take off d"
proof -
  have "take (off + length l) d' = take off d @ l" using assms write_at_simps(4) by metis
  then have t: "drop off (take (off + length l) d') = l" and o: "take off d' = take off d"
    using assms(1) by (simp, metis append_eq_conv_conj length_take min.absorb2 le_add1 le_trans take_take add_leD1)
  from t show "take (length l) (drop off d') = l" by (simp add: drop_take)
  show "take off d' = take off d" by (rule o)
  assume k: "k \<le> length l"
  have "drop (length l - k) (drop off (take (off + length l) d')) = take k (drop (off + length l - k) d')"
    using k by (simp add: drop_take add.commute)
  then show "take k (drop (off + length l - k) d') = drop (length l - k) l" using t by simp
qed

section \<open>Correctness\<close>

lemma gather_append: "gather b (xs @ ys) = gather b xs @ gather b ys"
  by (simp add: gather_def)

lemma StrToIovecs_correct:
  assumes "ptr_ok str" and "off + 14 \<le> length (buf_data b)"
  obtains n l io where "StrToIovecs str off b iovecs = Some (length l, b\<lparr>buf_data := write_at off l (buf_data b)\<rparr>, iovecs @ io)"
    and "length l \<le> 13"
    and "\<And>b'. take (off + length l) (buf_data b') = take (off + length l) (write_at off l (buf_data b)) \<Longrightarrow>
      gather b' io = bulk_or_nil str"
proof (cases str)
  case None
  then show thesis using that [of "[]" "[IoStatic kNilStr]"] by (simp add: StrToIovecs_def write_at_def gather_def)
next
  case (Some s)
  let ?v = "int (length s)" and ?l = "reply_line CHR ''$'' (int (length s))"
  let ?io = "[IoBuffer off (length ?l), IoString s, IoBuffer (off + length ?l - 2) 2]"
  have v: "to_int32 ?v = ?v" and d: "length (to_chars ?v) \<le> 10"
    using assms(1) Some length_to_chars32 [of ?v] by simp_all
  have ol: "off + length ?l \<le> length (buf_data b)" using assms(2) d by (simp add: length_reply_line)
  obtain b1 where "put_char off CHR ''$'' b = Some b1" "IntToChars ?v (off + 1) b1 =
      Some (length (to_chars ?v) + 2, b\<lparr>buf_data := write_at off ?l (buf_data b)\<rparr>)"
    by (rule write_line [OF assms(2) ol])
  then have "StrToIovecs str off b iovecs = Some (length ?l, b\<lparr>buf_data := write_at off ?l (buf_data b)\<rparr>, iovecs @ ?io)"
    using Some v by (simp add: StrToIovecs_def length_reply_line)
  moreover have "gather b' ?io = bulk_or_nil str"
    if "take (off + length ?l) (buf_data b') = take (off + length ?l) (write_at off ?l (buf_data b))" for b'
  proof -
    have "drop (length ?l - 2) ?l = CRLF" by (simp add: reply_line_def CRLF_def)
    then have "take 2 (drop (off + length ?l - 2) (buf_data b')) = CRLF"
      using line_kept(2) [OF ol that, of 2] by (simp add: length_reply_line)
    moreover have "take (length ?l) (drop off (buf_data b')) = ?l" by (rule line_kept(1) [OF ol that])
    ultimately have "gather b' ?io = ?l @ s @ CRLF" by (simp add: gather_def)
    then show ?thesis using Some by (simp add: bulk_def reply_line_def)
  qed
  ultimately show thesis using that [of ?l ?io] d by (simp add: length_reply_line)
qed

lemma take_take_eq: "i \<le> j \<Longrightarrow> take j xs = take j ys \<Longrightarrow> take i xs = take i ys"
  by (metis min.absorb1 take_take)

lemma strings_to_iovecs_correct:
  assumes "list_all ptr_ok strs" and "cursor + 13 * length strs + 1 \<le> length (buf_data b)"
  shows "\<exists>cursor' d io. strings_to_iovecs strs cursor b iovecs = Some (cursor', b\<lparr>buf_data := d\<rparr>, iovecs @ io) \<and>
    length d = length (buf_data b) \<and> take cursor d = take cursor (buf_data b) \<and>
    gather (b\<lparr>buf_data := d\<rparr>) io = concat (map bulk_or_nil strs)"
  using assms
proof (induction strs arbitrary: cursor b iovecs)
  case Nil
  have "b = b\<lparr>buf_data := buf_data b\<rparr>" by simp
  then show ?case by (intro exI [of _ cursor] exI [of _ "buf_data b"] exI [of _ "[]"]) (simp add: gather_def)
next
  case (Cons str strs)
  have "ptr_ok str" "cursor + 14 \<le> length (buf_data b)" using Cons.prems by auto
  then obtain l io where s: "StrToIovecs str cursor b iovecs =
        Some (length l, b\<lparr>buf_data := write_at cursor l (buf_data b)\<rparr>, iovecs @ io)"
    and l: "length l \<le> 13" and g: "\<And>b'. take (cursor + length l) (buf_data b') =
        take (cursor + length l) (write_at cursor l (buf_data b)) \<Longrightarrow> gather b' io = bulk_or_nil str"
    by (rule StrToIovecs_correct) blast
  let ?b = "b\<lparr>buf_data := write_at cursor l (buf_data b)\<rparr>"
  have fit: "cursor + length l \<le> length (buf_data b)" using l Cons.prems by simp
  note w = write_at_simps [OF fit]
  have "cursor + length l + 13 * length strs + 1 \<le> length (buf_data ?b)" using l w Cons.prems by simp
  then obtain cursor' d io' where r: "strings_to_iovecs strs (cursor + length l) ?b (iovecs @ io) =
        Some (cursor', ?b\<lparr>buf_data := d\<rparr>, (iovecs @ io) @ io')"
    and d: "length d = length (buf_data ?b)" "take (cursor + length l) d = take (cursor + length l) (buf_data ?b)"
    and g': "gather (?b\<lparr>buf_data := d\<rparr>) io' = concat (map bulk_or_nil strs)"
    using Cons.IH [of "cursor + length l" ?b "iovecs @ io"] Cons.prems(1) by auto
  have "take cursor d = take cursor (write_at cursor l (buf_data b))"
    using take_take_eq [OF le_add1 d(2)] by simp
  then show ?case
    using s r d w g [of "b\<lparr>buf_data := d\<rparr>"] g'
    by (intro exI [of _ cursor'] exI [of _ d] exI [of _ "io @ io'"]) (simp add: gather_append)
qed

lemma EnsureAvailable_snd:
  assumes "buffer_inv b" and "\<not> virtual_view b" and "b0 = snd (EnsureAvailable n g a b)"
  shows "buffer_inv b0" "\<not> virtual_view b0" "write_index b0 = write_index b" "read_index b0 = read_index b"
    "write_index b + n \<le> length (buf_data b0)" "length (buf_data b) \<le> length (buf_data b0)"
  using assms EnsureAvailable_inv [of b n g a "fst (EnsureAvailable n g a b)" b0]
    EnsureAvailable_room [of b n g a "fst (EnsureAvailable n g a b)" b0]
    EnsureAvailable_kept [of b n g a "fst (EnsureAvailable n g a b)" b0]
  by (auto simp: Available_def buffer_inv_def EnsureAvailable_def Let_def split: if_splits)

lemma send_reply_ok:
  assumes "buffer_inv b" and "\<not> virtual_view b" and "read_index b = 0" and "write_index b = 0"
    and "1024 \<le> length (buf_data b)" and "result_ok r"
  shows "\<exists>b'. send_reply a r b = Some (encode_reply r, b')"
proof (cases "rtype r")
  case TInt
  define b0 where "b0 = snd (EnsureAvailable 32 False a b)"
  let ?l = "reply_line CHR '':'' (int_value r)"
  note e = EnsureAvailable_snd [OF assms(1,2) b0_def]
  have ll: "length ?l \<le> 23" using assms(6) length_to_chars64 [of "int_value r"]
    by (simp add: length_reply_line result_ok_def)
  have fit: "0 + 14 \<le> length (buf_data b0)" "0 + length ?l \<le> length (buf_data b0)" using e assms(4) ll by auto
  obtain b1 where b1: "put_char 0 CHR '':'' b0 = Some b1" "IntToChars (int_value r) (0 + 1) b1 =
      Some (length (to_chars (int_value r)) + 2, b0\<lparr>buf_data := write_at 0 ?l (buf_data b0)\<rparr>)"
      "write_index b1 = write_index b0"
    by (rule write_line [OF fit])
  let ?b2 = "b0\<lparr>buf_data := write_at 0 ?l (buf_data b0)\<rparr>"
  let ?b3 = "?b2\<lparr>write_index := length ?l\<rparr>"
  note w = write_at_simps [OF fit(2)]
  have "Produce (length (to_chars (int_value r)) + 2 + 1) ?b2 = Some ?b3"
    using w(1) fit(2) e assms(4) by (simp add: Produce_def length_reply_line)
  moreover have "chars ?b3 (Source ?b3) = ?l"
    using w(3) e assms(3) by (simp add: chars_def Source_def mem_start_def mem_bytes_def length_reply_line)
  ultimately show ?thesis
    using TInt e assms(4) b1
    by (simp add: send_reply_def NeedsGather_def ResultToStringView_def encode_reply_def reply_line_def
        Let_def flip: b0_def)
next
  case TString
  define b0 where "b0 = snd (EnsureAvailable 64 False a b)"
  note e = EnsureAvailable_snd [OF assms(1,2) b0_def]
  have "ptr_ok (string_ptr r)" "0 + 14 \<le> length (buf_data b0)" using assms(4,6) e by (auto simp: result_ok_def)
  then obtain l io where "StrToIovecs (string_ptr r) 0 b0 [] =
        Some (length l, b0\<lparr>buf_data := write_at 0 l (buf_data b0)\<rparr>, [] @ io)"
    and "gather (b0\<lparr>buf_data := write_at 0 l (buf_data b0)\<rparr>) io = bulk_or_nil (string_ptr r)"
    by (rule StrToIovecs_correct [where iovecs = "[]"]) simp
  then show ?thesis
    using TString e assms(4)
    by (simp add: send_reply_def NeedsGather_def ResultToIovecs_def encode_reply_def Let_def flip: b0_def)
next
  case TStrings
  define b0 where "b0 = snd (EnsureAvailable (length (rstrings r) * 32) False a b)"
  note e = EnsureAvailable_snd [OF assms(1,2) b0_def]
  let ?n = "length (rstrings r)"
  let ?l = "reply_line CHR ''*'' (int ?n)"
  have ll: "length ?l \<le> 13" using assms(6) length_to_chars32 [of "int ?n"]
    by (simp add: length_reply_line result_ok_def)
  have fit: "0 + 14 \<le> length (buf_data b0)" "0 + length ?l \<le> length (buf_data b0)" using e assms(5) ll by auto
  obtain b1 where b1: "put_char 0 CHR ''*'' b0 = Some b1" "IntToChars (int ?n) (0 + 1) b1 =
      Some (length (to_chars (int ?n)) + 2, b0\<lparr>buf_data := write_at 0 ?l (buf_data b0)\<rparr>)"
    by (rule write_line [OF fit])
  let ?b2 = "b0\<lparr>buf_data := write_at 0 ?l (buf_data b0)\<rparr>"
  have "length ?l + 13 * ?n + 1 \<le> length (buf_data ?b2)"
    using write_at_simps(1) [OF fit(2)] e(5,6) assms(4,5) ll by (cases "?n \<le> 2") auto
  then obtain cursor d io where s: "strings_to_iovecs (rstrings r) (length ?l) ?b2 [IoBuffer 0 (length ?l)] =
        Some (cursor, ?b2\<lparr>buf_data := d\<rparr>, [IoBuffer 0 (length ?l)] @ io)"
    and d: "take (length ?l) d = take (length ?l) (buf_data ?b2)"
    and g: "gather (?b2\<lparr>buf_data := d\<rparr>) io = concat (map bulk_or_nil (rstrings r))"
    using strings_to_iovecs_correct [of "rstrings r" "length ?l" ?b2 "[IoBuffer 0 (length ?l)]"] assms(6)
    by (auto simp: result_ok_def)
  have "take (length ?l) d = ?l" using d write_at_simps(3) [OF fit(2)] by simp
  then have "gather (?b2\<lparr>buf_data := d\<rparr>) ([IoBuffer 0 (length ?l)] @ io) = encode_reply r"
    using g TStrings unfolding gather_append by (simp add: gather_def encode_reply_def reply_line_def)
  moreover have "ResultToIovecs a r b [] =
      map_option snd (strings_to_iovecs (rstrings r) (length ?l) ?b2 [IoBuffer 0 (length ?l)])"
    using TStrings e b1 assms(4)
    by (simp add: ResultToIovecs_def Let_def length_reply_line numeral_3_eq_3 flip: b0_def)
  ultimately show ?thesis
    using TStrings s by (simp add: send_reply_def NeedsGather_def)
qed (simp_all add: send_reply_def NeedsGather_def ResultToStringView_def encode_reply_def)

text \<open>A reply keeps the output buffer in its own memory and never shrinks it.\<close>

definition grown :: "buffer \<Rightarrow> buffer \<Rightarrow> bool" where
  "grown b b' \<longleftrightarrow> virtual_view b' = virtual_view b \<and> length (buf_data b) \<le> length (buf_data b')"

lemma grown_trans: "grown a b \<Longrightarrow> grown b c \<Longrightarrow> grown a c"
  by (auto simp: grown_def)

lemma grown_refl [simp]: "grown b b"
  by (simp add: grown_def)

lemma grown_writes:
  "put_char i c b = Some b' \<Longrightarrow> grown b b'" "IntToChars v off b = Some (n, b') \<Longrightarrow> grown b b'"
  "Produce m b = Some b' \<Longrightarrow> grown b b'" "grown b (snd (EnsureAvailable m g a b))"
  by (auto simp: grown_def put_char_def IntToChars_def write_at_def Produce_def EnsureAvailable_def Let_def split: if_splits)

lemma StrToIovecs_grown: "StrToIovecs str off b io = Some (n, b', io') \<Longrightarrow> grown b b'"
  by (auto simp: StrToIovecs_def Let_def split: option.splits intro: grown_trans grown_writes)

lemma strings_to_iovecs_grown: "strings_to_iovecs strs off b io = Some (n, b', io') \<Longrightarrow> grown b b'"
  by (induction strs off b io rule: strings_to_iovecs.induct)
    (auto split: option.splits intro: grown_trans StrToIovecs_grown)

lemma ResultToIovecs_grown:
  assumes "ResultToIovecs a r b io = Some (b', io')"
  shows "grown b b'"
proof (cases "rtype r = TString")
  case True
  then show ?thesis
    using assms grown_trans [OF grown_writes(4) StrToIovecs_grown]
    by (auto simp: ResultToIovecs_def Let_def split: if_splits)
next
  case False
  define b0 where "b0 = snd (EnsureAvailable (length (rstrings r) * 32) False a b)"
  obtain b1 n b2 m where "put_char (write_index b0) CHR ''*'' b0 = Some b1"
      "IntToChars (int (length (rstrings r))) (write_index b0 + 1) b1 = Some (n, b2)"
      "strings_to_iovecs (rstrings r) (write_index b0 + (n + 1)) b2 (io @ [IoBuffer (write_index b0) (n + 1)]) = Some (m, b', io')"
    using assms False unfolding b0_def by (auto simp: ResultToIovecs_def Let_def split: if_splits option.splits)
  then have "grown b0 b1" "grown b1 b2" "grown b2 b'" by (blast intro: grown_writes strings_to_iovecs_grown)+
  then have "grown b0 b'" by (metis grown_trans)
  then show ?thesis using grown_trans [OF grown_writes(4)] unfolding b0_def by blast
qed

lemma ResultToStringView_grown:
  assumes "ResultToStringView a r b = Some (bytes, b')"
  shows "grown b b'"
proof (cases "rtype r = TInt")
  case True
  define b0 where "b0 = snd (EnsureAvailable 32 False a b)"
  obtain b1 n b2 where "put_char (write_index b0) CHR '':'' b0 = Some b1"
      "IntToChars (int_value r) (write_index b1 + 1) b1 = Some (n, b2)" "Produce (n + 1) b2 = Some b'"
    using assms True unfolding b0_def by (auto simp: ResultToStringView_def Let_def split: if_splits option.splits)
  then have "grown b0 b1" "grown b1 b2" "grown b2 b'" by (blast intro: grown_writes)+
  then have "grown b0 b'" by (metis grown_trans)
  then show ?thesis using grown_trans [OF grown_writes(4)] unfolding b0_def by blast
qed (use assms in \<open>auto simp: ResultToStringView_def split: result_type.splits\<close>)

lemma send_reply_grown: "send_reply a r b = Some (bytes, b') \<Longrightarrow> grown b b'"
  by (auto simp: send_reply_def split: if_splits intro: ResultToIovecs_grown ResultToStringView_grown)

text \<open>
  C8. Replies. On an output buffer between commands (1024 bytes or more, nothing written), every
  result is sent without a write outside the buffer or a failed assertion, and the bytes sent are
  the RESP encoding of the result.
\<close>

theorem send_reply_encodes:
  assumes "buffer_inv b" and "\<not> virtual_view b" and "read_index b = 0" and "write_index b = 0"
    and "1024 \<le> length (buf_data b)" and "result_ok r"
  shows "\<exists>b'. send_reply a r b = Some (encode_reply r, b')"
  using assms by (rule send_reply_ok)

definition example_reply :: result where
  "example_reply = AddString None (AddString (Some ''ab'') Result_init)"

theorem send_reply_witness:
  "\<exists>b'. send_reply 0 example_reply (Buffer_init 1024 64) =
     Some (''*2'' @ CRLF @ ''$2'' @ CRLF @ ''ab'' @ CRLF @ ''$-1'' @ CRLF, b')"
proof -
  have "encode_reply example_reply = ''*2'' @ CRLF @ ''$2'' @ CRLF @ ''ab'' @ CRLF @ ''$-1'' @ CRLF"
    by code_simp
  moreover have "result_ok example_reply"
    by (simp add: result_ok_def example_reply_def AddString_def Result_init_def)
  moreover have "\<not> virtual_view (Buffer_init 1024 64) \<and> read_index (Buffer_init 1024 64) = 0 \<and>
      write_index (Buffer_init 1024 64) = 0 \<and> 1024 \<le> length (buf_data (Buffer_init 1024 64))"
    by (simp add: Buffer_init_def)
  ultimately show ?thesis
    using send_reply_encodes [OF buffer_inv_init, of 1024 64 example_reply 0] by simp
qed

text \<open>
  The replier and the parser agree on the protocol: an array reply without null elements, read
  back by a multi-bulk parser, gives the strings of the array.
\<close>

theorem array_reply_roundtrip:
  assumes "rtype r = TStrings" and "rstrings r = map Some ss" and "encodable ss"
    and "buffer_inv b" and "unread b = encode_reply r"
  shows "\<exists>p' b' result'. MultiBulk_Parse MultiBulkParser_init b result = Some (p', b', result') \<and>
    GetResultSize p' = Some (length ss) \<and> map (chars b) (take (length ss) result') = ss"
proof -
  have e: "unread b = multibulk ss @ []"
    using assms(1,2,5) by (simp add: encode_reply_def multibulk_def mbulk_header_def bulks_def o_def)
  have "\<not> InProgress MultiBulkParser_init" "cur_arg_idx MultiBulkParser_init = 0"
    by (simp_all add: InProgress_def MultiBulkParser_init_def)
  moreover have "expecting ss [] MultiBulkParser_init b result"
    using assms(4) e calculation by (simp add: expecting_def pending_def)
  ultimately obtain p' k result' where
    r: "MultiBulk_Parse MultiBulkParser_init b result = Some (p', b\<lparr>read_index := read_index b + k\<rparr>, result')"
    and o: "parse_outcome ss [] MultiBulkParser_init b p' k result'"
    using Parse_outcome [of ss "[]" MultiBulkParser_init b result] e assms(3)
    by (auto simp: multibulk_def mbulk_header_def)
  then have "pstate p' = kDone" "decoded ss p' b result'" "cur_arg_idx p' = length ss"
    using e \<open>\<not> InProgress MultiBulkParser_init\<close> by (simp_all add: parse_outcome_def pending_def)
  then have "GetResultSize p' = Some (length ss) \<and> map (chars b) (take (length ss) result') = ss"
    by (auto simp: decoded_def GetResultSize_def intro!: nth_equalityI)
  then show ?thesis using r by blast
qed

definition array_reply :: result where
  "array_reply = AddString (Some ''ab'') Result_init"

theorem array_reply_roundtrip_witness:
  "\<exists>p' b' result'. MultiBulk_Parse MultiBulkParser_init (received (encode_reply array_reply)) [] =
     Some (p', b', result') \<and> GetResultSize p' = Some 1 \<and>
     map (chars (received (encode_reply array_reply))) (take 1 result') = [''ab'']"
  using array_reply_roundtrip [of array_reply "[''ab'']" "received (encode_reply array_reply)" "[]"]
  by (simp add: array_reply_def AddString_def Result_init_def encodable_def)

end
