(* ===== verification/Config.thy ===== *)
theory Config
  imports CharConv
begin

text \<open>
  The configuration of \<open>src/src/base/config.h\<close> and \<open>config.cc\<close>: the structure with its default
  values, the names of the eviction policies, the sanity check and the printed form.
  \<open>LOG(FATAL)\<close>, which ends the process, is \<open>None\<close>.
\<close>

datatype MaxmemoryPolicy = kNoEviction | kAllKeysRandom | kAllKeysLru

definition MaxmemoryPolicyStrToEnum :: "string \<Rightarrow> MaxmemoryPolicy option" where
  "MaxmemoryPolicyStrToEnum str =
     (if str = ''noeviction'' then Some kNoEviction
      else if str = ''allkeys-random'' then Some kAllKeysRandom
      else if str = ''allkeys-lru'' then Some kAllKeysLru
      else None)"

fun MaxmemoryPolicyEnumToStr :: "MaxmemoryPolicy \<Rightarrow> string" where
  "MaxmemoryPolicyEnumToStr kNoEviction = ''noeviction''"
| "MaxmemoryPolicyEnumToStr kAllKeysRandom = ''allkeys-random''"
| "MaxmemoryPolicyEnumToStr kAllKeysLru = ''allkeys-lru''"

record config =
  port :: nat
  hz :: nat
  maxclients :: nat
  maxmemory :: nat
  maxmemory_policy :: MaxmemoryPolicy
  maxmemory_samples :: nat
  active_expire_cycle_time_percent :: nat
  active_expire_acceptable_stale_percent :: nat
  active_expire_keys_per_loop :: nat
  client_executors :: nat
  sqpoll :: bool
  max_direct_fds_per_exr :: nat
  use_ring_buffer :: bool
  submit_batch_size :: nat
  wait_batch_size :: nat

text \<open>The default member initializers.\<close>

definition Config_default :: config where
  "Config_default =
     \<lparr>port = 6379, hz = 10, maxclients = 10000, maxmemory = 0, maxmemory_policy = kNoEviction,
      maxmemory_samples = 5, active_expire_cycle_time_percent = 25,
      active_expire_acceptable_stale_percent = 10, active_expire_keys_per_loop = 20,
      client_executors = 2, sqpoll = False, max_direct_fds_per_exr = 4096, use_ring_buffer = True,
      submit_batch_size = 32, wait_batch_size = 1\<rparr>"

definition SanityCheck :: "config \<Rightarrow> unit option" where
  "SanityCheck c =
     (if active_expire_cycle_time_percent c = 0 \<or> active_expire_cycle_time_percent c > 40 then None
      else if active_expire_acceptable_stale_percent c > 100 then None
      else Some ())"

text \<open>A stream prints an unsigned number in decimal and a \<open>bool\<close> as 0 or 1.\<close>

definition put_nat :: "nat \<Rightarrow> string" where
  "put_nat n = nat_digits n"

definition put_bool :: "bool \<Rightarrow> string" where
  "put_bool b = (if b then ''1'' else ''0'')"

definition ToString :: "config \<Rightarrow> string" where
  "ToString c =
     ''Configs: ['' @
     ''port:'' @ put_nat (port c) @ '', '' @
     ''hz:'' @ put_nat (hz c) @ '', '' @
     ''maxclients:'' @ put_nat (maxclients c) @ '', '' @
     ''maxmemory:'' @ put_nat (maxmemory c) @ '', '' @
     ''maxmemory-policy:'' @ MaxmemoryPolicyEnumToStr (maxmemory_policy c) @ '', '' @
     ''maxmemory-samples:'' @ put_nat (maxmemory_samples c) @ '', '' @
     ''active_expire_cycle_time_percent:'' @ put_nat (active_expire_cycle_time_percent c) @ '', '' @
     ''active_expire_acceptable_stale_percent:'' @ put_nat (active_expire_acceptable_stale_percent c) @ '', '' @
     ''active_expire_keys_per_loop:'' @ put_nat (active_expire_keys_per_loop c) @ '','' @
     ''client_executors:'' @ put_nat (client_executors c) @ '', '' @
     ''sqpoll:'' @ put_bool (sqpoll c) @ '', '' @
     ''max_direct_fds_per_exr:'' @ put_nat (max_direct_fds_per_exr c) @ '', '' @
     ''use_ring_buffer:'' @ put_bool (use_ring_buffer c) @ '', '' @
     ''submit_batch_size:'' @ put_nat (submit_batch_size c) @ '', '' @
     ''wait_batch_size:'' @ put_nat (wait_batch_size c) @
     ''].''"

definition DisableSqpoll :: "config \<Rightarrow> config" where
  "DisableSqpoll src = src\<lparr>sqpoll := False\<rparr>"

end
