(* ===== verification/Service.thy ===== *)
theory Service
  imports HashTableSpec Replier Config
begin

text \<open>
  The data structure service of \<open>src/src/service/data_structure_service.cc\<close>: its state and the
  operations that the commands are built from. The state holds the two hash tables, the data table
  from keys to shared strings and the expire table from keys to time points, which are 64-bit
  numbers of milliseconds. \<open>live\<close> is the key space a client sees: the keys that have not expired.
\<close>

section \<open>State\<close>

text \<open>
  The service with its evictor (clock, pool of candidates, counter) and its expirer (cursor and
  statistics). A candidate of the pool is a last access time and the string of its key.
\<close>

record dss =
  dconfig :: config
  active :: bool
  data_ht :: "mts_ptr htable"
  expire_ht :: "int htable"
  command_time_snapshot :: int
  commands_processed :: "64 word"
  lru_clock :: "32 word"
  eviction_pool :: "(32 word \<times> string) list"
  evicted_keys :: "64 word"
  bucket_index :: nat
  active_expired_keys :: "64 word"
  expired_stale_perc :: nat
  expired_time_cap_reached_count :: nat
  expire_elapsed_time :: int

text \<open>The constructor; \<open>lru_now\<close> is the time that the evictor reads first.\<close>

definition DataStructureService_init :: "config \<Rightarrow> 32 word \<Rightarrow> dss" where
  "DataStructureService_init cfg lru_now =
     \<lparr>dconfig = cfg, active = True, data_ht = HashTable_init, expire_ht = HashTable_init,
      command_time_snapshot = 0, commands_processed = 0, lru_clock = lru_now, eviction_pool = [],
      evicted_keys = 0, bucket_index = 0, active_expired_keys = 0, expired_stale_perc = 0,
      expired_time_cap_reached_count = 0, expire_elapsed_time = 0\<rparr>"

section \<open>Access to the two tables\<close>

text \<open>
  The table operations on the service state. An entry pointer is known by its key, so a lookup
  returns the value of the entry. An entry that does not exist yet gets a null pointer, and
  in the expire table the time point 0. The expire table shares the key objects of the data table;
  its copy of the last access time is never read and is the LRU clock here.
\<close>

definition data_Find :: "hash_fn \<Rightarrow> dss \<Rightarrow> string \<Rightarrow> mts_ptr option \<times> dss" where
  "data_Find h s key = (let (e, t) = Find h None (data_ht s) key in (map_option evalue e, s\<lparr>data_ht := t\<rparr>))"

definition data_FindOrCreate :: "hash_fn \<Rightarrow> dss \<Rightarrow> string \<Rightarrow> (mts_ptr \<times> bool) \<times> dss" where
  "data_FindOrCreate h s key =
     (let ((e, exists), t) = FindOrCreate h None (data_ht s) key True
      in ((case e of None \<Rightarrow> None | Some entry \<Rightarrow> evalue entry, exists), s\<lparr>data_ht := t\<rparr>))"

definition data_Upsert :: "hash_fn \<Rightarrow> dss \<Rightarrow> string \<Rightarrow> mts_ptr \<Rightarrow> bool \<times> dss" where
  "data_Upsert h s key v = (let (exists, t) = Upsert h None (data_ht s) key v in (exists, s\<lparr>data_ht := t\<rparr>))"

definition data_Insert :: "hash_fn \<Rightarrow> dss \<Rightarrow> string \<Rightarrow> mts_ptr \<Rightarrow> bool \<times> dss" where
  "data_Insert h s key v = (let (inserted, t) = Insert h None (data_ht s) key v in (inserted, s\<lparr>data_ht := t\<rparr>))"

definition data_Erase :: "hash_fn \<Rightarrow> dss \<Rightarrow> string \<Rightarrow> bool \<times> dss" where
  "data_Erase h s key = (let (erased, t) = Erase h (data_ht s) key in (erased, s\<lparr>data_ht := t\<rparr>))"

definition data_set_value :: "string \<Rightarrow> mts_ptr \<Rightarrow> dss \<Rightarrow> dss" where
  "data_set_value key v s = s\<lparr>data_ht := set_value key v (data_ht s)\<rparr>"

definition touch :: "string \<Rightarrow> dss \<Rightarrow> dss" where
  "touch key s = s\<lparr>data_ht := set_key_lru key (lru_clock s) (data_ht s)\<rparr>"

definition expire_Find :: "hash_fn \<Rightarrow> dss \<Rightarrow> string \<Rightarrow> int option \<times> dss" where
  "expire_Find h s key = (let (e, t) = Find h 0 (expire_ht s) key in (map_option evalue e, s\<lparr>expire_ht := t\<rparr>))"

definition expire_Erase :: "hash_fn \<Rightarrow> dss \<Rightarrow> string \<Rightarrow> bool \<times> dss" where
  "expire_Erase h s key = (let (erased, t) = Erase h (expire_ht s) key in (erased, s\<lparr>expire_ht := t\<rparr>))"

definition expire_Upsert :: "hash_fn \<Rightarrow> dss \<Rightarrow> string \<Rightarrow> int \<Rightarrow> bool \<times> dss" where
  "expire_Upsert h s key tp = (let (exists, t) = Upsert h 0 (expire_ht s) key tp in (exists, s\<lparr>expire_ht := t\<rparr>))"

definition expire_Upsert_key :: "hash_fn \<Rightarrow> dss \<Rightarrow> string \<Rightarrow> int \<Rightarrow> bool \<times> dss" where
  "expire_Upsert_key h s key tp =
     (let (exists, t) = Upsert_key h 0 (expire_ht s) \<lparr>key_data = key, key_lru = lru_clock s\<rparr> tp
      in (exists, s\<lparr>expire_ht := t\<rparr>))"

section \<open>Operations of the service\<close>

definition GetCommandTimeSnapshot :: "dss \<Rightarrow> int" where
  "GetCommandTimeSnapshot s = command_time_snapshot s"

text \<open>\<open>clock_->Now()\<close> is the argument \<open>now\<close>.\<close>

definition UpdateCommandTime :: "int \<Rightarrow> dss \<Rightarrow> dss" where
  "UpdateCommandTime now s = s\<lparr>command_time_snapshot := now\<rparr>"

definition FindOrExpire :: "hash_fn \<Rightarrow> dss \<Rightarrow> string \<Rightarrow> mts_ptr option \<times> dss" where
  "FindOrExpire h s key =
     (let (entry, s1) = data_Find h s key
      in case entry of
           None \<Rightarrow> (None, s1)
         | Some v \<Rightarrow>
             (let (expire_entry, s2) = expire_Find h s1 key
              in case expire_entry of
                   None \<Rightarrow> (Some v, s2)
                 | Some tp \<Rightarrow>
                     if GetCommandTimeSnapshot s2 < tp then (Some v, s2)
                     else (None, snd (expire_Erase h (snd (data_Erase h s2 key)) key))))"

definition EraseKey :: "hash_fn \<Rightarrow> dss \<Rightarrow> string \<Rightarrow> dss" where
  "EraseKey h s key =
     (let (erased, s1) = data_Erase h s key
      in if \<not> erased then s1 else snd (expire_Erase h s1 key))"

datatype SetMode = kRegular | kNX | kXX

datatype SetStatus = kNoOp | kInserted | kUpdated

text \<open>
  \<open>SetData\<close>: the status and the old value (the entry is the one of \<open>key\<close>, or null exactly when the
  status is \<open>kNoOp\<close>). The three branches of its \<open>switch\<close> are functions of their own. In the
  branch with \<open>get\<close>, the status is computed from the outer \<open>exists\<close>, which stays false.
\<close>

definition set_regular :: "hash_fn \<Rightarrow> dss \<Rightarrow> string \<Rightarrow> string \<Rightarrow> bool \<Rightarrow> (SetStatus \<times> mts_ptr) \<times> dss" where
  "set_regular h s key value get =
     (if \<not> get
      then (let (exists, s1) = data_Upsert h s key (Some value)
            in ((if exists then kUpdated else kInserted, None), s1))
      else (let ((v, exists), s1) = data_FindOrCreate h s key;
                (old_value, s2) =
                  (if exists
                   then (let (expire_entry, s2) = expire_Find h s1 key
                         in (if (case expire_entry of None \<Rightarrow> True | Some tp \<Rightarrow> tp > GetCommandTimeSnapshot s2)
                             then v else None, s2))
                   else (None, s1))
            in ((kInserted, old_value), data_set_value key (Some value) s2)))"

definition set_nx :: "hash_fn \<Rightarrow> dss \<Rightarrow> string \<Rightarrow> string \<Rightarrow> (SetStatus \<times> mts_ptr) \<times> dss" where
  "set_nx h s key value =
     (let (data_entry, s1) = data_Find h s key
      in if data_entry \<noteq> None
         then (let (expire_entry, s2) = expire_Find h s1 key
               in case expire_entry of
                    None \<Rightarrow> ((kNoOp, None), s2)
                  | Some tp \<Rightarrow>
                      if tp \<le> GetCommandTimeSnapshot s2
                      then ((kInserted, None), snd (expire_Erase h (data_set_value key (Some value) s2) key))
                      else ((kNoOp, None), s2))
         else ((kInserted, None), snd (data_Insert h s1 key (Some value))))"

definition set_xx :: "hash_fn \<Rightarrow> dss \<Rightarrow> string \<Rightarrow> string \<Rightarrow> bool \<Rightarrow> (SetStatus \<times> mts_ptr) \<times> dss" where
  "set_xx h s key value get =
     (let (data_entry, s1) = data_Find h s key
      in case data_entry of
           None \<Rightarrow> ((kNoOp, None), s1)
         | Some v \<Rightarrow>
             (let (expire_entry, s2) = expire_Find h s1 key
              in if (case expire_entry of None \<Rightarrow> False | Some tp \<Rightarrow> tp \<le> GetCommandTimeSnapshot s2)
                 then ((kNoOp, None), snd (expire_Erase h (snd (data_Erase h s2 key)) key))
                 else ((kUpdated, if get then v else None), data_set_value key (Some value) s2)))"

definition SetData :: "hash_fn \<Rightarrow> dss \<Rightarrow> string \<Rightarrow> string \<Rightarrow> SetMode \<Rightarrow> bool \<Rightarrow> (SetStatus \<times> mts_ptr) \<times> dss" where
  "SetData h s key value set_mode get =
     (let ((set_status, old_value), s1) =
            (case set_mode of
               kRegular \<Rightarrow> set_regular h s key value get
             | kNX \<Rightarrow> set_nx h s key value
             | kXX \<Rightarrow> set_xx h s key value get)
      in ((set_status, old_value), if set_status \<noteq> kNoOp then touch key s1 else s1))"

text \<open>
  \<open>IncrementalRehashing\<close>: for each table that is rehashing, rounds of \<open>RehashSome(100)\<close> until the
  rehash ends or the time is up; \<open>rounds\<close> is the number of rounds that the time allows, at least 1.
\<close>

fun rehash_rounds :: "hash_fn \<Rightarrow> nat \<Rightarrow> 'v htable \<Rightarrow> 'v htable" where
  "rehash_rounds h 0 t = t"
| "rehash_rounds h (Suc n) t =
     (let (finished, t') = RehashSome h 100 t in if finished then t' else rehash_rounds h n t')"

definition rehash_table :: "hash_fn \<Rightarrow> nat \<Rightarrow> 'v htable \<Rightarrow> 'v htable" where
  "rehash_table h n t = (if \<not> IsRehashing t then t else rehash_rounds h n t)"

definition IncrementalRehashing :: "hash_fn \<Rightarrow> nat \<Rightarrow> nat \<Rightarrow> dss \<Rightarrow> dss" where
  "IncrementalRehashing h n m s =
     s\<lparr>data_ht := rehash_table h n (data_ht s), expire_ht := rehash_table h m (expire_ht s)\<rparr>"

text \<open>
  \<open>Shutdown\<close> fulfils a promise, which throws the second time. The promise is fulfilled exactly when
  \<open>active\<close> has been cleared.
\<close>

definition Shutdown :: "dss \<Rightarrow> dss option" where
  "Shutdown s = (if active s then Some (s\<lparr>active := False\<rparr>) else None)"

section \<open>The key space\<close>

definition dat :: "dss \<Rightarrow> string \<rightharpoonup> mts_ptr" where
  "dat s = vmap (data_ht s)"

definition ext :: "dss \<Rightarrow> string \<rightharpoonup> int" where
  "ext s = vmap (expire_ht s)"

text \<open>A position of the scan through a table: what \<open>TraverseBucket\<close> asserts of its index.\<close>

definition is_cursor :: "'v htable \<Rightarrow> nat \<Rightarrow> bool" where
  "is_cursor t i \<longleftrightarrow> i = 0 \<or> i < length (buckets0 t)"

definition tables_ok :: "hash_fn \<Rightarrow> dss \<Rightarrow> bool" where
  "tables_ok h s \<longleftrightarrow> ht_inv h (data_ht s) \<and> ht_inv h (expire_ht s) \<and> is_cursor (expire_ht s) (bucket_index s)"

text \<open>There is room for \<open>n\<close> more keys.\<close>

definition room :: "nat \<Rightarrow> dss \<Rightarrow> bool" where
  "room n s \<longleftrightarrow> card (dom (dat s)) + n < 1073741824"

definition svc_inv :: "hash_fn \<Rightarrow> dss \<Rightarrow> bool" where
  "svc_inv h s \<longleftrightarrow> tables_ok h s \<and> dom (ext s) \<subseteq> dom (dat s) \<and> None \<notin> ran (dat s)"

definition expired :: "dss \<Rightarrow> string \<Rightarrow> bool" where
  "expired s k \<longleftrightarrow> (case ext s k of None \<Rightarrow> False | Some tp \<Rightarrow> tp \<le> command_time_snapshot s)"

text \<open>What a client sees of a key: its value and the time at which it expires, if any.\<close>

definition live :: "dss \<Rightarrow> string \<rightharpoonup> string \<times> int option" where
  "live s k = (case dat s k of Some (Some v) \<Rightarrow> if expired s k then None else Some (v, ext s k) | _ \<Rightarrow> None)"

section \<open>Effects on the key space\<close>

text \<open>Everything of the state but the two tables.\<close>

definition aux :: "dss \<Rightarrow> dss" where
  "aux s = s\<lparr>data_ht := HashTable_init, expire_ht := HashTable_init\<rparr>"

lemma aux_simps [simp]:
  "aux (s\<lparr>data_ht := d\<rparr>) = aux s" "aux (s\<lparr>expire_ht := e\<rparr>) = aux s"
  by (simp_all add: aux_def)

lemma aux_fields:
  assumes "aux s' = aux s"
  shows "command_time_snapshot s' = command_time_snapshot s" "lru_clock s' = lru_clock s"
    "dconfig s' = dconfig s" "active s' = active s" "commands_processed s' = commands_processed s"
    "eviction_pool s' = eviction_pool s" "evicted_keys s' = evicted_keys s" "bucket_index s' = bucket_index s"
    "active_expired_keys s' = active_expired_keys s"
  using arg_cong [OF assms, of command_time_snapshot] arg_cong [OF assms, of lru_clock]
    arg_cong [OF assms, of dconfig] arg_cong [OF assms, of active]
    arg_cong [OF assms, of commands_processed] arg_cong [OF assms, of eviction_pool]
    arg_cong [OF assms, of evicted_keys] arg_cong [OF assms, of bucket_index]
    arg_cong [OF assms, of active_expired_keys]
  by (simp_all add: aux_def)

lemma finite_dat: "finite (dom (dat s))"
proof -
  have "dom (dat s) = dom (ht_map (data_ht s))" by (auto simp: dat_def vmap_def)
  then show ?thesis by (simp add: finite_ht_map)
qed

lemma finite_ext: "finite (dom (ext s))"
proof -
  have "dom (ext s) = dom (ht_map (expire_ht s))" by (auto simp: ext_def vmap_def)
  then show ?thesis by (simp add: finite_ht_map)
qed

lemma dom_vmap_ht: "dom (vmap t) = dom (ht_map t)"
  by (auto simp: vmap_def)

lemma data_room: "tables_ok h s \<Longrightarrow> room n s \<Longrightarrow> ht_room (data_ht s)"
  using entries_card [of h "data_ht s"]
  by (simp add: ht_room_def tables_ok_def room_def dat_def dom_vmap_ht)

lemma expire_room:
  assumes "tables_ok h s" and "room n s" and "dom (ext s) \<subseteq> dom (dat s)"
  shows "ht_room (expire_ht s)"
proof -
  have "card (dom (ext s)) \<le> card (dom (dat s))" by (rule card_mono [OF finite_dat assms(3)])
  then show ?thesis
    using assms(1,2) entries_card [of h "expire_ht s"]
    by (simp add: ht_room_def tables_ok_def room_def ext_def dom_vmap_ht)
qed

text \<open>
  The effect of an access: the tables stay well formed, the contents are the given maps, and the
  rest of the state is unchanged.
\<close>

definition effect :: "hash_fn \<Rightarrow> dss \<Rightarrow> dss \<Rightarrow> (string \<rightharpoonup> mts_ptr) \<Rightarrow> (string \<rightharpoonup> int) \<Rightarrow> bool" where
  "effect h s s' d e \<longleftrightarrow> tables_ok h s' \<and> dat s' = d \<and> ext s' = e \<and> aux s' = aux s"

lemma effectD:
  assumes "effect h s s' d e"
  shows "tables_ok h s'" "dat s' = d" "ext s' = e" "aux s' = aux s"
    "command_time_snapshot s' = command_time_snapshot s" "lru_clock s' = lru_clock s"
  using assms aux_fields [of s' s] by (simp_all add: effect_def)

lemma effect_refl: "tables_ok h s \<Longrightarrow> effect h s s (dat s) (ext s)"
  by (simp add: effect_def)

lemma effect_trans: "effect h s s1 d1 e1 \<Longrightarrow> effect h s1 s2 d2 e2 \<Longrightarrow> effect h s s2 d2 e2"
  by (simp add: effect_def)

lemma is_cursor_grow: "is_cursor t i \<Longrightarrow> length (buckets0 t) \<le> length (buckets0 t') \<Longrightarrow> is_cursor t' i"
  by (auto simp: is_cursor_def)

lemma is_cursor_kept:
  assumes "is_cursor t i" and "ht_inv h t"
  shows "is_cursor (snd (Find h dv t k)) i" and "is_cursor (snd (Erase h t k)) i"
    and "ht_room t \<Longrightarrow> is_cursor (snd (Upsert h dv t k v)) i"
    and "ht_room t \<Longrightarrow> is_cursor (snd (Upsert_key h dv t kp v)) i"
  using FindOrCreate_grows [OF assms(2) _ prod.collapse [symmetric]] Erase_grows [OF assms(2) prod.collapse [symmetric]]
  by (auto intro!: is_cursor_grow [OF assms(1)]
      simp: Find_def Upsert_def Upsert_key_def set_value_def split_def Let_def)

lemma data_Find_effect:
  assumes "tables_ok h s"
  shows "fst (data_Find h s k) = dat s k" and "effect h s (snd (data_Find h s k)) (dat s) (ext s)"
  using assms by (simp_all add: data_Find_def split_def Let_def effect_def tables_ok_def dat_def ext_def
      vmap_def fun_eq_iff ht.find_result ht.find_view ht.find_inv)

lemma expire_Find_effect:
  assumes "tables_ok h s"
  shows "fst (expire_Find h s k) = ext s k" and "effect h s (snd (expire_Find h s k)) (dat s) (ext s)"
  using assms by (simp_all add: expire_Find_def split_def Let_def effect_def tables_ok_def dat_def ext_def
      vmap_def fun_eq_iff ht.find_result ht.find_view ht.find_inv is_cursor_kept)

lemma data_Erase_effect:
  assumes "tables_ok h s"
  shows "fst (data_Erase h s k) \<longleftrightarrow> dat s k \<noteq> None"
    and "effect h s (snd (data_Erase h s k)) ((dat s)(k := None)) (ext s)"
  using assms by (simp_all add: data_Erase_def split_def Let_def effect_def tables_ok_def dat_def ext_def
      vmap_def fun_eq_iff ht.erase_result ht.erase_view ht.erase_inv)

lemma expire_Erase_effect:
  assumes "tables_ok h s"
  shows "effect h s (snd (expire_Erase h s k)) (dat s) ((ext s)(k := None))"
  using assms by (simp add: expire_Erase_def split_def Let_def effect_def tables_ok_def dat_def ext_def
      vmap_def fun_eq_iff ht.erase_view ht.erase_inv is_cursor_kept)

lemma data_set_value_effect:
  assumes "tables_ok h s" and "dat s k \<noteq> None"
  shows "effect h s (data_set_value k v s) ((dat s)(k \<mapsto> v)) (ext s)"
  using assms by (auto simp: data_set_value_def effect_def tables_ok_def dat_def ext_def
      set_value_correct set_value_vmap)

lemma touch_effect:
  assumes "tables_ok h s"
  shows "effect h s (touch k s) (dat s) (ext s)"
  using assms by (auto simp: touch_def effect_def tables_ok_def dat_def ext_def set_key_lru_correct set_key_lru_vmap)

lemma data_FindOrCreate_effect:
  assumes "tables_ok h s" and "room n s"
  shows "fst (data_FindOrCreate h s k) = (case dat s k of None \<Rightarrow> (None, False) | Some v \<Rightarrow> (v, True))"
    and "effect h s (snd (data_FindOrCreate h s k)) ((dat s)(k \<mapsto> (case dat s k of None \<Rightarrow> None | Some v \<Rightarrow> v))) (ext s)"
proof -
  have t: "ht_inv h (data_ht s)" "ht_room (data_ht s)" using assms data_room by (auto simp: tables_ok_def)
  show "fst (data_FindOrCreate h s k) = (case dat s k of None \<Rightarrow> (None, False) | Some v \<Rightarrow> (v, True))"
    using ht.create_result [OF t, of None k]
    by (simp add: data_FindOrCreate_def split_def Let_def dat_def vmap_def new_entry_def split: option.splits)
  show "effect h s (snd (data_FindOrCreate h s k)) ((dat s)(k \<mapsto> (case dat s k of None \<Rightarrow> None | Some v \<Rightarrow> v))) (ext s)"
    using assms ht.create_inv [OF t, of None k] FindOrCreate_vmap [OF t, of None k]
    by (simp add: data_FindOrCreate_def split_def Let_def effect_def tables_ok_def dat_def ext_def)
qed

lemma data_Upsert_effect:
  assumes "tables_ok h s" and "room n s"
  shows "fst (data_Upsert h s k v) \<longleftrightarrow> dat s k \<noteq> None"
    and "effect h s (snd (data_Upsert h s k v)) ((dat s)(k \<mapsto> v)) (ext s)"
  using assms Upsert_correct [OF _ data_room [OF assms] prod.collapse [symmetric], of h None k v]
  by (simp_all add: data_Upsert_def split_def Let_def effect_def tables_ok_def dat_def ext_def)

lemma data_Insert_effect:
  assumes "tables_ok h s" and "room n s" and "dat s k = None"
  shows "effect h s (snd (data_Insert h s k v)) ((dat s)(k \<mapsto> v)) (ext s)"
  using assms Insert_correct [OF _ data_room [OF assms(1,2)] prod.collapse [symmetric], of h None k v]
  by (simp add: data_Insert_def split_def Let_def effect_def tables_ok_def dat_def ext_def)

lemma expire_Upsert_effect:
  assumes "tables_ok h s" and "room n s" and "dom (ext s) \<subseteq> dom (dat s)"
  shows "effect h s (snd (expire_Upsert h s k tp)) (dat s) ((ext s)(k \<mapsto> tp))"
    and "effect h s (snd (expire_Upsert_key h s k tp)) (dat s) ((ext s)(k \<mapsto> tp))"
  using assms Upsert_correct [OF _ expire_room [OF assms] prod.collapse [symmetric], of h 0 k tp]
    Upsert_key_correct [OF _ expire_room [OF assms] prod.collapse [symmetric], of h 0 "\<lparr>key_data = k, key_lru = lru_clock s\<rparr>" tp]
    expire_room [OF assms]
  by (simp_all add: expire_Upsert_def expire_Upsert_key_def split_def Let_def effect_def tables_ok_def dat_def ext_def
      is_cursor_kept)

text \<open>The effects as rewrite rules, for proofs about the operations that are built from them.\<close>

lemmas find_rules =
  data_Find_effect(1) effectD [OF data_Find_effect(2)]
  expire_Find_effect(1) effectD [OF expire_Find_effect(2)]
  data_Erase_effect(1) effectD [OF data_Erase_effect(2)]
  effectD [OF expire_Erase_effect]

definition found :: "dss \<Rightarrow> string \<Rightarrow> bool" where
  "found s k \<longleftrightarrow> dat s k \<noteq> None \<and> \<not> expired s k"

lemma FindOrExpire_effect:
  assumes "tables_ok h s"
  shows "fst (FindOrExpire h s k) = (if found s k then dat s k else None)"
    and "effect h s (snd (FindOrExpire h s k))
      (if dat s k \<noteq> None \<and> expired s k then (dat s)(k := None) else dat s)
      (if dat s k \<noteq> None \<and> expired s k then (ext s)(k := None) else ext s)"
  using assms
  by (auto simp: FindOrExpire_def split_def Let_def found_def expired_def GetCommandTimeSnapshot_def effect_def
      find_rules split: option.splits)

lemma EraseKey_effect:
  assumes "tables_ok h s"
  shows "effect h s (EraseKey h s k) ((dat s)(k := None)) (if dat s k = None then ext s else (ext s)(k := None))"
  using assms by (auto simp: EraseKey_def split_def Let_def effect_def find_rules)

lemma svc_invD:
  assumes "svc_inv h s"
  shows "tables_ok h s" "dom (ext s) \<subseteq> dom (dat s)" "None \<notin> ran (dat s)" "dat s k = None \<Longrightarrow> ext s k = None"
  using assms by (auto simp: svc_inv_def)

text \<open>The key space after an effect that keeps the clock.\<close>

lemma live_effect:
  assumes "effect h s s' d e"
  shows "live s' k = (case d k of Some (Some v) \<Rightarrow>
     if (case e k of None \<Rightarrow> False | Some tp \<Rightarrow> tp \<le> command_time_snapshot s) then None else Some (v, e k)
   | _ \<Rightarrow> None)"
  using effectD [OF assms] by (auto simp: live_def expired_def split: option.splits)

lemma FindOrExpire_svc:
  assumes "svc_inv h s"
  shows "svc_inv h (snd (FindOrExpire h s k))" and "live (snd (FindOrExpire h s k)) = live s"
    and "fst (FindOrExpire h s k) = map_option (\<lambda>(v, e). Some v) (live s k)"
proof -
  note t = svc_invD [OF assms]
  note ef = FindOrExpire_effect [OF t(1), of k]
  show "svc_inv h (snd (FindOrExpire h s k))"
    using effectD [OF ef(2)] t by (auto simp: svc_inv_def ran_def split: if_splits)
  show "live (snd (FindOrExpire h s k)) = live s"
    using live_effect [OF ef(2)] by (auto simp: fun_eq_iff live_def expired_def split: option.splits if_splits)
  show "fst (FindOrExpire h s k) = map_option (\<lambda>(v, e). Some v) (live s k)"
    using ef(1) t(3) by (auto simp: live_def found_def ran_def split: option.splits)
qed

lemma EraseKey_svc:
  assumes "svc_inv h s"
  shows "svc_inv h (EraseKey h s k)" and "live (EraseKey h s k) = (live s)(k := None)"
proof -
  note t = svc_invD [OF assms]
  note ef = EraseKey_effect [OF t(1), of k]
  show "svc_inv h (EraseKey h s k)"
    using effectD [OF ef] t by (auto simp: svc_inv_def ran_def split: if_splits)
  show "live (EraseKey h s k) = (live s)(k := None)"
    using live_effect [OF ef] by (auto simp: fun_eq_iff live_def expired_def split: option.splits if_splits)
qed

section \<open>SetData\<close>

lemma room_find_rules:
  assumes "tables_ok h s" and "room n s"
  shows "room n (snd (data_Find h s k))" "room n (snd (expire_Find h s k))"
  using assms by (simp_all add: room_def find_rules)

lemma set_regular_effect:
  assumes "tables_ok h s" and "room n s"
  shows "fst (set_regular h s k v get) =
      (if get then (kInserted, if found s k then the (dat s k) else None)
       else (if dat s k = None then kInserted else kUpdated, None))"
    and "effect h s (snd (set_regular h s k v get)) ((dat s)(k \<mapsto> Some v)) (ext s)"
proof -
  note fc = data_FindOrCreate_effect [OF assms, of k]
  note fd = effectD [OF fc(2)]
  note up = data_Upsert_effect [OF assms, of k "Some v"]
  show "fst (set_regular h s k v get) =
      (if get then (kInserted, if found s k then the (dat s k) else None)
       else (if dat s k = None then kInserted else kUpdated, None))"
    using up(1) fc(1) fd expire_Find_effect [OF fd(1), of k] effectD [OF expire_Find_effect(2) [OF fd(1), of k]]
    by (auto simp: set_regular_def split_def Let_def found_def expired_def GetCommandTimeSnapshot_def split: option.splits)
  show "effect h s (snd (set_regular h s k v get)) ((dat s)(k \<mapsto> Some v)) (ext s)"
  proof (cases get)
    case False
    then show ?thesis using up(2) by (simp add: set_regular_def split_def Let_def)
  next
    case True
    let ?s1 = "snd (data_FindOrCreate h s k)"
    let ?s2 = "if snd (fst (data_FindOrCreate h s k)) then snd (expire_Find h ?s1 k) else ?s1"
    have e2: "effect h s ?s2 (dat ?s1) (ext s)"
      using effect_trans [OF fc(2) expire_Find_effect(2) [OF fd(1), of k]] fc(2) fd by simp
    have "snd (set_regular h s k v get) = data_set_value k (Some v) ?s2"
      using True by (simp add: set_regular_def split_def Let_def)
    moreover have "effect h ?s2 (data_set_value k (Some v) ?s2) ((dat ?s2)(k \<mapsto> Some v)) (ext ?s2)"
      by (rule data_set_value_effect) (use effectD [OF e2] fd in auto)
    ultimately show ?thesis using effect_trans [OF e2] effectD [OF e2] fd by simp
  qed
qed

lemma set_nx_effect:
  assumes "tables_ok h s" and "room n s"
  shows "fst (set_nx h s k v) = (if found s k then kNoOp else kInserted, None)"
    and "effect h s (snd (set_nx h s k v)) (if found s k then dat s else (dat s)(k \<mapsto> Some v))
      (if dat s k \<noteq> None \<and> expired s k then (ext s)(k := None) else ext s)"
proof -
  let ?s1 = "snd (data_Find h s k)"
  let ?s2 = "snd (expire_Find h ?s1 k)"
  note f1 = data_Find_effect [OF assms(1), of k]
  note d1 = effectD [OF f1(2)]
  note f2 = expire_Find_effect [OF d1(1), of k]
  have e2: "effect h s ?s2 (dat s) (ext s)" using effect_trans [OF f1(2) f2(2)] d1 by simp
  note d2 = effectD [OF e2]
  show "fst (set_nx h s k v) = (if found s k then kNoOp else kInserted, None)"
    using f1(1) f2(1) d1 d2
    by (auto simp: set_nx_def split_def Let_def found_def expired_def GetCommandTimeSnapshot_def split: option.splits)
  show "effect h s (snd (set_nx h s k v)) (if found s k then dat s else (dat s)(k \<mapsto> Some v))
      (if dat s k \<noteq> None \<and> expired s k then (ext s)(k := None) else ext s)"
  proof (cases "dat s k")
    case None
    have "effect h ?s1 (snd (data_Insert h ?s1 k (Some v))) ((dat ?s1)(k \<mapsto> Some v)) (ext ?s1)"
      by (rule data_Insert_effect [OF d1(1) room_find_rules(1) [OF assms]]) (simp add: d1 None)
    then show ?thesis
      using effect_trans [OF f1(2)] f1(1) d1 None by (simp add: set_nx_def split_def Let_def found_def)
  next
    case (Some w)
    then have "effect h ?s2 (data_set_value k (Some v) ?s2) ((dat s)(k \<mapsto> Some v)) (ext s)"
      using data_set_value_effect [OF d2(1), of k "Some v"] d2 by simp
    then have sv: "effect h s (data_set_value k (Some v) ?s2) ((dat s)(k \<mapsto> Some v)) (ext s)"
      by (rule effect_trans [OF e2])
    note ee = effect_trans [OF sv expire_Erase_effect [OF effectD(1) [OF sv], of k]]
    show ?thesis
      using Some f1(1) f2(1) d1 d2 e2 ee effectD [OF sv]
      by (auto simp: set_nx_def split_def Let_def found_def expired_def GetCommandTimeSnapshot_def split: option.splits)
  qed
qed

lemma set_xx_effect:
  assumes "tables_ok h s"
  shows "fst (set_xx h s k v get) =
      (if found s k then (kUpdated, if get then the (dat s k) else None) else (kNoOp, None))"
    and "effect h s (snd (set_xx h s k v get))
      (if found s k then (dat s)(k \<mapsto> Some v) else (dat s)(k := None))
      (if dat s k \<noteq> None \<and> expired s k then (ext s)(k := None) else ext s)"
proof -
  let ?s1 = "snd (data_Find h s k)"
  let ?s2 = "snd (expire_Find h ?s1 k)"
  note f1 = data_Find_effect [OF assms(1), of k]
  note d1 = effectD [OF f1(2)]
  note f2 = expire_Find_effect [OF d1(1), of k]
  have e2: "effect h s ?s2 (dat s) (ext s)" using effect_trans [OF f1(2) f2(2)] d1 by simp
  note d2 = effectD [OF e2]
  show "fst (set_xx h s k v get) =
      (if found s k then (kUpdated, if get then the (dat s k) else None) else (kNoOp, None))"
    using f1(1) f2(1) d1 d2
    by (auto simp: set_xx_def split_def Let_def found_def expired_def GetCommandTimeSnapshot_def split: option.splits)
  show "effect h s (snd (set_xx h s k v get))
      (if found s k then (dat s)(k \<mapsto> Some v) else (dat s)(k := None))
      (if dat s k \<noteq> None \<and> expired s k then (ext s)(k := None) else ext s)"
  proof (cases "dat s k")
    case None
    then have "(dat s)(k := None) = dat s" by (simp add: fun_upd_idem)
    then show ?thesis using None f1 by (simp add: set_xx_def split_def Let_def found_def)
  next
    case (Some w)
    then have sv: "effect h s (data_set_value k (Some v) ?s2) ((dat s)(k \<mapsto> Some v)) (ext s)"
      using effect_trans [OF e2 data_set_value_effect [OF d2(1), of k "Some v"]] d2 by simp
    note e3 = effect_trans [OF e2 data_Erase_effect(2) [OF d2(1), of k]]
    note e4 = effect_trans [OF e3 expire_Erase_effect [OF effectD(1) [OF e3], of k]]
    show ?thesis
      using Some f1(1) f2(1) d1 d2 sv e4 effectD [OF e3]
      by (auto simp: set_xx_def split_def Let_def found_def expired_def GetCommandTimeSnapshot_def split: option.splits)
  qed
qed

text \<open>What \<open>SetData\<close> returns and what it leaves in the tables, for each mode.\<close>

fun set_result :: "dss \<Rightarrow> string \<Rightarrow> SetMode \<Rightarrow> bool \<Rightarrow> SetStatus \<times> mts_ptr" where
  "set_result s k kRegular get =
     (if get then (kInserted, if found s k then the (dat s k) else None)
      else (if dat s k = None then kInserted else kUpdated, None))"
| "set_result s k kNX get = (if found s k then kNoOp else kInserted, None)"
| "set_result s k kXX get = (if found s k then (kUpdated, if get then the (dat s k) else None) else (kNoOp, None))"

fun set_dat :: "dss \<Rightarrow> string \<Rightarrow> string \<Rightarrow> SetMode \<Rightarrow> string \<rightharpoonup> mts_ptr" where
  "set_dat s k v kRegular = (dat s)(k \<mapsto> Some v)"
| "set_dat s k v kNX = (if found s k then dat s else (dat s)(k \<mapsto> Some v))"
| "set_dat s k v kXX = (if found s k then (dat s)(k \<mapsto> Some v) else (dat s)(k := None))"

fun set_ext :: "dss \<Rightarrow> string \<Rightarrow> SetMode \<Rightarrow> string \<rightharpoonup> int" where
  "set_ext s k kRegular = ext s"
| "set_ext s k _ = (if dat s k \<noteq> None \<and> expired s k then (ext s)(k := None) else ext s)"

lemma SetData_effect:
  assumes "tables_ok h s" and "room n s"
  shows "fst (SetData h s k v mode get) = set_result s k mode get"
    and "effect h s (snd (SetData h s k v mode get)) (set_dat s k v mode) (set_ext s k mode)"
proof -
  define r where "r = (case mode of kRegular \<Rightarrow> set_regular h s k v get
    | kNX \<Rightarrow> set_nx h s k v | kXX \<Rightarrow> set_xx h s k v get)"
  have r: "fst r = set_result s k mode get" "effect h s (snd r) (set_dat s k v mode) (set_ext s k mode)"
    using set_regular_effect [OF assms, of k v get] set_nx_effect [OF assms, of k v] set_xx_effect [OF assms(1), of k v get]
    by (cases mode; simp add: r_def)+
  have sd: "SetData h s k v mode get = (fst r, if fst (fst r) \<noteq> kNoOp then touch k (snd r) else snd r)"
    by (simp add: SetData_def r_def split_def Let_def)
  show "fst (SetData h s k v mode get) = set_result s k mode get" using r(1) sd by simp
  show "effect h s (snd (SetData h s k v mode get)) (set_dat s k v mode) (set_ext s k mode)"
    using r(2) sd effect_trans [OF r(2) touch_effect [OF effectD(1) [OF r(2)]]] effectD [OF r(2)] by simp
qed

lemma room_step: "dom (dat s') \<subseteq> insert k (dom (dat s)) \<Longrightarrow> room (Suc n) s \<Longrightarrow> room n s'"
proof -
  assume a: "dom (dat s') \<subseteq> insert k (dom (dat s))" and b: "room (Suc n) s"
  have "card (dom (dat s')) \<le> card (insert k (dom (dat s)))"
    by (rule card_mono [OF _ a]) (simp add: finite_dat)
  also have "\<dots> \<le> Suc (card (dom (dat s)))" by (simp add: card_insert_if finite_dat)
  finally show ?thesis using b by (simp add: room_def)
qed

lemma SetData_svc:
  assumes "svc_inv h s" and "room (Suc n) s"
  shows "svc_inv h (snd (SetData h s k v mode get))" and "room n (snd (SetData h s k v mode get))"
    and "live (snd (SetData h s k v mode get)) = (case mode of
        kRegular \<Rightarrow> (live s)(k := if expired s k then None else Some (v, ext s k))
      | kNX \<Rightarrow> if found s k then live s else (live s)(k \<mapsto> (v, None))
      | kXX \<Rightarrow> if found s k then (live s)(k \<mapsto> (v, ext s k)) else live s)"
proof -
  note t = svc_invD [OF assms(1)]
  note ef = SetData_effect(2) [OF t(1) assms(2), of k v mode get]
  note d = effectD [OF ef]
  show "svc_inv h (snd (SetData h s k v mode get))"
    using d t by (cases mode) (auto simp: svc_inv_def ran_def found_def split: if_splits)
  show "room n (snd (SetData h s k v mode get))"
    by (rule room_step [OF _ assms(2), of _ k]) (use d in \<open>cases mode; auto split: if_splits\<close>)
  show "live (snd (SetData h s k v mode get)) = (case mode of
        kRegular \<Rightarrow> (live s)(k := if expired s k then None else Some (v, ext s k))
      | kNX \<Rightarrow> if found s k then live s else (live s)(k \<mapsto> (v, None))
      | kXX \<Rightarrow> if found s k then (live s)(k \<mapsto> (v, ext s k)) else live s)"
    using live_effect [OF ef] t(4) [of k]
    by (cases mode) (auto simp: fun_eq_iff live_def expired_def found_def split: option.splits if_splits)
qed

section \<open>Rehashing in the background\<close>

lemma rehash_rounds_correct:
  assumes "rehashing h t"
  shows "ht_inv h (rehash_rounds h n t) \<and> ht_map (rehash_rounds h n t) = ht_map t \<and>
    length (buckets0 t) \<le> length (buckets0 (rehash_rounds h n t))"
  using assms
proof (induction n arbitrary: t)
  case 0
  then show ?case by (simp add: ht_inv_def)
next
  case (Suc n)
  obtain f t' where r: "RehashSome h 100 t = (f, t')" by (metis prod.collapse)
  have adv: "advanced h t f t'" using RehashSome_advanced [OF Suc.prems r] .
  have m: "ht_map t' = ht_map t" 
    using advanced_ht_map [OF adv ht_inv_counted [of h]] Suc.prems by (simp add: ht_inv_def)
  show ?case
  proof (cases f)
    case True
    then show ?thesis using r m adv advanced_inv [OF adv] advanced_grows [OF adv] by simp
  next
    case False
    then have "rehashing h t'" using adv by (simp add: advanced_def)
    then show ?thesis using Suc.IH [of t'] False r m advanced_grows [OF adv] by simp
  qed
qed

lemma rehash_table_correct:
  assumes "ht_inv h t"
  shows "ht_inv h (rehash_table h n t) \<and> ht_map (rehash_table h n t) = ht_map t \<and>
    length (buckets0 t) \<le> length (buckets0 (rehash_table h n t))"
proof (cases "IsRehashing t")
  case True
  then have "rehashing h t" using assms stable_not_rehashing by (auto simp: ht_inv_def)
  then show ?thesis using rehash_rounds_correct True by (simp add: rehash_table_def)
qed (simp add: assms rehash_table_def)

lemma IncrementalRehashing_effect:
  assumes "tables_ok h s"
  shows "effect h s (IncrementalRehashing h n m s) (dat s) (ext s)"
  using assms rehash_table_correct [of h "data_ht s" n] rehash_table_correct [of h "expire_ht s" m]
    is_cursor_grow [of "expire_ht s" "bucket_index s" "rehash_table h m (expire_ht s)"]
  by (simp add: effect_def IncrementalRehashing_def tables_ok_def dat_def ext_def vmap_def fun_eq_iff)

section \<open>The interface that the commands use\<close>

text \<open>
  A store whose lookups drop what has expired: looking a key up shows what the view has of it and
  never changes the view, marking a key as used does not change the view, and removing a key
  removes exactly that key. \<open>visit_keys\<close> is the loop of the commands that take several keys.
\<close>

fun visit_keys :: "('s \<Rightarrow> string \<Rightarrow> 'p option \<times> 's) \<Rightarrow> (string \<Rightarrow> 's \<Rightarrow> 's) \<Rightarrow> string list \<Rightarrow> 's \<Rightarrow> 'p option list \<times> 's" where
  "visit_keys lookup on_found [] s = ([], s)"
| "visit_keys lookup on_found (k # ks) s =
     (let (entry, s1) = lookup s k;
          s2 = (if entry = None then s1 else on_found k s1);
          (rest, s3) = visit_keys lookup on_found ks s2
      in (entry # rest, s3))"

locale expiring_store =
  fixes inv :: "'s \<Rightarrow> bool"
    and view :: "'s \<Rightarrow> string \<Rightarrow> 'v option"
    and lookup :: "'s \<Rightarrow> string \<Rightarrow> 'p option \<times> 's"
    and shown :: "'v \<Rightarrow> 'p"
    and mark :: "string \<Rightarrow> 's \<Rightarrow> 's"
    and remove :: "string \<Rightarrow> 's \<Rightarrow> 's"
  assumes lookup_law: "inv s \<Longrightarrow> inv (snd (lookup s k)) \<and> view (snd (lookup s k)) = view s \<and>
      fst (lookup s k) = map_option shown (view s k)"
    and mark_law: "inv s \<Longrightarrow> inv (mark k s) \<and> view (mark k s) = view s"
    and remove_law: "inv s \<Longrightarrow> inv (remove k s) \<and> view (remove k s) = (view s)(k := None)"
begin

lemma visit_mark:
  "inv s \<Longrightarrow> inv (snd (visit_keys lookup mark ks s)) \<and> view (snd (visit_keys lookup mark ks s)) = view s \<and>
     fst (visit_keys lookup mark ks s) = map (\<lambda>k. map_option shown (view s k)) ks"
proof (induction ks arbitrary: s)
  case (Cons k ks)
  define s2 where "s2 = (if fst (lookup s k) = None then snd (lookup s k) else mark k (snd (lookup s k)))"
  have "inv s2" "view s2 = view s"
    using lookup_law [OF Cons.prems, of k] mark_law [of "snd (lookup s k)" k] by (auto simp: s2_def)
  moreover have "visit_keys lookup mark (k # ks) s =
      (fst (lookup s k) # fst (visit_keys lookup mark ks s2), snd (visit_keys lookup mark ks s2))"
    by (simp add: split_def Let_def s2_def)
  ultimately show ?case using Cons.IH [of s2] lookup_law [OF Cons.prems, of k] by (simp del: visit_keys.simps)
qed simp

lemma visit_remove:
  "inv s \<Longrightarrow> inv (snd (visit_keys lookup remove ks s)) \<and>
     view (snd (visit_keys lookup remove ks s)) = (view s) |` (- set ks) \<and>
     length (filter (\<lambda>e. e \<noteq> None) (fst (visit_keys lookup remove ks s))) = card (dom (view s) \<inter> set ks)"
proof (induction ks arbitrary: s)
  case Nil
  then show ?case by simp
next
  case (Cons k ks)
  define s2 where "s2 = (if fst (lookup s k) = None then snd (lookup s k) else remove k (snd (lookup s k)))"
  have "inv s2" and v2: "view s2 = (view s)(k := None)"
    using lookup_law [OF Cons.prems, of k] remove_law [of "snd (lookup s k)" k]
    by (auto simp: s2_def fun_upd_idem_iff)
  from Cons.IH [OF \<open>inv s2\<close>] have ih: "inv (snd (visit_keys lookup remove ks s2))"
      "view (snd (visit_keys lookup remove ks s2)) = (view s2) |` (- set ks)"
      "length (filter (\<lambda>e. e \<noteq> None) (fst (visit_keys lookup remove ks s2))) = card (dom (view s2) \<inter> set ks)"
    by auto
  have r: "(view s2) |` (- set ks) = (view s) |` (- set (k # ks))"
    by (auto simp: v2 restrict_map_def fun_eq_iff)
  have d: "dom (view s2) \<inter> set ks = (dom (view s) \<inter> set ks) - {k}" by (auto simp: v2)
  have "card (dom (view s) \<inter> set (k # ks)) =
      (if view s k = None then 0 else 1) + card ((dom (view s) \<inter> set ks) - {k})"
  proof (cases "view s k")
    case None
    then have "dom (view s) \<inter> set (k # ks) = (dom (view s) \<inter> set ks) - {k}" by auto
    then show ?thesis using None by simp
  next
    case (Some v)
    then have i: "dom (view s) \<inter> set (k # ks) = insert k ((dom (view s) \<inter> set ks) - {k})" by auto
    have "card (dom (view s) \<inter> set (k # ks)) = Suc (card ((dom (view s) \<inter> set ks) - {k}))"
      unfolding i by (rule card_insert_disjoint) auto
    then show ?thesis using Some by simp
  qed
  moreover have "visit_keys lookup remove (k # ks) s =
      (fst (lookup s k) # fst (visit_keys lookup remove ks s2), snd (visit_keys lookup remove ks s2))"
    by (simp add: split_def Let_def s2_def)
  ultimately show ?case
    using ih r d lookup_law [OF Cons.prems, of k] by (simp del: visit_keys.simps)
qed

end

lemma touch_svc:
  assumes "svc_inv h s"
  shows "svc_inv h (touch k s)" and "live (touch k s) = live s"
proof -
  note ef = touch_effect [OF svc_invD(1) [OF assms], of k]
  show "svc_inv h (touch k s)" using assms effectD [OF ef] by (simp add: svc_inv_def)
  show "live (touch k s) = live s"
    using live_effect [OF ef] by (auto simp: fun_eq_iff live_def expired_def split: option.splits)
qed

interpretation svc: expiring_store "svc_inv h" live "FindOrExpire h" "\<lambda>(v, e). Some v" touch "\<lambda>k s. EraseKey h s k"
  for h
  by unfold_locales (simp_all add: FindOrExpire_svc touch_svc EraseKey_svc)

lemma found_live: "svc_inv h s \<Longrightarrow> found s k \<longleftrightarrow> live s k \<noteq> None"
  using svc_invD(3) [of h s] by (auto simp: found_def live_def ran_def split: option.splits)


lemma init_maps [simp]:
  "dat (DataStructureService_init cfg n) = Map.empty" "ext (DataStructureService_init cfg n) = Map.empty"
  "live (DataStructureService_init cfg n) = Map.empty"
  by (simp_all add: DataStructureService_init_def dat_def ext_def live_def vmap_init fun_eq_iff)

lemma init_svc: "svc_inv h (DataStructureService_init cfg n)"
  by (simp add: svc_inv_def tables_ok_def) (simp add: DataStructureService_init_def ht_inv_init is_cursor_def)

lemma init_room: "n < 1073741824 \<Longrightarrow> room n (DataStructureService_init cfg t)"
  by (simp add: room_def)

end
