(* ===== verification/StringCommands.thy ===== *)
theory StringCommands
  imports Service
begin

text \<open>
  The string commands of \<open>src/src/service/commands/string_commands.cc\<close>. A handler takes the
  service, the argument list with the command name first and the result to fill in, and returns
  the service and the result. SETRANGE depends on \<open>use_count()\<close> of the shared value: whether it is 1
  is its argument \<open>unique\<close> (another client may still be sending the value). Signed 64-bit
  arithmetic that overflows is taken modulo \<open>2 ^ 64\<close>, as the targets compute it.
\<close>

section \<open>Numbers and times\<close>

abbreviation uint32_max :: int where "uint32_max \<equiv> 4294967295"

definition ParseInt :: "int \<Rightarrow> int \<Rightarrow> string \<Rightarrow> int option" where
  "ParseInt lo hi str =
     (case from_chars lo hi str of (ptr, err, ll) \<Rightarrow>
        if err \<noteq> NoError \<or> ptr \<noteq> length str then None else Some ll)"

text \<open>
  \<open>IntToTimePoint\<close> for a duration of \<open>unit\<close> milliseconds (1000 for seconds, 1 for milliseconds).
  Its overflow check for coarser durations compares the period of \<open>TimePoint\<close> with itself and is
  never compiled in.
\<close>

definition IntToTimePoint :: "int \<Rightarrow> int \<Rightarrow> int \<Rightarrow> int option" where
  "IntToTimePoint unit now i =
     (if i \<le> 0 then None
      else if to_int64 (int64_max - now) < to_int64 (i * unit) then None
      else Some (to_int64 (now + to_int64 (i * unit))))"

section \<open>Options\<close>

datatype ExtractExpireResult = ExtractDone | ExtractNotFound | ExtractError

text \<open>The conversion function that \<open>ExtractExpireOptions\<close> picks for an option name.\<close>

definition rep_to_tp :: "string \<Rightarrow> int \<Rightarrow> (int \<Rightarrow> int option) option" where
  "rep_to_tp opt current =
     (if opt = ''PX'' then Some (\<lambda>rep. if to_int64 (int64_max - current) \<ge> rep then Some (current + rep) else None)
      else if opt = ''EX''
      then Some (\<lambda>rep. if int64_max div 1000 < rep then None
                      else if to_int64 (int64_max - current) \<ge> rep * 1000 then Some (current + rep * 1000) else None)
      else if opt = ''PXAT'' then Some (\<lambda>rep. Some rep)
      else if opt = ''EXAT''
      then Some (\<lambda>rep. if int64_max div 1000 < rep then None else Some (rep * 1000))
      else None)"

text \<open>\<open>ExtractExpireOptions\<close>: its result, the index, the result of the command, the expire time.\<close>

definition ExtractExpireOptions ::
  "string list \<Rightarrow> nat \<Rightarrow> int \<Rightarrow> result \<Rightarrow> int option \<Rightarrow> ExtractExpireResult \<times> nat \<times> result \<times> int option" where
  "ExtractExpireOptions args i cmd_time r expire_time =
     (case rep_to_tp (args ! i) cmd_time of
        None \<Rightarrow> (ExtractNotFound, i, r, expire_time)
      | Some f \<Rightarrow>
          (if i = length args - 1 then (ExtractError, i, SetError kSyntaxError r, expire_time)
           else if expire_time \<noteq> None then (ExtractError, i, SetError kSyntaxError r, expire_time)
           else case ParseInt int64_min int64_max (args ! (i + 1)) of
             None \<Rightarrow> (ExtractError, i, SetError kNotAnInt r, expire_time)
           | Some ll \<Rightarrow>
               (if ll \<le> 0 then (ExtractError, i, SetError kNotAnInt r, expire_time)
                else case f ll of
                  None \<Rightarrow> (ExtractError, i, SetError kNotAnInt r, None)
                | Some tp \<Rightarrow> (ExtractDone, i + 1, r, Some tp))))"

record set_options =
  set_mode :: SetMode
  expire_time :: "int option"
  keep_ttl :: bool
  get_opt :: bool

definition set_options_init :: set_options where
  "set_options_init = \<lparr>set_mode = kRegular, expire_time = None, keep_ttl = False, get_opt = False\<rparr>"

text \<open>\<open>ExtractSetOptions\<close> from index \<open>i\<close>: whether the options are valid, the result, the options.\<close>

function ExtractSetOptions ::
  "string list \<Rightarrow> nat \<Rightarrow> int \<Rightarrow> result \<Rightarrow> set_options \<Rightarrow> bool \<times> result \<times> set_options" where
  "ExtractSetOptions args i cmd_time r opts =
     (if \<not> i < length args then (True, r, opts)
      else if args ! i = ''GET'' then ExtractSetOptions args (i + 1) cmd_time r (opts\<lparr>get_opt := True\<rparr>)
      else if args ! i = ''NX''
      then (if set_mode opts \<noteq> kRegular then (False, SetError kSyntaxError r, opts)
            else ExtractSetOptions args (i + 1) cmd_time r (opts\<lparr>set_mode := kNX\<rparr>))
      else if args ! i = ''XX''
      then (if set_mode opts \<noteq> kRegular then (False, SetError kSyntaxError r, opts)
            else ExtractSetOptions args (i + 1) cmd_time r (opts\<lparr>set_mode := kXX\<rparr>))
      else if args ! i = ''KEEPTTL''
      then (if expire_time opts \<noteq> None then (False, SetError kSyntaxError r, opts)
            else ExtractSetOptions args (i + 1) cmd_time r (opts\<lparr>keep_ttl := True\<rparr>))
      else case ExtractExpireOptions args i cmd_time r (expire_time opts) of
        (ExtractError, i', r', et) \<Rightarrow> (False, r', opts\<lparr>expire_time := et\<rparr>)
      | (ExtractNotFound, i', r', et) \<Rightarrow> (False, SetError kSyntaxError r', opts)
      | (ExtractDone, i', r', et) \<Rightarrow>
          (if keep_ttl opts then (False, SetError kSyntaxError r', opts\<lparr>expire_time := et\<rparr>)
           else ExtractSetOptions args (i' + 1) cmd_time r' (opts\<lparr>expire_time := et\<rparr>)))"
  by auto
termination
  by (relation "measure (\<lambda>(args, i, cmd_time, r, opts). length args - i)")
    (auto simp: ExtractExpireOptions_def split: option.splits if_splits)

declare ExtractSetOptions.simps [simp del]

section \<open>Writing commands\<close>

definition SetFunction :: "hash_fn \<Rightarrow> dss \<Rightarrow> string list \<Rightarrow> result \<Rightarrow> dss \<times> result" where
  "SetFunction h s args r =
     (if length args < 3 then (s, SetError kWrongArgNum r)
      else
        (let cmd_time = GetCommandTimeSnapshot s;
             (valid, r1, opts) =
               (if length args > 3 then ExtractSetOptions (drop 3 args) 0 cmd_time r set_options_init
                else (True, r, set_options_init))
         in if \<not> valid then (s, r1)
            else
              (let key = args ! 1;
                   ((set_status, old_value), s1) = SetData h s key (args ! 2) (set_mode opts) (get_opt opts)
               in if set_status = kNoOp then (s1, SetNil r1)
                  else
                    (let s2 = (case expire_time opts of
                                 Some tp \<Rightarrow> snd (expire_Upsert_key h s1 key tp)
                               | None \<Rightarrow> if set_status = kUpdated \<and> \<not> keep_ttl opts
                                        then snd (expire_Erase h s1 key) else s1)
                     in (s2, if get_opt opts
                             then (case old_value of None \<Rightarrow> SetNil r1 | Some v \<Rightarrow> SetString (Some v) r1)
                             else SetOk r1)))))"

fun mset_loop :: "hash_fn \<Rightarrow> string list \<Rightarrow> dss \<Rightarrow> dss" where
  "mset_loop h (k # v # rest) s =
     mset_loop h rest (snd (expire_Erase h (snd (SetData h s k v kRegular False)) k))"
| "mset_loop h _ s = s"

definition MSetFunction :: "hash_fn \<Rightarrow> dss \<Rightarrow> string list \<Rightarrow> result \<Rightarrow> dss \<times> result" where
  "MSetFunction h s args r =
     (if length args < 3 \<or> length args mod 2 = 0 then (s, SetError kWrongArgNum r)
      else (mset_loop h (drop 1 args) s, r))"

fun msetnx_loop :: "hash_fn \<Rightarrow> string list \<Rightarrow> bool \<Rightarrow> dss \<Rightarrow> bool \<times> dss" where
  "msetnx_loop h (k # v # rest) succeeded s =
     (let ((set_status, _), s1) = SetData h s k v kNX False
      in msetnx_loop h rest (succeeded \<or> set_status = kInserted) s1)"
| "msetnx_loop h _ succeeded s = (succeeded, s)"

definition MSetNXFunction :: "hash_fn \<Rightarrow> dss \<Rightarrow> string list \<Rightarrow> result \<Rightarrow> dss \<times> result" where
  "MSetNXFunction h s args r =
     (if length args < 3 \<or> length args mod 2 = 0 then (s, SetError kWrongArgNum r)
      else (let (succeeded, s1) = msetnx_loop h (drop 1 args) False s
            in (s1, SetInt (if succeeded then 1 else 0) r)))"

definition SetEXFunctionBase ::
  "hash_fn \<Rightarrow> dss \<Rightarrow> string list \<Rightarrow> result \<Rightarrow> (int \<Rightarrow> int \<Rightarrow> int option) \<Rightarrow> dss \<times> result" where
  "SetEXFunctionBase h s args r rep_to_time =
     (let now = GetCommandTimeSnapshot s
      in if length args \<noteq> 4 then (s, SetError kWrongArgNum r)
         else case ParseInt int64_min int64_max (args ! 2) of
           None \<Rightarrow> (s, SetError kNotAnInt r)
         | Some ll \<Rightarrow>
             (case rep_to_time now ll of
                None \<Rightarrow> (s, SetError kNotAnInt r)
              | Some tp \<Rightarrow>
                  (let s1 = snd (data_Upsert h s (args ! 1) (Some (args ! 3)));
                       s2 = snd (expire_Upsert_key h s1 (args ! 1) tp)
                   in (touch (args ! 1) s2, r))))"

definition SetEXFunction :: "hash_fn \<Rightarrow> dss \<Rightarrow> string list \<Rightarrow> result \<Rightarrow> dss \<times> result" where
  "SetEXFunction h s args r = SetEXFunctionBase h s args r (IntToTimePoint 1000)"

definition PSetEXFunction :: "hash_fn \<Rightarrow> dss \<Rightarrow> string list \<Rightarrow> result \<Rightarrow> dss \<times> result" where
  "PSetEXFunction h s args r = SetEXFunctionBase h s args r (IntToTimePoint 1)"

definition SetNXFunction :: "hash_fn \<Rightarrow> dss \<Rightarrow> string list \<Rightarrow> result \<Rightarrow> dss \<times> result" where
  "SetNXFunction h s args r =
     (if length args \<noteq> 3 then (s, SetError kWrongArgNum r)
      else (let ((set_status, _), s1) = SetData h s (args ! 1) (args ! 2) kNX False
            in (s1, SetInt (if set_status = kInserted then 1 else 0) r)))"

text \<open>
  \<open>SETRANGE\<close>. The value of an existing entry is not null; a null value here would be a dereferenced
  null pointer and stays null.
\<close>

definition set_range :: "mts_ptr \<Rightarrow> bool \<Rightarrow> nat \<Rightarrow> string \<Rightarrow> mts_ptr" where
  "set_range v fresh start_index arg =
     (if fresh
      then (if start_index = 0 then Some arg
            else Some (replicate ((start_index + 1) mod 4294967296) (CHR 0x00) @ arg))
      else map_option (\<lambda>w. if start_index > length w
             then w @ replicate (start_index - length w) (CHR 0x00) @ arg
             else take start_index w @ arg) v)"

definition ptr_size :: "mts_ptr \<Rightarrow> int" where
  "ptr_size v = (case v of None \<Rightarrow> 0 | Some w \<Rightarrow> int (length w))"

definition SetRangeFunction :: "hash_fn \<Rightarrow> bool \<Rightarrow> dss \<Rightarrow> string list \<Rightarrow> result \<Rightarrow> dss \<times> result" where
  "SetRangeFunction h unique s args r =
     (if length args \<noteq> 4 then (s, SetError kWrongArgNum r)
      else case ParseInt 0 uint32_max (args ! 2) of
        None \<Rightarrow> (s, SetError kNotAnInt r)
      | Some start \<Rightarrow>
          (let start_index = nat start; key = args ! 1;
               ((v, exists), s1) = data_FindOrCreate h s key;
               (exists', s2) =
                 (if exists
                  then (let (expire_entry, s2) = expire_Find h s1 key
                        in if (case expire_entry of None \<Rightarrow> False | Some tp \<Rightarrow> tp \<le> GetCommandTimeSnapshot s2)
                           then (False, snd (expire_Erase h (data_set_value key None s2) key))
                           else (True, s2))
                  else (False, s1));
               v' = set_range v (\<not> exists' \<or> \<not> unique) start_index (args ! 3)
           in (touch key (data_set_value key v' s2), SetInt (ptr_size v') r)))"

text \<open>
  \<open>APPEND\<close>. The code copies a shared value before it appends, so that other holders of the
  pointer keep the old string; the new value of the key is the same either way.
\<close>

definition AppendFunction :: "hash_fn \<Rightarrow> dss \<Rightarrow> string list \<Rightarrow> result \<Rightarrow> dss \<times> result" where
  "AppendFunction h s args r =
     (if length args \<noteq> 3 then (s, SetError kWrongArgNum r)
      else
        (let key = args ! 1; value = args ! 2;
             ((v, exists), s1) = data_FindOrCreate h s key;
             v' = (if \<not> exists then Some value else map_option (\<lambda>w. w @ value) v)
         in (touch key (data_set_value key v' s1), SetInt (ptr_size v') r)))"

section \<open>Reading commands\<close>

definition GetFunctionBase :: "hash_fn \<Rightarrow> dss \<Rightarrow> string \<Rightarrow> result \<Rightarrow> mts_ptr option \<times> dss \<times> result" where
  "GetFunctionBase h s key r =
     (let (entry, s1) = FindOrExpire h s key
      in case entry of
           None \<Rightarrow> (None, s1, SetNil r)
         | Some v \<Rightarrow> (Some v, touch key s1, SetString v r))"

definition GetFunctionBaseWithCallback ::
  "hash_fn \<Rightarrow> dss \<Rightarrow> string \<Rightarrow> result \<Rightarrow> (dss \<Rightarrow> dss) \<Rightarrow> dss \<times> result" where
  "GetFunctionBaseWithCallback h s key r callback =
     (let (entry, s1, r1) = GetFunctionBase h s key r
      in (if entry \<noteq> None then callback s1 else s1, r1))"

definition StrlenFunction :: "hash_fn \<Rightarrow> dss \<Rightarrow> string list \<Rightarrow> result \<Rightarrow> dss \<times> result" where
  "StrlenFunction h s args r =
     (if length args \<noteq> 2 then (s, SetError kWrongArgNum r)
      else
        (let (entry, s1) = FindOrExpire h s (args ! 1)
         in case entry of
              None \<Rightarrow> (s1, SetInt 0 r)
            | Some v \<Rightarrow> (touch (args ! 1) s1, SetInt (ptr_size v) r)))"

definition GetFunction :: "hash_fn \<Rightarrow> dss \<Rightarrow> string list \<Rightarrow> result \<Rightarrow> dss \<times> result" where
  "GetFunction h s args r =
     (if length args \<noteq> 2 then (s, SetError kWrongArgNum r)
      else snd (GetFunctionBase h s (args ! 1) r))"

definition MGetFunction :: "hash_fn \<Rightarrow> dss \<Rightarrow> string list \<Rightarrow> result \<Rightarrow> dss \<times> result" where
  "MGetFunction h s args r =
     (if length args < 2 then (s, SetError kWrongArgNum r)
      else
        (let (found_entries, s1) = visit_keys (FindOrExpire h) touch (drop 1 args) s
         in (s1, fold (\<lambda>entry. AddString (case entry of None \<Rightarrow> None | Some v \<Rightarrow> v)) found_entries r)))"

definition GetDelFunction :: "hash_fn \<Rightarrow> dss \<Rightarrow> string list \<Rightarrow> result \<Rightarrow> dss \<times> result" where
  "GetDelFunction h s args r =
     (if length args \<noteq> 2 then (s, SetError kWrongArgNum r)
      else GetFunctionBaseWithCallback h s (args ! 1) r (\<lambda>s. EraseKey h s (args ! 1)))"

text \<open>The option loop of \<open>GETEX\<close>: \<open>Inl\<close> is an early return with an error, \<open>Inr\<close> the options.\<close>

function getex_options ::
  "string list \<Rightarrow> nat \<Rightarrow> int \<Rightarrow> result \<Rightarrow> bool \<Rightarrow> int option \<Rightarrow> result + (result \<times> bool \<times> int option)" where
  "getex_options args i cmd_time r persist tp_opt =
     (if \<not> i < length args then Inr (r, persist, tp_opt)
      else if args ! i = ''PERSIST''
      then (if tp_opt \<noteq> None \<or> persist then Inl (SetError kSyntaxError r)
            else getex_options args (i + 1) cmd_time r True tp_opt)
      else case ExtractExpireOptions args i cmd_time r tp_opt of
        (ExtractError, i', r', et) \<Rightarrow> Inl r'
      | (ExtractNotFound, i', r', et) \<Rightarrow> Inl (SetError kSyntaxError r')
      | (ExtractDone, i', r', et) \<Rightarrow>
          (if persist then Inl (SetError kSyntaxError r')
           else getex_options args (i' + 1) cmd_time r' persist et))"
  by auto
termination
  by (relation "measure (\<lambda>(args, i, cmd_time, r, persist, et). length args - i)")
    (auto simp: ExtractExpireOptions_def split: option.splits if_splits)

declare getex_options.simps [simp del]

definition GetEXFunction :: "hash_fn \<Rightarrow> dss \<Rightarrow> string list \<Rightarrow> result \<Rightarrow> dss \<times> result" where
  "GetEXFunction h s args r =
     (if length args < 2 then (s, SetError kWrongArgNum r)
      else case getex_options args 2 (GetCommandTimeSnapshot s) r False None of
        Inl r1 \<Rightarrow> (s, r1)
      | Inr (r1, persist, tp_opt) \<Rightarrow>
          GetFunctionBaseWithCallback h s (args ! 1) r1
            (\<lambda>s. if persist then snd (expire_Erase h s (args ! 1))
                 else case tp_opt of
                   None \<Rightarrow> s
                 | Some tp \<Rightarrow> snd (expire_Upsert h s (args ! 1) tp)))"

definition GetSetFunction :: "hash_fn \<Rightarrow> dss \<Rightarrow> string list \<Rightarrow> result \<Rightarrow> dss \<times> result" where
  "GetSetFunction h s args r =
     (if length args \<noteq> 3 then (s, SetError kWrongArgNum r)
      else
        (let ((set_status, old_value), s1) = SetData h s (args ! 1) (args ! 2) kRegular True
         in case old_value of
              None \<Rightarrow> (s1, SetNil r)
            | Some v \<Rightarrow> (snd (expire_Erase h s1 (args ! 1)), SetString (Some v) r)))"

text \<open>The lambda \<open>transform_index\<close> of \<open>GETRANGE\<close>, with the final cast to \<open>size_t\<close>.\<close>

definition transform_index :: "int \<Rightarrow> int \<Rightarrow> nat" where
  "transform_index len index =
     (let i = (if index < 0 then max 0 (to_int32 (len + index)) else index)
      in nat (min len i mod 18446744073709551616))"

text \<open>
  The substring of \<open>GETRANGE\<close>. It has \<open>end_index - start_index + 1\<close> characters; a \<open>std::string\<close>
  stores a zero character behind its last one, which is read when \<open>end_index\<close> is the size.
\<close>

definition get_range :: "string \<Rightarrow> int \<Rightarrow> int \<Rightarrow> string" where
  "get_range v start e =
     (let start_index = transform_index (to_int32 (int (length v))) start;
          end_index = transform_index (to_int32 (int (length v))) e
      in if start_index = length v \<or> end_index \<le> start_index then []
         else take (end_index - start_index + 1) (drop start_index (v @ [CHR 0x00])))"

definition GetRangeFunction :: "hash_fn \<Rightarrow> dss \<Rightarrow> string list \<Rightarrow> result \<Rightarrow> dss \<times> result" where
  "GetRangeFunction h s args r =
     (if length args \<noteq> 4 then (s, SetError kWrongArgNum r)
      else case ParseInt int32_min int32_max (args ! 2) of
        None \<Rightarrow> (s, SetError kNotAnInt r)
      | Some start \<Rightarrow>
          (case ParseInt int32_min int32_max (args ! 3) of
             None \<Rightarrow> (s, SetError kNotAnInt r)
           | Some e \<Rightarrow>
               (let (entry, s1) = FindOrExpire h s (args ! 1)
                in case entry of
                     None \<Rightarrow> (s1, SetString (Some []) r)
                   | Some v \<Rightarrow>
                       (touch (args ! 1) s1, SetString (map_option (\<lambda>w. get_range w start e) v) r))))"

definition ExistsFunction :: "hash_fn \<Rightarrow> dss \<Rightarrow> string list \<Rightarrow> result \<Rightarrow> dss \<times> result" where
  "ExistsFunction h s args r =
     (let (found_entries, s1) = visit_keys (FindOrExpire h) touch (drop 1 args) s
      in (s1, SetInt (int (length (filter (\<lambda>entry. entry \<noteq> None) found_entries))) r))"

end
