(* ===== verification/StringSpec.thy ===== *)
theory StringSpec
  imports StringCommands
begin

text \<open>
  What the string commands do to the key space that clients see, with the reply they give, on
  every branch. The key space is \<open>live\<close>: the keys that have not expired, each with its value and
  its expire time.
\<close>

section \<open>Effects and the key space\<close>

text \<open>A value with an expire time, as seen at time \<open>now\<close>.\<close>

definition visible :: "int \<Rightarrow> string \<Rightarrow> int option \<Rightarrow> (string \<times> int option) option" where
  "visible now v e = (case e of None \<Rightarrow> Some (v, None) | Some tp \<Rightarrow> if tp \<le> now then None else Some (v, Some tp))"

lemma visible_None [simp]: "visible now v None = Some (v, None)"
  by (simp add: visible_def)

abbreviation now :: "dss \<Rightarrow> int" where
  "now s \<equiv> command_time_snapshot s"

definition view_of :: "int \<Rightarrow> (string \<rightharpoonup> mts_ptr) \<Rightarrow> (string \<rightharpoonup> int) \<Rightarrow> string \<rightharpoonup> string \<times> int option" where
  "view_of n d e k = (case d k of Some (Some v) \<Rightarrow> visible n v (e k) | _ \<Rightarrow> None)"

lemma live_view: "live s = view_of (now s) (dat s) (ext s)"
  by (auto simp: fun_eq_iff live_def view_of_def visible_def expired_def split: option.splits)

lemma effect_live: "effect h s s' d e \<Longrightarrow> live s' = view_of (now s) d e"
  using effectD [of h s s' d e] by (simp add: live_view)

lemma effect_svc:
  assumes "effect h s s' d e" and "dom e \<subseteq> dom d" and "None \<notin> ran d"
  shows "svc_inv h s'"
  using effectD [OF assms(1)] assms(2,3) by (simp add: svc_inv_def)

lemma view_of_upd:
  "view_of n (d(k \<mapsto> Some v)) (e(k := x)) = (view_of n d e)(k := visible n v x)"
  "view_of n (d(k := None)) e = (view_of n d e)(k := None)"
  "view_of n (d(k := None)) (e(k := x)) = (view_of n d e)(k := None)"
  by (auto simp: view_of_def fun_eq_iff split: option.splits)

lemma view_of_upd_same: "view_of n (d(k \<mapsto> Some v)) e = (view_of n d e)(k := visible n v (e k))"
  using view_of_upd(1) [of n d k v e "e k"] by simp

lemma ran_upd_Some: "None \<notin> ran d \<Longrightarrow> None \<notin> ran (d(k \<mapsto> Some v))"
  by (auto simp: ran_def)

lemma dom_upd: "dom e \<subseteq> dom d \<Longrightarrow> dom (e(k := x)) \<subseteq> dom (d(k \<mapsto> y))"
  by (auto split: if_splits)

lemma ran_upd_None: "None \<notin> ran d \<Longrightarrow> None \<notin> ran (d(k := None))"
  by (auto simp: ran_def)

section \<open>SET\<close>

text \<open>Whether a SET with the given options writes, the expire time the key gets, and the reply.\<close>

definition set_applies :: "dss \<Rightarrow> string \<Rightarrow> set_options \<Rightarrow> bool" where
  "set_applies s key opts =
     (case set_mode opts of kRegular \<Rightarrow> True | kNX \<Rightarrow> live s key = None | kXX \<Rightarrow> live s key \<noteq> None)"

definition set_ttl :: "dss \<Rightarrow> string \<Rightarrow> set_options \<Rightarrow> int option" where
  "set_ttl s key opts =
     (case expire_time opts of
        Some tp \<Rightarrow> Some tp
      | None \<Rightarrow> (case set_mode opts of
                   kNX \<Rightarrow> None
                 | kXX \<Rightarrow> if keep_ttl opts then ext s key else None
                 | kRegular \<Rightarrow> if keep_ttl opts \<or> get_opt opts then ext s key else None))"

definition set_reply :: "dss \<Rightarrow> string \<Rightarrow> set_options \<Rightarrow> result \<Rightarrow> result" where
  "set_reply s key opts r =
     (if \<not> set_applies s key opts then SetNil r
      else if \<not> get_opt opts then SetOk r
      else case live s key of None \<Rightarrow> SetNil r | Some (v, _) \<Rightarrow> SetString (Some v) r)"

definition set_valid :: "dss \<Rightarrow> string list \<Rightarrow> result \<Rightarrow> result \<Rightarrow> set_options \<Rightarrow> bool" where
  "set_valid s args r r1 opts \<longleftrightarrow> length args \<ge> 3 \<and>
     (if length args > 3 then ExtractSetOptions (drop 3 args) 0 (now s) r set_options_init = (True, r1, opts)
      else r1 = r \<and> opts = set_options_init)"

lemma set_status_applies:
  assumes "svc_inv h s"
  shows "fst (set_result s key (set_mode opts) (get_opt opts)) \<noteq> kNoOp \<longleftrightarrow> set_applies s key opts"
  using found_live [OF assms, of key] by (cases "set_mode opts") (auto simp: set_applies_def)

lemma set_old_value:
  assumes "svc_inv h s" and "get_opt opts" and "set_applies s key opts"
  shows "snd (set_result s key (set_mode opts) (get_opt opts)) = map_option fst (live s key)"
  using assms found_live [OF assms(1), of key] svc_invD(3) [OF assms(1)]
  by (cases "set_mode opts") (auto simp: set_applies_def live_def found_def ran_def split: option.splits)

lemma SetFunction_run:
  assumes "set_valid s args r r1 opts"
  shows "SetFunction h s args r =
    (let sd = SetData h s (args ! 1) (args ! 2) (set_mode opts) (get_opt opts); s1 = snd sd
     in if fst (fst sd) = kNoOp then (s1, SetNil r1)
        else (case expire_time opts of
                Some tp \<Rightarrow> snd (expire_Upsert_key h s1 (args ! 1) tp)
              | None \<Rightarrow> if fst (fst sd) = kUpdated \<and> \<not> keep_ttl opts then snd (expire_Erase h s1 (args ! 1)) else s1,
              if get_opt opts then (case snd (fst sd) of None \<Rightarrow> SetNil r1 | Some v \<Rightarrow> SetString (Some v) r1) else SetOk r1))"
proof -
  obtain sd where sd: "SetData h s (args ! Suc 0) (args ! 2) (set_mode opts) (get_opt opts) = sd" by simp
  show ?thesis
    using assms sd
    by (cases "length args > 3"; cases "get_opt opts")
      (simp_all add: SetFunction_def set_valid_def GetCommandTimeSnapshot_def split_def Let_def
        cong: option.case_cong)
qed

text \<open>The state after a SET that writes: the value is stored and the expire time is \<open>set_ttl\<close>.\<close>

lemma SetFunction_effect:
  fixes v :: string
  assumes inv: "svc_inv h s" and room: "room 1 s" and app: "set_applies s key opts"
  defines "sd \<equiv> SetData h s key v (set_mode opts) (get_opt opts)"
  shows "effect h s (case expire_time opts of
        Some tp \<Rightarrow> snd (expire_Upsert_key h (snd sd) key tp)
      | None \<Rightarrow> if fst (fst sd) = kUpdated \<and> \<not> keep_ttl opts then snd (expire_Erase h (snd sd) key) else snd sd)
    ((dat s)(key \<mapsto> Some v)) ((ext s)(key := set_ttl s key opts))"
proof -
  note t = svc_invD [OF inv]
  have ef: "effect h s (snd sd) (set_dat s key v (set_mode opts)) (set_ext s key (set_mode opts))"
    unfolding sd_def by (rule SetData_effect(2) [OF t(1) room])
  have res: "fst sd = set_result s key (set_mode opts) (get_opt opts)"
    unfolding sd_def by (rule SetData_effect(1) [OF t(1) room])
  have rm: "room 0 (snd sd)" and iv: "svc_inv h (snd sd)"
    using SetData_svc(1,2) [OF inv, of 0 key v] room by (simp_all add: sd_def)
  have d: "set_dat s key v (set_mode opts) = (dat s)(key \<mapsto> Some v)"
    using app found_live [OF inv, of key] by (cases "set_mode opts") (auto simp: set_applies_def)
  have e: "set_ext s key (set_mode opts) = (ext s)(key := (if set_mode opts = kNX then None else ext s key))"
    using app found_live [OF inv, of key] t(4) [of key]
    by (cases "set_mode opts") (auto simp: set_applies_def found_def expired_def fun_eq_iff split: option.splits)
  show ?thesis
  proof (cases "expire_time opts")
    case (Some tp)
    then show ?thesis
      using effect_trans [OF ef expire_Upsert_effect(2) [OF effectD(1) [OF ef] rm svc_invD(2) [OF iv], of key tp]]
        effectD [OF ef] d e by (simp add: set_ttl_def)
  next
    case None
    have er: "effect h s (snd (expire_Erase h (snd sd) key)) ((dat s)(key \<mapsto> Some v)) ((ext s)(key := None))"
      using effect_trans [OF ef expire_Erase_effect [OF effectD(1) [OF ef], of key]] effectD [OF ef] d e by simp
    show ?thesis
      using None er ef d e res app t(4) [of key] found_live [OF inv, of key]
      by (cases "set_mode opts"; cases "keep_ttl opts"; cases "get_opt opts"; cases "dat s key")
        (simp_all add: set_ttl_def set_applies_def fun_upd_idem)
  qed
qed



section \<open>Reading commands\<close>

definition value_reply :: "(string \<times> int option) option \<Rightarrow> result \<Rightarrow> result" where
  "value_reply x r = (case x of None \<Rightarrow> SetNil r | Some (v, _) \<Rightarrow> SetString (Some v) r)"

lemma GetFunctionBase_svc:
  assumes "svc_inv h s"
  shows "fst (GetFunctionBase h s key r) = map_option (\<lambda>(v, e). Some v) (live s key)"
    and "svc_inv h (fst (snd (GetFunctionBase h s key r)))"
    and "live (fst (snd (GetFunctionBase h s key r))) = live s"
    and "snd (snd (GetFunctionBase h s key r)) = value_reply (live s key) r"
  using FindOrExpire_svc [OF assms, of key] touch_svc [OF FindOrExpire_svc(1) [OF assms, of key], of key]
  by (auto simp: GetFunctionBase_def split_def Let_def value_reply_def split: option.splits)

text \<open>
  C16. GET and STRLEN. They never change the key space, and they answer from it: the value of a
  visible key or nil, and its length or 0. A wrong number of arguments is an error.
\<close>

theorem get_strlen_observe:
  assumes "svc_inv h s"
  shows "svc_inv h (fst (GetFunction h s args r)) \<and> live (fst (GetFunction h s args r)) = live s \<and>
    svc_inv h (fst (StrlenFunction h s args r)) \<and> live (fst (StrlenFunction h s args r)) = live s \<and>
    snd (GetFunction h s args r) =
      (if length args = 2 then value_reply (live s (args ! 1)) r else SetError kWrongArgNum r) \<and>
    snd (StrlenFunction h s args r) =
      (if length args = 2
       then SetInt (case live s (args ! 1) of None \<Rightarrow> 0 | Some (v, _) \<Rightarrow> int (length v)) r
       else SetError kWrongArgNum r)"
  using assms GetFunctionBase_svc [OF assms, of "args ! 1" r] FindOrExpire_svc [OF assms, of "args ! 1"]
    touch_svc [OF FindOrExpire_svc(1) [OF assms, of "args ! 1"], of "args ! 1"]
  by (auto simp: GetFunction_def StrlenFunction_def split_def Let_def ptr_size_def split: option.splits)

text \<open>The strings that a fold of \<open>AddString\<close> leaves in the result.\<close>

lemma fold_AddString:
  "xs \<noteq> [] \<Longrightarrow> fold (\<lambda>x. AddString (f x)) xs r = r\<lparr>rtype := TStrings, rstrings := rstrings r @ map f xs\<rparr>"
proof (induction xs arbitrary: r)
  case (Cons x xs)
  then show ?case by (cases "xs = []") (simp_all add: AddString_def)
qed simp

text \<open>
  C17. MGET and EXISTS. They look at all their keys without changing the key space. MGET answers
  with the values in the order of the keys, nil for a key that is not visible. EXISTS counts the
  visible keys, a key that is named twice twice.
\<close>

theorem mget_exists_observe:
  assumes "svc_inv h s"
  shows "svc_inv h (fst (MGetFunction h s args r)) \<and> live (fst (MGetFunction h s args r)) = live s \<and>
    svc_inv h (fst (ExistsFunction h s args r)) \<and> live (fst (ExistsFunction h s args r)) = live s \<and>
    snd (MGetFunction h s args r) =
      (if length args < 2 then SetError kWrongArgNum r
       else r\<lparr>rtype := TStrings, rstrings := rstrings r @ map (\<lambda>k. map_option fst (live s k)) (tl args)\<rparr>) \<and>
    snd (ExistsFunction h s args r) =
      SetInt (int (length (filter (\<lambda>k. live s k \<noteq> None) (tl args)))) r"
proof -
  note v = svc.visit_mark [OF assms, of "tl args"]
  have "length (filter (\<lambda>x. x \<noteq> None) (map (\<lambda>k. map_option (\<lambda>(v, e). Some v) (live s k)) ks)) =
    length (filter (\<lambda>k. live s k \<noteq> None) ks)" for ks
    by (induction ks) simp_all
  moreover have "(\<lambda>x. case x of None \<Rightarrow> None | Some v \<Rightarrow> v) \<circ> (\<lambda>k. map_option (\<lambda>(v, e). Some v) (live s k)) =
    (\<lambda>k. map_option fst (live s k))"
    by (auto simp: fun_eq_iff split: option.splits)
  moreover have "length args \<ge> 2 \<Longrightarrow> tl args \<noteq> []" by (cases args) auto
  ultimately show ?thesis
    using v assms by (simp add: MGetFunction_def ExistsFunction_def split_def Let_def drop_Suc fold_AddString)
qed

section \<open>MSET, SETNX and MSETNX\<close>

lemma set_and_persist:
  fixes k v :: string
  assumes "svc_inv h s" and "room (Suc n) s"
  defines "s' \<equiv> snd (expire_Erase h (snd (SetData h s k v kRegular False)) k)"
  shows "svc_inv h s'" and "room n s'" and "live s' = (live s)(k \<mapsto> (v, None))" and "now s' = now s"
proof -
  note t = svc_invD [OF assms(1)]
  note e1 = SetData_effect(2) [OF t(1) assms(2), of k v kRegular False]
  have ef: "effect h s s' ((dat s)(k \<mapsto> Some v)) ((ext s)(k := None))"
    using effect_trans [OF e1 expire_Erase_effect [OF effectD(1) [OF e1], of k]] effectD [OF e1] by (simp add: s'_def)
  show "svc_inv h s'" by (rule effect_svc [OF ef dom_upd [OF t(2)] ran_upd_Some [OF t(3)]])
  show "room n s'" by (rule room_step [OF _ assms(2), of _ k]) (simp add: effectD [OF ef])
  show "live s' = (live s)(k \<mapsto> (v, None))" using effect_live [OF ef] by (simp add: view_of_upd live_view)
  show "now s' = now s" using effectD [OF ef] by simp
qed

lemma set_if_absent:
  fixes k v :: string and get :: bool
  assumes "svc_inv h s" and "room (Suc n) s"
  defines "sd \<equiv> SetData h s k v kNX get"
  shows "svc_inv h (snd sd)" and "room n (snd sd)"
    and "live (snd sd) = (if live s k = None then (live s)(k \<mapsto> (v, None)) else live s)"
    and "fst (fst sd) = kInserted \<longleftrightarrow> live s k = None"
  using SetData_svc [OF assms(1,2), of k v kNX get] SetData_effect(1) [OF svc_invD(1) [OF assms(1)] assms(2), of k v kNX get]
    found_live [OF assms(1), of k]
  by (cases "live s k"; simp add: sd_def)+

text \<open>The keys and values of an argument list.\<close>

fun key_values :: "string list \<Rightarrow> (string \<times> (string \<times> int option)) list" where
  "key_values (k # v # rest) = (k, (v, None)) # key_values rest"
| "key_values _ = []"

lemma mset_loop_svc:
  assumes "svc_inv h s" and "room (length kvs + n) s"
  shows "svc_inv h (mset_loop h kvs s) \<and> live (mset_loop h kvs s) = live s ++ map_of (rev (key_values kvs)) \<and>
    room n (mset_loop h kvs s) \<and> now (mset_loop h kvs s) = now s"
  using assms
proof (induction h kvs s rule: mset_loop.induct)
  case (1 h k v rest s)
  have rm: "room (Suc (length rest + n)) s" using 1(3) by (simp add: room_def)
  note sp = set_and_persist [OF 1(2) rm, of k v]
  show ?case using 1(1) [OF sp(1,2)] sp(3,4) by (auto simp: map_add_def fun_eq_iff split: option.splits)
qed (simp_all add: room_def)

text \<open>A service with two keys, for the examples.\<close>

definition example_service :: dss where
  "example_service = DataStructureService_init Config_default 0"

definition example_store :: dss where
  "example_store = mset_loop (\<lambda>_. 0) [''a'', ''x'', ''b'', ''yy''] example_service"

lemma example_service:
  "svc_inv h example_service" "live example_service = Map.empty" "now example_service = 0"
  "n < 1073741824 \<Longrightarrow> room n example_service"
  by (simp_all add: example_service_def init_svc init_room) (simp add: DataStructureService_init_def)

lemma example_store:
  "svc_inv (\<lambda>_. 0) example_store" "live example_store = [''a'' \<mapsto> (''x'', None), ''b'' \<mapsto> (''yy'', None)]"
  "now example_store = 0" "room 100 example_store"
  using mset_loop_svc [OF example_service(1), of "[''a'', ''x'', ''b'', ''yy'']" 100 "\<lambda>_. 0"] example_service(4) [of 104]
  by (simp_all add: example_store_def example_service)

lemma example_room: "n \<le> 100 \<Longrightarrow> room n example_store"
  using example_store(4) by (simp add: room_def)

text \<open>
  C18. MSET. With a well-formed argument list, MSET stores every given value without an expire
  time, the last value of a key that is given twice, and leaves all other keys alone. Otherwise it
  reports an error and changes nothing.
\<close>

theorem mset_behaviour:
  assumes "svc_inv h s" and "room (length args) s" and "MSetFunction h s args r = (s', r')"
  shows "svc_inv h s' \<and>
    (if odd (length args) \<and> length args \<ge> 3
     then live s' = live s ++ map_of (rev (key_values (tl args))) \<and> r' = r
     else s' = s \<and> r' = SetError kWrongArgNum r)"
proof -
  have "room (length (tl args) + 0) s" using assms(2) by (simp add: room_def)
  then show ?thesis
    using mset_loop_svc [OF assms(1), of "tl args" 0] assms
    by (auto simp: MSetFunction_def drop_Suc even_iff_mod_2_eq_zero split: if_splits)
qed

lemma msetnx_loop_svc:
  assumes "svc_inv h s" and "room (length kvs) s"
  shows "svc_inv h (snd (msetnx_loop h kvs b s)) \<and>
    live (snd (msetnx_loop h kvs b s)) = map_of (key_values kvs) ++ live s \<and>
    (fst (msetnx_loop h kvs b s) \<longleftrightarrow> b \<or> (\<exists>(k, _) \<in> set (key_values kvs). live s k = None))"
  using assms
proof (induction h kvs b s rule: msetnx_loop.induct)
  case (1 h k v rest b s)
  have rm: "room (Suc (length rest)) s" using 1(3) by (simp add: room_def)
  note sp = set_if_absent [OF 1(2) rm, of k v False]
  define sd where "sd = SetData h s k v kNX False"
  have st: "msetnx_loop h (k # v # rest) b s = msetnx_loop h rest (b \<or> fst (fst sd) = kInserted) (snd sd)"
    by (simp add: sd_def split_def Let_def)
  have ih: "svc_inv h (snd (msetnx_loop h rest b' (snd sd))) \<and>
    live (snd (msetnx_loop h rest b' (snd sd))) = map_of (key_values rest) ++ live (snd sd) \<and>
    (fst (msetnx_loop h rest b' (snd sd)) \<longleftrightarrow> b' \<or> (\<exists>(k, _) \<in> set (key_values rest). live (snd sd) k = None))"
    if "b' = (b \<or> fst (fst sd) = kInserted)" for b'
    using 1(1) [OF refl prod.collapse prod.collapse, of "snd sd"] sp(1,2) that by (simp add: sd_def)
  show ?case
    using ih [OF refl] sp(3,4) unfolding st sd_def [symmetric]
    by (auto simp: map_add_def fun_eq_iff split: option.splits if_splits)
qed simp_all

text \<open>
  C19. SETNX and MSETNX. SETNX stores the value exactly when the key is not visible and reports
  which. MSETNX treats its keys one by one: it stores those that are not visible, the first value
  of a key that is given twice, keeps the others, and reports 1 if it stored any.
\<close>

theorem setnx_msetnx_behaviour:
  assumes "svc_inv h s" and "room (length args) s"
    and "SetNXFunction h s args r = (s1, r1)" and "MSetNXFunction h s args r = (s2, r2)"
  shows "svc_inv h s1 \<and> svc_inv h s2 \<and>
    (if length args = 3
     then live s1 = [args ! 1 \<mapsto> (args ! 2, None)] ++ live s \<and>
       r1 = SetInt (if live s (args ! 1) = None then 1 else 0) r
     else s1 = s \<and> r1 = SetError kWrongArgNum r) \<and>
    (if odd (length args) \<and> length args \<ge> 3
     then live s2 = map_of (key_values (tl args)) ++ live s \<and>
       r2 = SetInt (if \<exists>k \<in> fst ` set (key_values (tl args)). live s k = None then 1 else 0) r
     else s2 = s \<and> r2 = SetError kWrongArgNum r)"
proof -
  have rm: "length args = 3 \<Longrightarrow> room (Suc 2) s" and rt: "room (length (tl args)) s"
    using assms(2) by (simp_all add: room_def)
  have "svc_inv h s1 \<and> (if length args = 3
     then live s1 = [args ! 1 \<mapsto> (args ! 2, None)] ++ live s \<and>
       r1 = SetInt (if live s (args ! 1) = None then 1 else 0) r
     else s1 = s \<and> r1 = SetError kWrongArgNum r)"
    using set_if_absent [OF assms(1) rm, of "args ! 1" "args ! 2" False] assms(1,3)
    by (auto simp: SetNXFunction_def split_def Let_def map_add_def fun_eq_iff split: option.splits if_splits)
  moreover have "svc_inv h s2 \<and> (if odd (length args) \<and> length args \<ge> 3
     then live s2 = map_of (key_values (tl args)) ++ live s \<and>
       r2 = SetInt (if \<exists>k \<in> fst ` set (key_values (tl args)). live s k = None then 1 else 0) r
     else s2 = s \<and> r2 = SetError kWrongArgNum r)"
    using msetnx_loop_svc [OF assms(1) rt, of False] assms(1,4)
    by (auto simp: MSetNXFunction_def drop_Suc split_def Let_def even_iff_mod_2_eq_zero split: if_splits)
  ultimately show ?thesis by blast
qed


section \<open>The properties at work\<close>


theorem get_strlen_observe_witness:
  "snd (GetFunction (\<lambda>_. 0) example_store [''GET'', ''b''] Result_init) = SetString (Some ''yy'') Result_init \<and>
   snd (StrlenFunction (\<lambda>_. 0) example_store [''STRLEN'', ''b''] Result_init) = SetInt 2 Result_init"
  using get_strlen_observe [OF example_store(1), of "[''GET'', ''b'']" Result_init]
    get_strlen_observe [OF example_store(1), of "[''STRLEN'', ''b'']" Result_init]
  by (simp add: example_store value_reply_def)

theorem mget_exists_observe_witness:
  "rstrings (snd (MGetFunction (\<lambda>_. 0) example_store [''MGET'', ''b'', ''c'', ''a''] Result_init)) = [Some ''yy'', None, Some ''x''] \<and>
   int_value (snd (ExistsFunction (\<lambda>_. 0) example_store [''EXISTS'', ''a'', ''a'', ''c''] Result_init)) = 2"
  using mget_exists_observe [OF example_store(1), of "[''MGET'', ''b'', ''c'', ''a'']" Result_init]
    mget_exists_observe [OF example_store(1), of "[''EXISTS'', ''a'', ''a'', ''c'']" Result_init]
  by (simp add: example_store Result_init_def SetInt_def)

theorem mset_behaviour_witness:
  "live (fst (MSetFunction (\<lambda>_. 0) example_store [''MSET'', ''a'', ''1'', ''c'', ''2'', ''a'', ''3''] Result_init)) =
     [''b'' \<mapsto> (''yy'', None), ''c'' \<mapsto> (''2'', None), ''a'' \<mapsto> (''3'', None)]"
  using mset_behaviour [OF example_store(1) example_room prod.collapse [symmetric],
      of "[''MSET'', ''a'', ''1'', ''c'', ''2'', ''a'', ''3'']" Result_init]
  by (simp add: example_store fun_eq_iff)

theorem setnx_msetnx_behaviour_witness:
  "live (fst (SetNXFunction (\<lambda>_. 0) example_store [''SETNX'', ''a'', ''1''] Result_init)) ''a'' = Some (''x'', None) \<and>
   int_value (snd (MSetNXFunction (\<lambda>_. 0) example_store [''MSETNX'', ''a'', ''1'', ''c'', ''2''] Result_init)) = 1"
  using setnx_msetnx_behaviour [OF example_store(1) example_room prod.collapse [symmetric] prod.collapse [symmetric],
      of "[''SETNX'', ''a'', ''1'']" Result_init]
    setnx_msetnx_behaviour [OF example_store(1) example_room prod.collapse [symmetric] prod.collapse [symmetric],
      of "[''MSETNX'', ''a'', ''1'', ''c'', ''2'']" Result_init]
  by (simp add: example_store SetInt_def map_add_def)

end
