(* ===== verification/ExpirySpec.thy ===== *)
theory ExpirySpec
  imports StringSpec
begin

text \<open>
  The string commands that set, keep or clear expire times: SETEX and PSETEX, GETEX, GETSET and
  GETDEL. Times are milliseconds; the arithmetic of \<open>IntToTimePoint\<close> is exact as long as the
  duration fits into 64 bits, and \<open>seconds_overflow\<close> shows what happens beyond.
\<close>

section \<open>Time points\<close>

lemma IntToTimePoint_exact:
  assumes "0 \<le> t" and "t \<le> int64_max" and "0 < u" and "i * u \<le> int64_max"
  shows "IntToTimePoint u t i = (if i \<le> 0 \<or> t + i * u > int64_max then None else Some (t + i * u))"
proof -
  have a: "to_int64 (int64_max - t) = int64_max - t" by (rule to_int64_id) (use assms in auto)
  show ?thesis
  proof (cases "i \<le> 0")
    case False
    then have "0 < i * u" using assms(3) by simp
    then have b: "to_int64 (i * u) = i * u" by (intro to_int64_id) (use assms in auto)
    show ?thesis
    proof (cases "t + i * u > int64_max")
      case True
      then show ?thesis using a b False by (simp add: IntToTimePoint_def)
    next
      case no: False
      have "to_int64 (t + i * u) = t + i * u" by (rule to_int64_id) (use no assms \<open>0 < i * u\<close> in auto)
      then show ?thesis using a b False no by (simp add: IntToTimePoint_def)
    qed
  qed (simp add: IntToTimePoint_def)
qed

lemma ParseInt_to_chars:
  assumes "lo \<le> v" and "v \<le> hi"
  shows "ParseInt lo hi (to_chars v) = Some v"
  using from_chars_to_chars [OF assms, of "[]"] by (simp add: ParseInt_def)

section \<open>SETEX and PSETEX\<close>

lemma SetEXFunctionBase_effect:
  assumes "svc_inv h s" and "room 1 s" and "length args = 4"
    and "ParseInt int64_min int64_max (args ! 2) = Some ll" and "f (now s) ll = Some tp"
  shows "effect h s (fst (SetEXFunctionBase h s args r f)) ((dat s)(args ! 1 \<mapsto> Some (args ! 3))) ((ext s)(args ! 1 \<mapsto> tp))"
    and "snd (SetEXFunctionBase h s args r f) = r"
proof -
  let ?k = "args ! 1"
  let ?s1 = "snd (data_Upsert h s ?k (Some (args ! 3)))"
  note t = svc_invD [OF assms(1)]
  note e1 = data_Upsert_effect(2) [OF t(1) assms(2), of ?k "Some (args ! 3)"]
  note d1 = effectD [OF e1]
  have rm: "room 0 ?s1" by (rule room_step [of _ ?k s]) (use assms(2) d1 in simp_all)
  have dm: "dom (ext ?s1) \<subseteq> dom (dat ?s1)" using d1 t(2) by auto
  note e2 = effect_trans [OF e1 expire_Upsert_effect(2) [OF d1(1) rm dm, of ?k tp]]
  show "effect h s (fst (SetEXFunctionBase h s args r f)) ((dat s)(?k \<mapsto> Some (args ! 3))) ((ext s)(?k \<mapsto> tp))"
    using effect_trans [OF e2 touch_effect [OF effectD(1) [OF e2], of ?k]] effectD [OF e2] d1 assms
    by (simp add: SetEXFunctionBase_def GetCommandTimeSnapshot_def Let_def)
  show "snd (SetEXFunctionBase h s args r f) = r"
    using assms by (simp add: SetEXFunctionBase_def GetCommandTimeSnapshot_def Let_def)
qed

text \<open>The time to live that a SETEX or PSETEX accepts.\<close>

definition setex_time :: "dss \<Rightarrow> int \<Rightarrow> string list \<Rightarrow> int option" where
  "setex_time s u args =
     (case ParseInt int64_min int64_max (args ! 2) of
        None \<Rightarrow> None
      | Some ll \<Rightarrow> if ll \<le> 0 \<or> now s + ll * u > int64_max then None else Some (now s + ll * u))"

lemma SetEXFunctionBase_cases:
  assumes "svc_inv h s" and "room 1 s" and "0 \<le> now s" and "now s \<le> int64_max" and "0 < u"
    and "\<And>ll. ParseInt int64_min int64_max (args ! 2) = Some ll \<Longrightarrow> ll * u \<le> int64_max"
    and "SetEXFunctionBase h s args r (IntToTimePoint u) = (s', r')"
  shows "svc_inv h s' \<and>
    (if length args \<noteq> 4 then s' = s \<and> r' = SetError kWrongArgNum r
     else case setex_time s u args of
       None \<Rightarrow> s' = s \<and> r' = SetError kNotAnInt r
     | Some tp \<Rightarrow> live s' = (live s)(args ! 1 \<mapsto> (args ! 3, Some tp)) \<and> r' = r)"
proof (cases "length args = 4 \<and> setex_time s u args \<noteq> None")
  case True
  then obtain ll tp where ll: "ParseInt int64_min int64_max (args ! 2) = Some ll" "ll > 0"
      "tp = now s + ll * u" "tp \<le> int64_max" "setex_time s u args = Some tp"
    by (auto simp: setex_time_def split: option.splits if_splits)
  have f: "IntToTimePoint u (now s) ll = Some tp"
    using IntToTimePoint_exact [OF assms(3,4,5), of ll] assms(6) [OF ll(1)] ll by simp
  note ef = SetEXFunctionBase_effect [OF assms(1,2) _ ll(1), of "IntToTimePoint u" tp r, OF _ f]
  note t = svc_invD [OF assms(1)]
  have e: "effect h s s' ((dat s)(args ! 1 \<mapsto> Some (args ! 3))) ((ext s)(args ! 1 \<mapsto> tp))" "r' = r"
    using ef assms(7) True by simp_all
  have "now s < tp" using ll assms(5) by simp
  then show ?thesis
    using effect_svc [OF e(1) dom_upd [OF t(2)] ran_upd_Some [OF t(3)]] effect_live [OF e(1)] e(2) True ll(5)
    by (simp add: view_of_upd live_view visible_def)
next
  case False
  then show ?thesis
    using assms IntToTimePoint_exact [OF assms(3,4,5)]
    by (auto simp: SetEXFunctionBase_def setex_time_def GetCommandTimeSnapshot_def Let_def split: option.splits if_splits)
qed



section \<open>GETDEL, GETSET and GETEX\<close>

lemma GetFunctionBase_frame:
  assumes "svc_inv h s" and "room n s"
  shows "room n (fst (snd (GetFunctionBase h s k r)))" and "now (fst (snd (GetFunctionBase h s k r))) = now s"
proof -
  note ef = FindOrExpire_effect(2) [OF svc_invD(1) [OF assms(1)], of k]
  have e1: "effect h s (snd (FindOrExpire h s k)) (dat (snd (FindOrExpire h s k))) (ext (snd (FindOrExpire h s k)))"
    using effectD [OF ef] by (simp add: effect_def)
  have "effect h s (fst (snd (GetFunctionBase h s k r))) (dat (snd (FindOrExpire h s k))) (ext (snd (FindOrExpire h s k)))"
    using e1 effect_trans [OF e1 touch_effect [OF effectD(1) [OF e1], of k]]
    by (cases "fst (FindOrExpire h s k)") (simp_all add: GetFunctionBase_def split_def Let_def)
  note d = effectD [OF this]
  have "card (dom (dat (snd (FindOrExpire h s k)))) \<le> card (dom (dat s))"
    by (rule card_mono [OF finite_dat]) (auto simp: effectD [OF ef] split: if_splits)
  then show "room n (fst (snd (GetFunctionBase h s k r)))" using assms(2) d by (simp add: room_def)
  show "now (fst (snd (GetFunctionBase h s k r))) = now s" using d by simp
qed


text \<open>The expire time that GETEX leaves, from its options.\<close>

definition getex_ttl :: "bool \<Rightarrow> int option \<Rightarrow> int option \<Rightarrow> int option" where
  "getex_ttl persist tp_opt old = (if persist then None else case tp_opt of None \<Rightarrow> old | Some tp \<Rightarrow> Some tp)"

lemma getex_callback:
  fixes persist :: bool and tp_opt :: "int option"
  assumes "svc_inv h s" and "room 1 s" and "live s k = Some (v, e)"
  defines "s' \<equiv> (if persist then snd (expire_Erase h s k)
                 else case tp_opt of None \<Rightarrow> s | Some tp \<Rightarrow> snd (expire_Upsert h s k tp))"
  shows "svc_inv h s'" and "live s' = (live s)(k := visible (now s) v (getex_ttl persist tp_opt e))"
proof -
  note t = svc_invD [OF assms(1)]
  have d: "dat s k = Some (Some v)" "ext s k = e" "\<not> expired s k"
    using assms(3) by (auto simp: live_def split: option.splits if_splits)
  have ef: "effect h s s' (dat s) ((ext s)(k := getex_ttl persist tp_opt e))"
    using expire_Erase_effect [OF t(1), of k] expire_Upsert_effect(1) [OF t(1) assms(2) t(2), of k]
      effect_refl [OF t(1)] d(2)
    by (auto simp: s'_def getex_ttl_def fun_upd_idem split: option.splits)
  have same: "(dat s)(k \<mapsto> Some v) = dat s" using d(1) by (simp add: fun_upd_idem)
  show "svc_inv h s'"
    by (rule effect_svc [OF ef]) (use t(2,3) d(1) in \<open>auto split: if_splits\<close>)
  show "live s' = (live s)(k := visible (now s) v (getex_ttl persist tp_opt e))"
    using effect_live [OF ef] view_of_upd(1) [of "now s" "dat s" k v "ext s" "getex_ttl persist tp_opt e"] same
    by (simp add: live_view)
qed

text \<open>
  C23. GETEX. It answers with the visible value and changes only the expire time of that key: PERSIST
  clears it, EX, PX, EXAT and PXAT set it, and without options it stays. Options that are not
  valid are errors that change nothing.
\<close>

theorem getex_behaviour:
  assumes "svc_inv h s" and "room 1 s" and "length args \<ge> 2" and "GetEXFunction h s args r = (s', r')"
  shows "svc_inv h s' \<and>
    (case getex_options args 2 (command_time_snapshot s) r False None of
       Inl r1 \<Rightarrow> s' = s \<and> r' = r1
     | Inr (r1, persist, tp_opt) \<Rightarrow>
         r' = value_reply (live s (args ! 1)) r1 \<and>
         live s' = (case live s (args ! 1) of
             None \<Rightarrow> live s
           | Some (v, e) \<Rightarrow> (live s)(args ! 1 := visible (command_time_snapshot s) v (getex_ttl persist tp_opt e))))"
proof (cases "getex_options args 2 (now s) r False None")
  case (Inl r1)
  then show ?thesis using assms by (simp add: GetEXFunction_def GetCommandTimeSnapshot_def)
next
  case (Inr x)
  obtain r1 persist tp_opt where x: "x = (r1, persist, tp_opt)" by (cases x)
  let ?k = "args ! 1"
  let ?g = "GetFunctionBase h s ?k r1"
  note g = GetFunctionBase_svc [OF assms(1), of ?k r1]
  have s': "r' = snd (snd ?g)" "s' = (if live s ?k = None then fst (snd ?g)
      else if persist then snd (expire_Erase h (fst (snd ?g)) ?k)
      else case tp_opt of None \<Rightarrow> fst (snd ?g) | Some tp \<Rightarrow> snd (expire_Upsert h (fst (snd ?g)) ?k tp))"
    using assms(3,4) Inr x g(1)
    by (auto simp: GetEXFunction_def GetFunctionBaseWithCallback_def GetCommandTimeSnapshot_def split_def Let_def
        split: option.splits)
  have rm: "room 1 (fst (snd ?g))" and nw: "now (fst (snd ?g)) = now s"
    using GetFunctionBase_frame [OF assms(1,2), of ?k r1] by simp_all
  show ?thesis
  proof (cases "live s ?k")
    case None
    then show ?thesis using Inr x s' g by simp
  next
    case (Some ve)
    obtain v e where ve: "ve = (v, e)" by (cases ve)
    have "live (fst (snd ?g)) ?k = Some (v, e)" using Some ve g(3) by simp
    note c = getex_callback [OF g(2) rm this, of persist tp_opt]
    show ?thesis using c Some ve Inr x s' g(3,4) nw by simp
  qed
qed


section \<open>The properties at work\<close>

lemma time_of_day:
  assumes "svc_inv h s"
  shows "svc_inv h (UpdateCommandTime t s)"
    and "dat (UpdateCommandTime t s) = dat s" and "ext (UpdateCommandTime t s) = ext s"
    and "live (UpdateCommandTime t s) = view_of t (dat s) (ext s)"
  using assms
  by (simp_all add: svc_inv_def tables_ok_def UpdateCommandTime_def dat_def ext_def live_view)


definition late_service :: dss where
  "late_service = UpdateCommandTime 5000 example_service"

lemma late_service: "svc_inv h late_service" "now late_service = 5000" "room 1 late_service"
  using time_of_day [OF example_service(1), where t = 5000] example_service(4) [of 1]
  by (simp_all add: late_service_def room_def) (simp add: UpdateCommandTime_def)



theorem getex_behaviour_witness:
  "live (fst (GetEXFunction (\<lambda>_. 0) example_store [''GETEX'', ''a'', ''PX'', ''70''] Result_init)) ''a'' = Some (''x'', Some 70)"
proof -
  have "getex_options [''GETEX'', ''a'', ''PX'', ''70''] 2 0 Result_init False None = Inr (Result_init, False, Some 70)"
    by code_simp
  then show ?thesis
    using getex_behaviour [OF example_store(1) example_room _ prod.collapse [symmetric],
        of "[''GETEX'', ''a'', ''PX'', ''70'']" Result_init]
    by (simp add: example_store getex_ttl_def visible_def)
qed

end
