(* ===== verification/RangeSpec.thy ===== *)
theory RangeSpec
  imports ExpirySpec
begin

text \<open>
  The string commands on parts of a value: APPEND, SETRANGE and GETRANGE, as the code has them.
\<close>

section \<open>APPEND\<close>

lemma AppendFunction_effect:
  fixes k v :: string
  assumes "svc_inv h s" and "room 1 s"
  defines "old \<equiv> (case dat s k of Some (Some w) \<Rightarrow> w | _ \<Rightarrow> [])"
  shows "effect h s (fst (AppendFunction h s [c, k, v] r)) ((dat s)(k \<mapsto> Some (old @ v))) (ext s)"
    and "snd (AppendFunction h s [c, k, v] r) = SetInt (int (length (old @ v))) r"
proof -
  note t = svc_invD [OF assms(1)]
  note fc = data_FindOrCreate_effect [OF t(1) assms(2), of k]
  note fd = effectD [OF fc(2)]
  let ?s1 = "snd (data_FindOrCreate h s k)"
  have v': "(if \<not> snd (fst (data_FindOrCreate h s k)) then Some v else map_option (\<lambda>w. w @ v) (fst (fst (data_FindOrCreate h s k))))
      = Some (old @ v)"
    using fc(1) t(3) by (auto simp: old_def ran_def split: option.splits)
  then show "snd (AppendFunction h s [c, k, v] r) = SetInt (int (length (old @ v))) r"
    by (simp add: AppendFunction_def split_def Let_def ptr_size_def)
  have r: "fst (AppendFunction h s [c, k, v] r) = touch k (data_set_value k (Some (old @ v)) ?s1)"
    using v' by (simp add: AppendFunction_def split_def Let_def)
  have "effect h ?s1 (data_set_value k (Some (old @ v)) ?s1) ((dat ?s1)(k \<mapsto> Some (old @ v))) (ext ?s1)"
    by (rule data_set_value_effect [OF fd(1)]) (simp add: fd)
  then have e1: "effect h s (data_set_value k (Some (old @ v)) ?s1) ((dat s)(k \<mapsto> Some (old @ v))) (ext s)"
    using effect_trans [OF fc(2)] fd by simp
  show "effect h s (fst (AppendFunction h s [c, k, v] r)) ((dat s)(k \<mapsto> Some (old @ v))) (ext s)"
    using effect_trans [OF e1 touch_effect [OF effectD(1) [OF e1], of k]] effectD [OF e1] r by simp
qed

text \<open>
  C24. APPEND. It adds the given characters behind the stored value, or stores them when there is
  none, keeps the expire time, leaves all other keys alone and answers with the new length. It does
  not look at the expire time: on a key that has expired and is still stored, it extends the old
  value, which stays invisible.
\<close>

theorem append_behaviour:
  assumes "svc_inv h s" and "room 1 s" and "AppendFunction h s [c, k, v] r = (s', r')"
  defines "old \<equiv> (case dat s k of Some (Some w) \<Rightarrow> w | _ \<Rightarrow> [])"
  shows "svc_inv h s' \<and> r' = SetInt (int (length (old @ v))) r \<and>
    live s' = (live s)(k := visible (command_time_snapshot s) (old @ v) (ext s k)) \<and>
    (\<forall>w e. live s k = Some (w, e) \<longrightarrow> live s' k = Some (w @ v, e))"
proof -
  note t = svc_invD [OF assms(1)]
  have e: "effect h s s' ((dat s)(k \<mapsto> Some (old @ v))) (ext s)" and r: "r' = SetInt (int (length (old @ v))) r"
    using AppendFunction_effect [OF assms(1,2), of c k v r] assms(3) by (simp_all add: old_def)
  have l: "live s' = (live s)(k := visible (now s) (old @ v) (ext s k))"
    using effect_live [OF e] by (simp add: view_of_upd_same live_view)
  moreover have "live s' k = Some (w @ v, e)" if "live s k = Some (w, e)" for w e
    using that l by (auto simp: old_def live_def visible_def expired_def split: option.splits if_splits)
  moreover have "dom (ext s) \<subseteq> dom ((dat s)(k \<mapsto> Some (old @ v)))" using t(2) by auto
  ultimately show ?thesis using r effect_svc [OF e _ ran_upd_Some [OF t(3)]] by blast
qed

section \<open>SETRANGE\<close>

text \<open>Up to its last assignment, SETRANGE leaves an entry whose value is null unless the key is visible.\<close>

lemma SetRange_run:
  fixes k v :: string and unique :: bool
  assumes "svc_inv h s" and "room 1 s" and "ParseInt 0 uint32_max offset = Some i"
  defines "v' \<equiv> set_range (the (dat s k)) (\<not> found s k \<or> \<not> unique) (nat i) v"
  obtains sp where "SetRangeFunction h unique s [c, k, offset, v] r = (touch k (data_set_value k v' sp), SetInt (ptr_size v') r)"
    and "effect h s sp ((dat s)(k \<mapsto> (if found s k then the (dat s k) else None)))
      ((ext s)(k := if found s k then ext s k else None))"
proof -
  note t = svc_invD [OF assms(1)]
  note fc = data_FindOrCreate_effect [OF t(1) assms(2), of k]
  note fd = effectD [OF fc(2)]
  let ?s1 = "snd (data_FindOrCreate h s k)"
  let ?s2 = "snd (expire_Find h ?s1 k)"
  let ?s3 = "snd (expire_Erase h (data_set_value k None ?s2) k)"
  note xf = expire_Find_effect [OF fd(1), of k]
  have e2: "effect h s ?s2 (dat ?s1) (ext s)" using effect_trans [OF fc(2) xf(2)] fd by simp
  note d2 = effectD [OF e2]
  have "effect h ?s2 (data_set_value k None ?s2) ((dat ?s2)(k \<mapsto> None)) (ext ?s2)"
    by (rule data_set_value_effect [OF d2(1)]) (simp add: d2 fd)
  note e3 = effect_trans [OF e2 this]
  have e4: "effect h s ?s3 ((dat s)(k \<mapsto> None)) ((ext s)(k := None))"
    using effect_trans [OF e3 expire_Erase_effect [OF effectD(1) [OF e3], of k]] effectD [OF e3] d2 fd by simp
  define sp where "sp = (if dat s k = None then ?s1 else if expired s k then ?s3 else ?s2)"
  have xf': "fst (expire_Find h ?s1 k) = ext s k" and nw: "now ?s2 = now s" using xf(1) fd d2 by simp_all
  have ex: "(case ext s k of None \<Rightarrow> False | Some tp \<Rightarrow> tp \<le> GetCommandTimeSnapshot ?s2) \<longleftrightarrow> expired s k"
    by (simp add: expired_def GetCommandTimeSnapshot_def nw split: option.splits)
  have "SetRangeFunction h unique s [c, k, offset, v] r = (touch k (data_set_value k v' sp), SetInt (ptr_size v') r)"
  proof (cases "dat s k")
    case None
    then have "fst (data_FindOrCreate h s k) = (None, False)" using fc(1) by simp
    then show ?thesis
      using None assms(3) by (simp add: SetRangeFunction_def split_def Let_def sp_def v'_def found_def set_range_def)
  next
    case (Some x)
    then have "fst (data_FindOrCreate h s k) = (x, True)" using fc(1) by simp
    then show ?thesis
      using Some assms(3) xf' ex
      by (cases "expired s k")
        (simp_all add: SetRangeFunction_def split_def Let_def sp_def v'_def found_def set_range_def)
  qed
  moreover have "effect h s sp ((dat s)(k \<mapsto> (if found s k then the (dat s k) else None)))
      ((ext s)(k := if found s k then ext s k else None))"
    using fc(2) e2 e4 t(4) [of k] fd by (cases "dat s k") (auto simp: sp_def found_def fun_upd_idem)
  ultimately show thesis by (rule that)
qed

lemma SetRange_effect:
  fixes k v :: string
  assumes "svc_inv h s" and "room 1 s" and "ParseInt 0 uint32_max offset = Some i"
  obtains w s' where "SetRangeFunction h unique s [c, k, offset, v] r = (s', SetInt (int (length w)) r)"
    and "effect h s s' ((dat s)(k \<mapsto> Some w)) ((ext s)(k := if found s k then ext s k else None))"
    and "Some w = set_range (the (dat s k)) (\<not> found s k \<or> \<not> unique) (nat i) v"
proof -
  define v' where "v' = set_range (the (dat s k)) (\<not> found s k \<or> \<not> unique) (nat i) v"
  obtain sp where sp: "SetRangeFunction h unique s [c, k, offset, v] r = (touch k (data_set_value k v' sp), SetInt (ptr_size v') r)"
    "effect h s sp ((dat s)(k \<mapsto> (if found s k then the (dat s k) else None))) ((ext s)(k := if found s k then ext s k else None))"
    by (rule SetRange_run [OF assms, where k = k and v = v and c = c and r = r and unique = unique, folded v'_def])
  note dp = effectD [OF sp(2)]
  have "effect h sp (data_set_value k v' sp) ((dat sp)(k \<mapsto> v')) (ext sp)"
    by (rule data_set_value_effect [OF dp(1)]) (simp add: dp)
  then have e1: "effect h s (data_set_value k v' sp) ((dat s)(k \<mapsto> v')) ((ext s)(k := if found s k then ext s k else None))"
    using effect_trans [OF sp(2)] dp by simp
  have e2: "effect h s (touch k (data_set_value k v' sp)) ((dat s)(k \<mapsto> v')) ((ext s)(k := if found s k then ext s k else None))"
    using effect_trans [OF e1 touch_effect [OF effectD(1) [OF e1], of k]] effectD [OF e1] by simp
  have "found s k \<Longrightarrow> the (dat s k) \<noteq> None"
    using svc_invD(3) [OF assms(1)] by (cases "the (dat s k)") (auto simp: found_def ran_def)
  then have "v' \<noteq> None" by (cases "found s k \<and> unique") (auto simp: v'_def set_range_def)
  then obtain w where w: "v' = Some w" by blast
  show thesis by (rule that [of "touch k (data_set_value k v' sp)" w]) (use sp(1) e2 w v'_def in \<open>simp_all add: ptr_size_def\<close>)
qed


section \<open>GETRANGE\<close>

lemma ParseInt_range: "ParseInt lo hi str = Some i \<Longrightarrow> lo \<le> i \<and> i \<le> hi"
  by (auto simp: ParseInt_def from_chars_def Let_def split: if_splits)

text \<open>The index that a possibly negative argument means: negative ones count from the end.\<close>

definition range_index :: "nat \<Rightarrow> int \<Rightarrow> nat" where
  "range_index len i = (if i < 0 then nat (int len + i) else min len (nat i))"

lemma transform_index_eq:
  assumes "len < 2147483648" and "int32_min \<le> i" and "i \<le> int32_max"
  shows "transform_index (to_int32 (int len)) i = range_index len i"
proof -
  have l: "to_int32 (int len) = int len" using assms(1) by simp
  show ?thesis
  proof (cases "i < 0")
    case True
    have "to_int32 (int len + i) = int len + i"
      unfolding to_int32_def by (rule signed_take_bit_int_eq_self) (use assms True in auto)
    then show ?thesis using True l assms by (simp add: transform_index_def range_index_def)
  next
    case False
    then show ?thesis using l assms by (auto simp: transform_index_def range_index_def min_def le_nat_iff)
  qed
qed



section \<open>The properties at work\<close>

theorem append_behaviour_witness:
  "live (fst (AppendFunction (\<lambda>_. 0) example_store [''APPEND'', ''b'', ''z''] Result_init)) ''b'' = Some (''yyz'', None)"
  using append_behaviour [OF example_store(1) example_room prod.collapse [symmetric], of "''APPEND''" "''b''" "''z''" Result_init,
      THEN conjunct2, THEN conjunct2, THEN conjunct2]
  by (simp add: example_store)



end
