(* ===== verification/KeyCommands.thy ===== *)
theory KeyCommands
  imports RangeSpec
begin

text \<open>
  The key commands of \<open>src/src/service/commands/key_commands.cc\<close>, TTL and DEL, and what they do to
  the key space.
\<close>

section \<open>TTL and DEL\<close>

text \<open>
  TTL accepts an argument list without a key and then reads \<open>args[1]\<close> behind its end: \<open>None\<close>. The
  difference of two time points is cut down to seconds towards zero; it is positive here.
\<close>

definition TtlFunction :: "hash_fn \<Rightarrow> dss \<Rightarrow> string list \<Rightarrow> result \<Rightarrow> (dss \<times> result) option" where
  "TtlFunction h s args r =
     (if length args > 2 then Some (s, SetError kWrongArgNum r)
      else if length args < 2 then None
      else
        (let key = args ! 1; (data_entry, s1) = data_Find h s key
         in if data_entry = None then Some (s1, SetInt (- 2) r)
            else
              (let (expire_entry, s2) = expire_Find h s1 key
               in case expire_entry of
                    None \<Rightarrow> Some (s2, SetInt (- 1) r)
                  | Some tp \<Rightarrow>
                      if tp \<le> GetCommandTimeSnapshot s2
                      then Some (snd (expire_Erase h (snd (data_Erase h s2 key)) key), SetInt (- 2) r)
                      else Some (s2, SetInt ((tp - GetCommandTimeSnapshot s2) div 1000) r))))"

definition DelFunction :: "hash_fn \<Rightarrow> dss \<Rightarrow> string list \<Rightarrow> result \<Rightarrow> dss \<times> result" where
  "DelFunction h s args r =
     (if length args < 2 then (s, SetError kWrongArgNum r)
      else
        (let (found_entries, s1) = visit_keys (FindOrExpire h) (\<lambda>k s. EraseKey h s k) (drop 1 args) s
         in (s1, SetInt (int (length (filter (\<lambda>entry. entry \<noteq> None) found_entries))) r)))"

section \<open>What they do\<close>

text \<open>
  C31. DEL removes exactly the keys it is given from the key space and answers with the number of
  different visible keys among them.
\<close>

theorem del_behaviour:
  assumes "svc_inv h s" and "DelFunction h s args r = (s', r')"
  shows "svc_inv h s' \<and>
    (if length args < 2 then s' = s \<and> r' = SetError kWrongArgNum r
     else live s' = live s |` (- set (tl args)) \<and> r' = SetInt (int (card (dom (live s) \<inter> set (tl args)))) r)"
  using svc.visit_remove [OF assms(1), of "tl args"] assms
  by (auto simp: DelFunction_def split_def Let_def drop_Suc split: if_splits)

text \<open>TTL finds what \<open>FindOrExpire\<close> finds and leaves the same state up to the order of the lookups.\<close>

lemma TtlFunction_effect:
  assumes "tables_ok h s" and "length args = 2"
  shows "\<exists>s'. TtlFunction h s args r = Some (s', SetInt (case dat s (args ! 1) of None \<Rightarrow> - 2
        | Some _ \<Rightarrow> (case ext s (args ! 1) of None \<Rightarrow> - 1
           | Some tp \<Rightarrow> if tp \<le> now s then - 2 else (tp - now s) div 1000)) r) \<and>
      effect h s s' (dat (snd (FindOrExpire h s (args ! 1)))) (ext (snd (FindOrExpire h s (args ! 1))))"
  using assms FindOrExpire_effect(2) [OF assms(1), of "args ! 1"]
  by (auto simp: TtlFunction_def split_def Let_def expired_def GetCommandTimeSnapshot_def effect_def
      find_rules split: option.splits)

text \<open>
  C32. TTL never changes the key space. For a visible key it answers with the whole seconds that are
  left, or - 1 if the key does not expire, and for every other key with - 2.
\<close>

theorem ttl_behaviour:
  assumes "svc_inv h s" and "length args = 2"
  shows "\<exists>s'. TtlFunction h s args r = Some (s', SetInt (case live s (args ! 1) of
        None \<Rightarrow> - 2
      | Some (v, None) \<Rightarrow> - 1
      | Some (v, Some tp) \<Rightarrow> (tp - command_time_snapshot s) div 1000) r) \<and>
    svc_inv h s' \<and> live s' = live s"
proof -
  note t = svc_invD [OF assms(1)]
  note f = FindOrExpire_svc [OF assms(1), of "args ! 1"]
  obtain s' where s': "TtlFunction h s args r = Some (s', SetInt (case dat s (args ! 1) of None \<Rightarrow> - 2
        | Some _ \<Rightarrow> (case ext s (args ! 1) of None \<Rightarrow> - 1
           | Some tp \<Rightarrow> if tp \<le> now s then - 2 else (tp - now s) div 1000)) r)"
      "effect h s s' (dat (snd (FindOrExpire h s (args ! 1)))) (ext (snd (FindOrExpire h s (args ! 1))))"
    using TtlFunction_effect [OF t(1) assms(2)] by blast
  have "live s' = live s"
    using effect_live [OF s'(2)] f(2) effectD [OF FindOrExpire_effect(2) [OF t(1), of "args ! 1"]]
    by (simp add: live_view)
  moreover have "svc_inv h s'" using f(1) effectD [OF s'(2)] by (simp add: svc_inv_def)
  moreover have "(case dat s (args ! 1) of None \<Rightarrow> - 2
        | Some _ \<Rightarrow> (case ext s (args ! 1) of None \<Rightarrow> - 1
           | Some tp \<Rightarrow> if tp \<le> now s then - 2 else (tp - now s) div 1000)) =
      (case live s (args ! 1) of None \<Rightarrow> - 2 | Some (v, None) \<Rightarrow> - 1
       | Some (v, Some tp) \<Rightarrow> (tp - now s) div 1000)"
    using t(3) by (auto simp: live_def expired_def ran_def split: option.splits)
  ultimately show ?thesis using s'(1) by auto
qed

section \<open>The properties at work\<close>

theorem del_behaviour_witness:
  "live (fst (DelFunction (\<lambda>_. 0) example_store [''DEL'', ''a'', ''c'', ''a''] Result_init)) = [''b'' \<mapsto> (''yy'', None)] \<and>
   snd (DelFunction (\<lambda>_. 0) example_store [''DEL'', ''a'', ''c'', ''a''] Result_init) = SetInt 1 Result_init"
proof -
  have "dom (live example_store) \<inter> set (tl [''DEL'', ''a'', ''c'', ''a'']) = {''a''}"
    by (auto simp: example_store)
  moreover have "live example_store |` (- set (tl [''DEL'', ''a'', ''c'', ''a''])) = [''b'' \<mapsto> (''yy'', None)]"
    by (auto simp: example_store restrict_map_def fun_eq_iff)
  ultimately show ?thesis
    using del_behaviour [OF example_store(1) prod.collapse [symmetric], of "[''DEL'', ''a'', ''c'', ''a'']" Result_init]
    by simp
qed

theorem ttl_behaviour_witness:
  "\<exists>s'. TtlFunction (\<lambda>_. 0) example_store [''TTL'', ''b''] Result_init = Some (s', SetInt (- 1) Result_init)"
  using ttl_behaviour [OF example_store(1), of "[''TTL'', ''b'']" Result_init] by (auto simp: example_store)

end
