(* ===== verification/CommandsInv.thy ===== *)
theory CommandsInv
  imports KeyCommands
begin

text \<open>
  Every command keeps the service well formed and changes nothing of its state but the two tables,
  whatever its arguments are. \<open>kept\<close> says this of one state after another; it composes, so each
  command is a few steps over the operations of the service.
\<close>

definition kept :: "hash_fn \<Rightarrow> dss \<Rightarrow> dss \<Rightarrow> bool" where
  "kept h s s' \<longleftrightarrow> svc_inv h s' \<and> aux s' = aux s"

lemma kept_refl [simp]: "kept h s s \<longleftrightarrow> svc_inv h s"
  by (simp add: kept_def)

lemma kept_trans: "kept h s s1 \<Longrightarrow> kept h s1 s2 \<Longrightarrow> kept h s s2"
  by (simp add: kept_def)

lemma keptD: "kept h s s' \<Longrightarrow> svc_inv h s'" "kept h s s' \<Longrightarrow> aux s' = aux s"
  by (simp_all add: kept_def)

lemma effect_kept:
  assumes "effect h s s' d e" and "dom e \<subseteq> dom d" and "None \<notin> ran d"
  shows "kept h s s'"
  using effect_svc [OF assms] effectD(4) [OF assms(1)] by (simp add: kept_def)

section \<open>The operations of the service\<close>

lemma FindOrExpire_kept: "svc_inv h s \<Longrightarrow> kept h s (snd (FindOrExpire h s k))"
  using FindOrExpire_svc(1) [of h s k] effectD(4) [OF FindOrExpire_effect(2) [OF svc_invD(1), of h s k]]
  by (simp add: kept_def)

lemma EraseKey_kept: "svc_inv h s \<Longrightarrow> kept h s (EraseKey h s k)"
  using EraseKey_svc(1) [of h s k] effectD(4) [OF EraseKey_effect [OF svc_invD(1), of h s k]]
  by (simp add: kept_def)

lemma touch_kept: "svc_inv h s \<Longrightarrow> kept h s (touch k s)"
  using touch_svc(1) [of h s k] effectD(4) [OF touch_effect [OF svc_invD(1), of h s k]]
  by (simp add: kept_def)

lemma SetData_kept:
  assumes "svc_inv h s" and "room (Suc n) s"
  shows "kept h s (snd (SetData h s k v mode get))"
  using SetData_svc(1) [OF assms, of k v mode get]
    effectD(4) [OF SetData_effect(2) [OF svc_invD(1) [OF assms(1)] assms(2), of k v mode get]]
  by (simp add: kept_def)

lemma expire_Erase_kept:
  assumes "svc_inv h s"
  shows "kept h s (snd (expire_Erase h s k))"
  using svc_invD [OF assms] by (intro effect_kept [OF expire_Erase_effect]) auto

lemma expire_Upsert_kept:
  assumes "svc_inv h s" and "room n s" and "dat s k \<noteq> None"
  shows "kept h s (snd (expire_Upsert h s k tp))" and "kept h s (snd (expire_Upsert_key h s k tp))"
  using svc_invD [OF assms(1)] assms(3)
  by (intro effect_kept [OF expire_Upsert_effect(1) [OF _ assms(2)]] effect_kept [OF expire_Upsert_effect(2) [OF _ assms(2)]];
      auto)+

lemma visit_keys_kept:
  assumes "svc_inv h s" and "\<And>k s. svc_inv h s \<Longrightarrow> kept h s (f k s)"
  shows "kept h s (snd (visit_keys (FindOrExpire h) f ks s))"
  using assms(1)
proof (induction ks arbitrary: s)
  case (Cons k ks)
  let ?s1 = "snd (FindOrExpire h s k)"
  let ?s2 = "if fst (FindOrExpire h s k) = None then ?s1 else f k ?s1"
  have "kept h s ?s2"
    using FindOrExpire_kept [OF Cons.prems, of k] assms(2) [of ?s1 k] kept_trans keptD(1) by (metis (full_types))
  then have "kept h s (snd (visit_keys (FindOrExpire h) f ks ?s2))"
    using Cons.IH [of ?s2] kept_trans keptD(1) by blast
  then show ?case by (simp add: split_def Let_def)
qed simp

section \<open>Reading commands\<close>

lemma GetFunctionBase_kept:
  assumes "svc_inv h s"
  shows "kept h s (fst (snd (GetFunctionBase h s key r)))"
  using FindOrExpire_kept [OF assms, of key] touch_kept [OF keptD(1), OF FindOrExpire_kept [OF assms, of key], of key]
  by (auto simp: GetFunctionBase_def split_def Let_def intro: kept_trans split: option.splits)

lemma read_commands_kept:
  assumes "svc_inv h s"
  shows "kept h s (fst (GetFunction h s args r))" and "kept h s (fst (StrlenFunction h s args r))"
    and "kept h s (fst (GetRangeFunction h s args r))" and "kept h s (fst (MGetFunction h s args r))"
    and "kept h s (fst (ExistsFunction h s args r))"
  using assms GetFunctionBase_kept [OF assms, of "args ! 1" r] FindOrExpire_kept [OF assms, of "args ! 1"]
    kept_trans [OF FindOrExpire_kept touch_kept, OF assms keptD(1), OF FindOrExpire_kept, OF assms, of "args ! 1" "args ! 1"]
    visit_keys_kept [OF assms touch_kept]
  by (auto simp: GetFunction_def StrlenFunction_def GetRangeFunction_def MGetFunction_def ExistsFunction_def
      split_def Let_def split: option.splits)

section \<open>Deleting and expiring commands\<close>

lemma delete_commands_kept:
  assumes "svc_inv h s"
  shows "kept h s (fst (DelFunction h s args r))" and "kept h s (fst (GetDelFunction h s args r))"
proof -
  note g = GetFunctionBase_kept [OF assms, of "args ! 1" r]
  show "kept h s (fst (GetDelFunction h s args r))"
    using assms g kept_trans [OF g EraseKey_kept [OF keptD(1) [OF g]]]
    by (simp add: GetDelFunction_def GetFunctionBaseWithCallback_def split_def Let_def)
  show "kept h s (fst (DelFunction h s args r))"
    using assms visit_keys_kept [OF assms EraseKey_kept] by (simp add: DelFunction_def split_def Let_def)
qed

lemma GetEXFunction_kept:
  assumes "svc_inv h s" and "room 1 s"
  shows "kept h s (fst (GetEXFunction h s args r))"
proof -
  have cb: "kept h s (fst (GetFunctionBaseWithCallback h s k r1 (\<lambda>s. if persist then snd (expire_Erase h s k)
      else case tp_opt of None \<Rightarrow> s | Some tp \<Rightarrow> snd (expire_Upsert h s k tp))))" for k r1 persist tp_opt
  proof -
    let ?s1 = "fst (snd (GetFunctionBase h s k r1))"
    note g = GetFunctionBase_kept [OF assms(1), of k r1] and v = GetFunctionBase_svc [OF assms(1), of k r1]
    have "dat ?s1 k \<noteq> None" if "fst (GetFunctionBase h s k r1) \<noteq> None"
    proof -
      have "live ?s1 k \<noteq> None" using that v(1,3) by simp
      then show ?thesis by (auto simp: live_def split: option.splits)
    qed
    then have "kept h s (if fst (GetFunctionBase h s k r1) = None then ?s1
        else if persist then snd (expire_Erase h ?s1 k)
        else case tp_opt of None \<Rightarrow> ?s1 | Some tp \<Rightarrow> snd (expire_Upsert h ?s1 k tp))"
      using g kept_trans [OF g expire_Erase_kept [OF v(2), of k]]
        kept_trans [OF g expire_Upsert_kept(1) [OF v(2) GetFunctionBase_frame(1) [OF assms, of k r1]]]
      by (auto split: option.split)
    then show ?thesis
      by (cases "fst (GetFunctionBase h s k r1)") (simp_all add: GetFunctionBaseWithCallback_def split_def Let_def)
  qed
  show ?thesis using assms(1) cb by (auto simp: GetEXFunction_def simp del: One_nat_def split: sum.split)
qed

lemma TtlFunction_kept:
  assumes "svc_inv h s" and "TtlFunction h s args r = Some (s', r')"
  shows "kept h s s'"
proof (cases "length args = 2")
  case True
  obtain s1 where "TtlFunction h s args r = Some (s1, r')"
      "effect h s s1 (dat (snd (FindOrExpire h s (args ! 1)))) (ext (snd (FindOrExpire h s (args ! 1))))"
    using TtlFunction_effect [OF svc_invD(1) [OF assms(1)] True, of r] assms(2) by auto
  then show ?thesis
    using svc_invD(2,3) [OF FindOrExpire_svc(1) [OF assms(1), of "args ! 1"]] assms(2) by (auto intro: effect_kept)
next
  case False
  then show ?thesis using assms by (auto simp: TtlFunction_def split: if_splits)
qed

section \<open>Writing commands\<close>

lemma set_dat_present:
  assumes "svc_inv h s" and "room (Suc n) s" and "fst (fst (SetData h s k v mode get)) \<noteq> kNoOp"
  shows "dat (snd (SetData h s k v mode get)) k \<noteq> None"
  using assms(3) SetData_effect(1) [OF svc_invD(1) [OF assms(1)] assms(2), of k v mode get]
    effectD(2) [OF SetData_effect(2) [OF svc_invD(1) [OF assms(1)] assms(2), of k v mode get]]
  by (cases mode) (auto split: if_splits)

lemma SetFunction_kept:
  assumes "svc_inv h s" and "room 1 s"
  shows "kept h s (fst (SetFunction h s args r))"
proof -
  have step: "kept h s (case et of Some tp \<Rightarrow> snd (expire_Upsert_key h (snd sd) (args ! 1) tp)
      | None \<Rightarrow> if b then snd (expire_Erase h (snd sd) (args ! 1)) else snd sd)" and "kept h s (snd sd)"
    if "sd = SetData h s (args ! 1) (args ! 2) mode get" and "fst (fst sd) \<noteq> kNoOp" for sd mode get et b
  proof -
    have r: "room (Suc 0) s" using assms(2) by simp
    note k = SetData_kept [OF assms(1) r, of "args ! 1" "args ! 2" mode get, folded that(1)]
    note v = SetData_svc(1,2) [OF assms(1) r, of "args ! 1" "args ! 2" mode get, folded that(1)]
    have "dat (snd sd) (args ! 1) \<noteq> None"
      using set_dat_present [OF assms(1) r, of "args ! 1" "args ! 2" mode get] that by simp
    then show "kept h s (case et of Some tp \<Rightarrow> snd (expire_Upsert_key h (snd sd) (args ! 1) tp)
        | None \<Rightarrow> if b then snd (expire_Erase h (snd sd) (args ! 1)) else snd sd)" and "kept h s (snd sd)"
      using k kept_trans [OF k expire_Erase_kept [OF v(1)]] kept_trans [OF k expire_Upsert_kept(2) [OF v]]
      by (auto split: option.split)
  qed
  have "kept h s (snd (SetData h s (args ! 1) (args ! 2) mode get))" for mode get
    using SetData_kept [OF assms(1), of 0] assms(2) by simp
  with step assms(1) show ?thesis
    unfolding SetFunction_def Let_def split_def by (simp split del: option.split split: if_split)
qed

lemma mset_loop_kept:
  assumes "svc_inv h s" and "room (length kvs) s"
  shows "kept h s (mset_loop h kvs s)" and "kept h s (snd (msetnx_loop h kvs b s))"
proof -
  show "kept h s (mset_loop h kvs s)"
    using assms
  proof (induction h kvs s rule: mset_loop.induct)
    case (1 h k v rest s)
    let ?s' = "snd (expire_Erase h (snd (SetData h s k v kRegular False)) k)"
    have r: "room (Suc (Suc (length rest))) s" using "1.prems"(2) by simp
    note sp = set_and_persist(1,2) [OF "1.prems"(1) r, of k v] and sd = SetData_svc(1) [OF "1.prems"(1) r, of k v kRegular False]
    have "kept h s ?s'"
      using kept_trans [OF SetData_kept [OF "1.prems"(1) r, of k v kRegular False] expire_Erase_kept [OF sd, of k]] .
    moreover have "room (length rest) ?s'" using sp(2) by (simp add: room_def)
    ultimately show ?case using "1.IH" [OF sp(1)] kept_trans by simp
  qed simp_all
  show "kept h s (snd (msetnx_loop h kvs b s))"
    using assms
  proof (induction h kvs b s rule: msetnx_loop.induct)
    case (1 h k v rest b s)
    have r: "room (Suc (Suc (length rest))) s" using "1.prems"(2) by simp
    note sd = SetData_svc(1,2) [OF "1.prems"(1) r, of k v kNX False]
    have "room (length rest) (snd (SetData h s k v kNX False))" using sd(2) by (simp add: room_def)
    note ih = "1.IH" [OF refl prod.collapse prod.collapse sd(1) this]
    show ?case using ih kept_trans [OF SetData_kept [OF "1.prems"(1) r, of k v kNX False]]
      by (simp add: split_def Let_def)
  qed simp_all
qed

lemma write_commands_kept:
  assumes "svc_inv h s" and "room (length args) s"
  shows "kept h s (fst (MSetFunction h s args r))" and "kept h s (fst (MSetNXFunction h s args r))"
    and "kept h s (fst (SetNXFunction h s args r))" and "kept h s (fst (GetSetFunction h s args r))"
proof -
  have l: "room (length (drop 1 args)) s" using assms(2) by (simp add: room_def)
  show "kept h s (fst (MSetFunction h s args r))" "kept h s (fst (MSetNXFunction h s args r))"
    using assms(1) mset_loop_kept [OF assms(1) l]
    by (simp_all add: MSetFunction_def MSetNXFunction_def split_def Let_def)
  have r: "room (Suc 0) s" if "length args = 3" using assms(2) that by (simp add: room_def)
  show "kept h s (fst (SetNXFunction h s args r))"
    using assms(1) SetData_kept [OF assms(1) r] by (simp add: SetNXFunction_def split_def Let_def)
  show "kept h s (fst (GetSetFunction h s args r))"
    using assms(1) SetData_kept [OF assms(1) r, of "args ! 1" "args ! 2" kRegular True]
      kept_trans [OF SetData_kept [OF assms(1) r] expire_Erase_kept [OF SetData_svc(1) [OF assms(1) r]], of "args ! 1" "args ! 2" kRegular True "args ! 1"]
    by (auto simp: GetSetFunction_def split_def Let_def split: option.split)
qed

lemma SetEXFunctionBase_kept:
  assumes "svc_inv h s" and "room 1 s"
  shows "kept h s (fst (SetEXFunctionBase h s args r f))"
proof (cases "length args = 4 \<and> (\<exists>ll tp. ParseInt int64_min int64_max (args ! 2) = Some ll \<and> f (now s) ll = Some tp)")
  case True
  then obtain ll tp where "length args = 4" "ParseInt int64_min int64_max (args ! 2) = Some ll" "f (now s) ll = Some tp"
    by blast
  then show ?thesis
    using svc_invD [OF assms(1)]
    by (intro effect_kept [OF SetEXFunctionBase_effect(1) [OF assms]] dom_upd ran_upd_Some)
next
  case False
  then have "fst (SetEXFunctionBase h s args r f) = s"
    by (auto simp: SetEXFunctionBase_def GetCommandTimeSnapshot_def Let_def split: option.splits)
  then show ?thesis using assms(1) by simp
qed

lemma list_of_length:
  "length xs = 3 \<Longrightarrow> xs = [xs ! 0, xs ! 1, xs ! 2]" "length xs = 4 \<Longrightarrow> xs = [xs ! 0, xs ! 1, xs ! 2, xs ! 3]"
  by (auto simp: numeral_eq_Suc length_Suc_conv)

lemma AppendFunction_kept:
  assumes "svc_inv h s" and "room 1 s"
  shows "kept h s (fst (AppendFunction h s args r))"
proof (cases "length args = 3")
  case True
  note t = svc_invD [OF assms(1)]
  have "kept h s (fst (AppendFunction h s [args ! 0, args ! 1, args ! 2] r))"
    using t(2) by (intro effect_kept [OF AppendFunction_effect(1) [OF assms]] ran_upd_Some t(3)) auto
  then show ?thesis using list_of_length(1) [OF True] by simp
qed (simp add: AppendFunction_def assms(1))

lemma SetRangeFunction_kept:
  assumes "svc_inv h s" and "room 1 s"
  shows "kept h s (fst (SetRangeFunction h unique s args r))"
proof (cases "length args = 4 \<and> ParseInt 0 uint32_max (args ! 2) \<noteq> None")
  case True
  then obtain i where i: "ParseInt 0 uint32_max (args ! 2) = Some i" by blast
  note t = svc_invD [OF assms(1)]
  obtain w s' where "SetRangeFunction h unique s [args ! 0, args ! 1, args ! 2, args ! 3] r = (s', SetInt (int (length w)) r)"
    and e: "effect h s s' ((dat s)(args ! 1 \<mapsto> Some w)) ((ext s)(args ! 1 := if found s (args ! 1) then ext s (args ! 1) else None))"
    by (rule SetRange_effect [OF assms i])
  then have "kept h s (fst (SetRangeFunction h unique s [args ! 0, args ! 1, args ! 2, args ! 3] r))"
    using effect_kept [OF e dom_upd [OF t(2)] ran_upd_Some [OF t(3)]] by simp
  then show ?thesis using list_of_length(2) [of args] True by simp
qed (auto simp: SetRangeFunction_def assms(1) split: option.split)

end
