(* ===== verification/MiscCommands.thy ===== *)
theory MiscCommands
  imports KeyCommands
begin

text \<open>
  The commands of \<open>src/src/service/commands/misc_commands.cc\<close> and \<open>client_commands.cc\<close>. What INFO
  prints of the process, the kernel and the server is an argument, the record \<open>info_env\<close>.
\<close>

section \<open>The sections of INFO\<close>

text \<open>
  Times are milliseconds, the server time microseconds. \<open>rss\<close> and \<open>totalram\<close> are \<open>None\<close> when the
  system call fails.
\<close>

record info_env =
  pid :: int
  server_time_usec :: int
  uptime :: int
  active_clients :: nat
  max_input_buffer :: nat
  max_output_buffer :: nat
  used_memory :: nat
  rss :: "int option"
  used_memory_peak :: nat
  totalram :: "nat option"
  connections_received :: nat
  net_input_bytes :: nat
  net_output_bytes :: nat
  rejected_connections :: nat

abbreviation put_int :: "int \<Rightarrow> string" where
  "put_int \<equiv> to_chars"

text \<open>A \<open>double\<close> that is a whole number of hundredths below 10000, as a stream prints it.\<close>

definition put_hundredths :: "nat \<Rightarrow> string" where
  "put_hundredths n =
     put_nat (n div 100) @
     (if n mod 100 = 0 then []
      else if n mod 10 = 0 then ''.'' @ put_nat (n mod 100 div 10)
      else ''.'' @ put_nat (n mod 100 div 10) @ put_nat (n mod 10))"

abbreviation newline :: string where
  "newline \<equiv> [CHR 0x0A]"

definition CollectServerInfo :: "info_env \<Rightarrow> dss \<Rightarrow> string" where
  "CollectServerInfo env s =
     ''# Server'' @ newline @
     ''multiplexing_api:io_uring'' @ newline @
     ''process_id:'' @ put_int (pid env) @ newline @
     ''tcp_port:'' @ put_nat (port (dconfig s)) @ newline @
     ''server_time_usec:'' @ put_int (server_time_usec env) @ newline @
     ''uptime_in_seconds:'' @ put_int (uptime env div 1000) @ newline @
     ''uptime_in_days:'' @ put_int (uptime env div 86400000) @ newline @
     ''hz:'' @ put_nat (hz (dconfig s)) @ newline @
     ''configured_hz:'' @ put_nat (hz (dconfig s)) @ newline @ newline"

definition CollectClientsInfo :: "info_env \<Rightarrow> dss \<Rightarrow> string" where
  "CollectClientsInfo env s =
     ''# Clients'' @ newline @
     ''connected_clients:'' @ put_nat (active_clients env) @ newline @
     ''maxclients:'' @ put_nat (maxclients (dconfig s)) @ newline @
     ''client_recent_max_input_buffer:'' @ put_nat (max_input_buffer env) @ newline @
     ''client_recent_max_output_buffer:'' @ put_nat (max_output_buffer env) @ newline @ newline"

definition CollectMemoryInfo :: "info_env \<Rightarrow> string" where
  "CollectMemoryInfo env =
     ''# Memory'' @ newline @
     ''used_memory:'' @ put_nat (used_memory env) @ newline @
     (case rss env of None \<Rightarrow> [] | Some n \<Rightarrow> ''used_memory_rss:'' @ put_int n @ newline) @
     ''used_memory_peak:'' @ put_nat (used_memory_peak env) @ newline @
     (case totalram env of None \<Rightarrow> [] | Some n \<Rightarrow> ''total_system_memory:'' @ put_nat n @ newline) @
     newline"

definition CollectStatsInfo :: "info_env \<Rightarrow> dss \<Rightarrow> string" where
  "CollectStatsInfo env s =
     ''# Stats'' @ newline @
     ''total_connections_received:'' @ put_nat (connections_received env) @ newline @
     ''total_commands_processed:'' @ put_nat (unat (commands_processed s)) @ newline @
     ''total_net_input_bytes:'' @ put_nat (net_input_bytes env) @ newline @
     ''total_net_output_bytes:'' @ put_nat (net_output_bytes env) @ newline @
     ''rejected_connections:'' @ put_nat (rejected_connections env) @ newline @
     ''expired_keys:'' @ put_nat (unat (active_expired_keys s)) @ newline @
     ''expired_stale_perc:'' @ put_hundredths (expired_stale_perc s) @ newline @
     ''expired_time_cap_reached_count:'' @ put_nat (expired_time_cap_reached_count s) @ newline @
     ''expire_cycle_cpu_milliseconds:'' @ put_int (expire_elapsed_time s div 1000000) @ newline @
     ''evicted_keys:'' @ put_nat (unat (evicted_keys s)) @ newline @
     newline"

definition CollectKeyspaceInfo :: "dss \<Rightarrow> string" where
  "CollectKeyspaceInfo s =
     ''# Keyspace'' @ newline @
     ''db0: keys='' @ put_nat (Count (data_ht s)) @ '',expires='' @ put_nat (Count (expire_ht s)) @ newline @ newline"

section \<open>The commands\<close>

text \<open>\<open>static_cast<int>\<close> of a count.\<close>

definition DbSizeFunction :: "dss \<Rightarrow> string list \<Rightarrow> result \<Rightarrow> dss \<times> result" where
  "DbSizeFunction s args r = (s, SetInt (to_int32 (int (Count (data_ht s)))) r)"

definition info_section :: "info_env \<Rightarrow> dss \<Rightarrow> string \<Rightarrow> string" where
  "info_section env s arg =
     (if arg = ''SERVER'' \<or> arg = ''server'' then CollectServerInfo env s
      else if arg = ''CLIENTS'' \<or> arg = ''clients'' then CollectClientsInfo env s
      else if arg = ''MEMORY'' \<or> arg = ''memory'' then CollectMemoryInfo env
      else if arg = ''STATS'' \<or> arg = ''stats'' then CollectStatsInfo env s
      else if arg = ''KEYSPACE'' \<or> arg = ''keyspace'' then CollectKeyspaceInfo s
      else [])"

definition InfoFunction :: "info_env \<Rightarrow> dss \<Rightarrow> string list \<Rightarrow> result \<Rightarrow> dss \<times> result" where
  "InfoFunction env s args r =
     (let stream =
        (if length args = 1
         then CollectServerInfo env s @ CollectClientsInfo env s @ CollectMemoryInfo env @
              CollectStatsInfo env s @ CollectKeyspaceInfo s
         else concat (map (info_section env s) (drop 1 args)))
      in (s, SetString (Some stream) r))"

definition CommandFunction :: "dss \<Rightarrow> string list \<Rightarrow> result \<Rightarrow> dss \<times> result" where
  "CommandFunction s args r = (s, SetString (Some '' '') r)"

definition ShutdownFunction :: "dss \<Rightarrow> string list \<Rightarrow> result \<Rightarrow> (dss \<times> result) option" where
  "ShutdownFunction s args r =
     (if length args > 1 then Some (s, SetError kWrongArgNum r)
      else map_option (\<lambda>s'. (s', SetNil r)) (Shutdown s))"

definition HelloFunction :: "dss \<Rightarrow> string list \<Rightarrow> result \<Rightarrow> dss \<times> result" where
  "HelloFunction s args r =
     (if length args = 2 \<and> args ! 1 = ''3'' then (s, SetOk r) else (s, SetError kProtocol r))"

end
