(* ===== verification/HashTableRuns.thy ===== *)
theory HashTableRuns
  imports HashTableSpec
begin

text \<open>
  Sequences of hash table operations: the table refines a finite map, whatever the hash
  function and wherever the incremental rehash stands; its invariant, count and load factor;
  and the end of every rehash.
\<close>

section \<open>Sequences of operations\<close>

datatype 'v ht_op =
    OpInsert string 'v
  | OpUpsert string 'v
  | OpErase string
  | OpFind string
  | OpTouch string "32 word"

datatype 'v ht_reply = RBool bool | RValue "'v option" | RUnit

fun table_step :: "hash_fn \<Rightarrow> 'v \<Rightarrow> 'v htable \<Rightarrow> 'v ht_op \<Rightarrow> 'v ht_reply \<times> 'v htable" where
  "table_step h dv t (OpInsert k v) = (let (b, t') = Insert h dv t k v in (RBool b, t'))"
| "table_step h dv t (OpUpsert k v) = (let (b, t') = Upsert h dv t k v in (RBool b, t'))"
| "table_step h dv t (OpErase k) = (let (b, t') = Erase h t k in (RBool b, t'))"
| "table_step h dv t (OpFind k) =
     (let (e, t') = Find h dv t k in (RValue (map_option evalue e), t'))"
| "table_step h dv t (OpTouch k l) = (RUnit, set_key_lru k l t)"

fun table_run :: "hash_fn \<Rightarrow> 'v \<Rightarrow> 'v htable \<Rightarrow> 'v ht_op list \<Rightarrow> 'v ht_reply list \<times> 'v htable" where
  "table_run h dv t [] = ([], t)"
| "table_run h dv t (x # xs) =
     (let (r, t1) = table_step h dv t x; (rs, t2) = table_run h dv t1 xs in (r # rs, t2))"

text \<open>The same operations on a finite map.\<close>

fun map_step :: "(string \<rightharpoonup> 'v) \<Rightarrow> 'v ht_op \<Rightarrow> 'v ht_reply \<times> (string \<rightharpoonup> 'v)" where
  "map_step m (OpInsert k v) = (RBool (m k = None), if m k = None then m(k \<mapsto> v) else m)"
| "map_step m (OpUpsert k v) = (RBool (m k \<noteq> None), m(k \<mapsto> v))"
| "map_step m (OpErase k) = (RBool (m k \<noteq> None), m(k := None))"
| "map_step m (OpFind k) = (RValue (m k), m)"
| "map_step m (OpTouch k l) = (RUnit, m)"

fun map_run :: "(string \<rightharpoonup> 'v) \<Rightarrow> 'v ht_op list \<Rightarrow> 'v ht_reply list \<times> (string \<rightharpoonup> 'v)" where
  "map_run m [] = ([], m)"
| "map_run m (x # xs) =
     (let (r, m1) = map_step m x; (rs, m2) = map_run m1 xs in (r # rs, m2))"

lemma entries_init [simp]: "entries HashTable_init = 0"
  by (simp add: HashTable_init_def)

lemma dom_vmap: "dom (vmap t) = dom (ht_map t)"
  by (auto simp: vmap_def dom_def)

lemma entries_card_vmap: "ht_inv h t \<Longrightarrow> entries t = card (dom (vmap t))"
  by (simp add: dom_vmap entries_card)

lemma map_step_card:
  "finite (dom m) \<Longrightarrow> map_step m x = (r, m') \<Longrightarrow> finite (dom m') \<and> card (dom m') \<le> Suc (card (dom m))"
  by (cases x) (auto simp: card_insert_if dom_fun_upd card_Diff_singleton_if split: if_splits)

lemma table_step_correct:
  assumes "ht_inv h t" and "ht_room t" and "table_step h dv t x = (r, t')"
  shows "ht_inv h t' \<and> (r, vmap t') = map_step (vmap t) x"
proof (cases x)
  case (OpInsert k v)
  then obtain b where "Insert h dv t k v = (b, t')" "r = RBool b"
    using assms(3) by (auto split: prod.splits)
  with Insert_correct [OF assms(1,2)] OpInsert show ?thesis by auto
next
  case (OpUpsert k v)
  then obtain b where "Upsert h dv t k v = (b, t')" "r = RBool b"
    using assms(3) by (auto split: prod.splits)
  with Upsert_correct [OF assms(1,2)] OpUpsert show ?thesis by auto
next
  case (OpErase k)
  then obtain b where b: "Erase h t k = (b, t')" "r = RBool b"
    using assms(3) by (auto split: prod.splits)
  have "ht_inv h t'" "b = (ht_map t k \<noteq> None)" "vmap t' = (vmap t)(k := None)"
    using ht.erase_inv [OF assms(1), of k] ht.erase_result [OF assms(1), of k]
      Erase_vmap [OF assms(1), of k] b by simp_all
  with OpErase b show ?thesis by (simp add: vmap_def)
next
  case (OpFind k)
  then obtain e where e: "Find h dv t k = (e, t')" "r = RValue (map_option evalue e)"
    using assms(3) by (auto split: prod.splits)
  have "ht_inv h t'" "e = ht_map t k" "vmap t' = vmap t"
    using ht.find_inv [OF assms(1), of dv k] ht.find_result [OF assms(1), of dv k]
      Find_vmap [OF assms(1), of dv k] e by simp_all
  with OpFind e show ?thesis by (simp add: vmap_def)
next
  case (OpTouch k l)
  with assms set_key_lru_correct(1) [OF assms(1)] set_key_lru_vmap [OF assms(1)]
  show ?thesis by auto
qed

lemma table_run_correct:
  assumes "ht_inv h t" and "entries t + length ops \<le> 1073741824"
    and "table_run h dv t ops = (rs, t')"
  shows "ht_inv h t' \<and> (rs, vmap t') = map_run (vmap t) ops"
  using assms
proof (induction ops arbitrary: t rs)
  case Nil
  then show ?case by simp
next
  case (Cons x xs)
  obtain r t1 where s: "table_step h dv t x = (r, t1)" by fastforce
  obtain rs1 t2 where rest: "table_run h dv t1 xs = (rs1, t2)" by fastforce
  have eq: "rs = r # rs1" "t' = t2" using Cons.prems(3) s rest by auto
  have room: "ht_room t" using Cons.prems(2) by (simp add: ht_room_def)
  note c = table_step_correct [OF Cons.prems(1) room s]
  have "finite (dom (vmap t))" by (simp add: dom_vmap finite_ht_map)
  then have "card (dom (vmap t1)) \<le> Suc (card (dom (vmap t)))"
    using map_step_card c by (metis (no_types))
  then have "entries t1 + length xs \<le> 1073741824"
    using Cons.prems(2) c entries_card_vmap [OF Cons.prems(1)] entries_card_vmap [of h t1] by simp
  with Cons.IH [of t1 rs1] rest eq(2) c
  have "ht_inv h t' \<and> (rs1, vmap t') = map_run (vmap t1) xs" by blast
  with c eq show ?case by (simp add: Let_def split: prod.splits) (metis fst_conv snd_conv)
qed

text \<open>
  C4. Any sequence of inserts, upserts, erases, lookups and access-time updates on a new hash
  table gives the replies of the same sequence on a finite map, and leaves the table holding
  exactly that map. It holds for every hash function, so through every collision pattern and
  every state of the incremental rehash; the bound on the length keeps bucket indices in 32 bits.
\<close>

theorem table_refines_map:
  assumes "length ops \<le> 1073741824"
  shows "fst (table_run h dv HashTable_init ops) = fst (map_run Map.empty ops) \<and>
    vmap (snd (table_run h dv HashTable_init ops)) = snd (map_run Map.empty ops)"
proof -
  obtain rs t where r: "table_run h dv HashTable_init ops = (rs, t)" by fastforce
  have "(rs, vmap t) = map_run (vmap HashTable_init) ops"
    using table_run_correct [OF ht_inv_init _ r] assms by simp
  then have "map_run Map.empty ops = (rs, vmap t)" by (simp add: vmap_init)
  then show ?thesis using r by simp
qed

theorem table_refines_map_witness:
  "fst (table_run (\<lambda>_. 0) (0 :: int) HashTable_init
     [OpUpsert ''a'' 1, OpUpsert ''b'' 2, OpErase ''a'', OpFind ''a'', OpFind ''b'']) =
   [RBool False, RBool False, RBool True, RValue None, RValue (Some 2)]"
  using table_refines_map [of "[OpUpsert ''a'' 1, OpUpsert ''b'' 2, OpErase ''a'', OpFind ''a'', OpFind ''b'']"
      "\<lambda>_. 0" "0 :: int"] by simp

text \<open>
  C12. After any such sequence the table satisfies its invariant: entries in the bucket their
  hash selects, no duplicate keys, drained buckets empty; \<open>Count\<close> is the number of keys, and the
  load factor stays below two (at most one outside a rehash).
\<close>

theorem table_invariant:
  assumes "length ops \<le> 1073741824" and "t = snd (table_run h dv HashTable_init ops)"
  shows "ht_inv h t \<and> Count t = card (dom (vmap t)) \<and>
    (BucketCount t = 0 \<and> Count t = 0 \<or> Count t < 2 * BucketCount t) \<and>
    (\<not> IsRehashing t \<longrightarrow> Count t \<le> BucketCount t)"
proof -
  have i: "ht_inv h t"
    using table_run_correct [OF ht_inv_init, of ops h dv] assms
    by (cases "table_run h dv HashTable_init ops") simp
  then consider "stable h t" | "rehashing h t" by (auto simp: ht_inv_def)
  then have "(BucketCount t = 0 \<and> Count t = 0 \<or> Count t < 2 * BucketCount t) \<and>
    (\<not> IsRehashing t \<longrightarrow> Count t \<le> BucketCount t)"
  proof cases
    case 1
    then have "buckets0 t = [] \<longrightarrow> entries t = 0"
      by (auto simp: stable_def counted_def all_entries_def)
    moreover have "buckets0 t \<noteq> [] \<longrightarrow> entries t < 2 * length (buckets0 t)"
      using 1 by (cases "buckets0 t") (auto simp: stable_def)
    ultimately show ?thesis using 1 by (auto simp: stable_def Count_def BucketCount_def)
  next
    case 2
    with rehashing_IsRehashing [OF 2] show ?thesis
      by (auto simp: rehashing_def Count_def BucketCount_def)
  qed
  with i show ?thesis by (simp add: Count_def entries_card_vmap)
qed

theorem table_invariant_witness:
  "Count (snd (table_run (\<lambda>_. 0) () HashTable_init [OpInsert ''a'' (), OpInsert ''b'' ()])) = 2"
proof -
  let ?ops = "[OpInsert ''a'' (), OpInsert ''b'' ()]"
  have "Count (snd (table_run (\<lambda>_. 0) () HashTable_init ?ops)) =
      card (dom (vmap (snd (table_run (\<lambda>_. 0) () HashTable_init ?ops))))"
    using table_invariant [of ?ops _ "\<lambda>_. 0" "()"] by simp
  also have "\<dots> = card (dom (snd (map_run Map.empty ?ops)))"
    using table_run_correct [OF ht_inv_init, of ?ops "\<lambda>_. 0" "()"]
    by (cases "table_run (\<lambda>_. 0) () HashTable_init ?ops") (simp add: vmap_init)
  finally show ?thesis by simp
qed

section \<open>Every rehash ends\<close>

lemma FindBucket_progress:
  assumes "ht_inv h t" and "buckets0 t \<noteq> []" and "FindBucket h t k = (p, t')"
  shows "(\<not> IsRehashing t \<longrightarrow> t' = t) \<and>
    (IsRehashing t' \<longrightarrow> length (buckets0 t') = length (buckets0 t) \<and> rehash_index t < rehash_index t')"
proof (cases "IsRehashing t")
  case True
  then have "rehashing h t" using assms(1) by (auto simp: ht_inv_def dest: stable_not_rehashing)
  then obtain f where adv: "advanced h t f t'" using FindBucket_correct [OF assms] by blast
  with True advanced_IsRehashing [OF adv] show ?thesis by (simp add: advanced_def)
next
  case False
  then show ?thesis using assms(3) by (auto simp: FindBucket_def)
qed

lemma Find_table:
  "buckets0 t \<noteq> [] \<Longrightarrow> snd (Find h dv t k) = snd (FindBucket h t k)"
  by (auto simp: Find_def FindOrCreate_def split: prod.splits option.splits)

definition rehash_left :: "'v htable \<Rightarrow> nat" where
  "rehash_left t = (if IsRehashing t then nat (int (length (buckets0 t)) - rehash_index t) else 0)"

lemma Find_rehash_left:
  assumes "ht_inv h t"
  shows "rehash_left (snd (Find h dv t k)) \<le> rehash_left t - 1"
proof (cases "buckets0 t = []")
  case True
  then have "stable h t" using assms by (auto simp: ht_inv_def rehashing_def)
  moreover have "snd (Find h dv t k) = t" using True by (simp add: Find_def FindOrCreate_def)
  ultimately show ?thesis by (simp add: rehash_left_def stable_not_rehashing)
next
  case False
  obtain p t' where fb: "FindBucket h t k = (p, t')" by fastforce
  have "ht_inv h t'" using FindBucket_correct [OF assms False fb] by blast
  then have "IsRehashing t' \<longrightarrow> rehash_index t' < int (length (buckets0 t'))"
    by (auto simp: ht_inv_def rehashing_def dest: stable_not_rehashing)
  with FindBucket_progress [OF assms False fb] show ?thesis
    using Find_table [OF False, of h dv k] fb by (auto simp: rehash_left_def)
qed

definition lookups :: "hash_fn \<Rightarrow> 'v \<Rightarrow> 'v htable \<Rightarrow> string list \<Rightarrow> 'v htable" where
  "lookups h dv = foldl (\<lambda>t k. snd (Find h dv t k))"

lemma lookups_rehash_left:
  "ht_inv h t \<Longrightarrow> ht_inv h (lookups h dv t ks) \<and> rehash_left (lookups h dv t ks) \<le> rehash_left t - length ks"
proof (induction ks arbitrary: t)
  case Nil
  then show ?case by (simp add: lookups_def)
next
  case (Cons k ks)
  have "ht_inv h (snd (Find h dv t k))" using Cons.prems by (rule ht.find_inv)
  from Cons.IH [OF this] Find_rehash_left [OF Cons.prems, of dv k] show ?case
    by (auto simp: lookups_def)
qed

text \<open>
  C13. A rehash ends: looking up as many keys (any keys, present or not) as the table has
  buckets leaves a table that is no longer rehashing.
\<close>

theorem rehash_finishes:
  assumes "ht_inv h t" and "BucketCount t \<le> length ks"
  shows "\<not> IsRehashing (lookups h dv t ks)"
proof
  assume re: "IsRehashing (lookups h dv t ks)"
  note l = lookups_rehash_left [OF assms(1), of dv ks]
  have "rehash_left t \<le> BucketCount t"
    by (auto simp: rehash_left_def BucketCount_def IsRehashing_def)
  then have "rehash_left (lookups h dv t ks) = 0" using l assms(2) by simp
  moreover have "rehashing h (lookups h dv t ks)"
    using l re by (auto simp: ht_inv_def dest: stable_not_rehashing)
  ultimately show False using re by (auto simp: rehash_left_def rehashing_def)
qed

text \<open>A table that five inserts have left in the middle of its first rehash.\<close>

definition example_hash :: hash_fn where
  "example_hash k = of_nat (length k)"

definition growing_ops :: "nat ht_op list" where
  "growing_ops = [OpInsert ''a'' 1, OpInsert ''bb'' 2, OpInsert ''ccc'' 3, OpInsert ''dd'' 4,
     OpInsert ''e'' 5]"

definition growing_table :: "nat htable" where
  "growing_table = snd (table_run example_hash 0 HashTable_init growing_ops)"

lemma growing_table_inv: "ht_inv example_hash growing_table"
  using table_run_correct [OF ht_inv_init, of growing_ops example_hash 0, OF _ prod.collapse [symmetric]]
  by (simp add: growing_table_def growing_ops_def del: table_run.simps)

lemma growing_table_rehashing: "IsRehashing growing_table \<and> BucketCount growing_table = 4"
  by code_simp

theorem rehash_finishes_witness:
  "IsRehashing growing_table \<and>
   \<not> IsRehashing (lookups example_hash 0 growing_table [''a'', ''x'', ''y'', ''z''])"
  using rehash_finishes [OF growing_table_inv, of "[''a'', ''x'', ''y'', ''z'']" 0]
    growing_table_rehashing by simp

text \<open>
  Memory safety of the bucket accesses: in every well-formed table the iterator
  \<open>FindBucket\<close> returns points into the bucket vector it names, although the index went
  through a 32-bit signed cast (so the assertion on the second vector's size holds).
\<close>

theorem FindBucket_in_range:
  assumes "ht_inv h t" and "buckets0 t \<noteq> []"
  shows "place_ok (snd (FindBucket h t k)) (fst (FindBucket h t k))"
proof -
  obtain p t' where fb: "FindBucket h t k = (p, t')" by fastforce
  have "ht_inv h t'" "buckets0 t' \<noteq> []" "p = locate h t' k"
    using FindBucket_correct [OF assms fb] by blast+
  then show ?thesis using fb locate_correct(1) by simp
qed

theorem FindBucket_in_range_witness:
  "place_ok (snd (FindBucket example_hash growing_table ''bb''))
     (fst (FindBucket example_hash growing_table ''bb''))"
  by (rule FindBucket_in_range [OF growing_table_inv]) code_simp

end
