(* ===== verification/HashCursor.thy ===== *)
theory HashCursor
  imports HashTableRuns
begin

text \<open>
  The traversal and sampling operations of \<open>src/src/data_structure/hash_table.h\<close>: the reverse
  binary cursor \<open>detail::NextIndex\<close> with its bit reversal \<open>detail::rev\<close>, the bucket scan
  \<open>TraverseBucket\<close> that active expiration uses, and \<open>GetRandomEntry\<close>, which the eviction
  policies use. Stepping the cursor from bucket 0 visits every bucket of a table once and
  returns to 0; sampling can return every entry of the table and nothing else.
\<close>

unbundle bit_operations_syntax

section \<open>The reverse binary cursor\<close>

text \<open>\<open>size_t\<close> is a 64-bit word here; \<open>rev_bits\<close> is \<open>detail::rev\<close> and \<open>rev_loop\<close> its loop.\<close>

function rev_loop :: "nat \<Rightarrow> 64 word \<Rightarrow> 64 word \<Rightarrow> 64 word" where
  "rev_loop s m v =
     (let s' = s div 2
      in if s' > 0
         then (let m' = m XOR push_bit s' m
               in rev_loop s' m' ((drop_bit s' v AND m') OR (push_bit s' v AND NOT m')))
         else v)"
  by auto
termination
  by (relation "measure (\<lambda>(s, m, v). s)") auto

declare rev_loop.simps [simp del]

definition rev_bits :: "64 word \<Rightarrow> 64 word" where
  "rev_bits v = rev_loop 64 (NOT 0) v"

text \<open>
  After the round for block length \<open>s\<close> the mask selects the blocks of \<open>s\<close> bits with an even
  number, and the rounds from there on reverse the order inside each block of \<open>s\<close> bits.
\<close>

definition block_mask :: "nat \<Rightarrow> 64 word \<Rightarrow> bool" where
  "block_mask s m \<longleftrightarrow> (\<forall>i<64. bit m i \<longleftrightarrow> even (i div s))"

lemma parity_of_halves:
  "(even (q div 2) \<noteq> (1 \<le> q \<and> even ((q - 1) div 2))) \<longleftrightarrow> even (q :: nat)"
proof (cases "even q")
  case True
  then obtain r where "q = 2 * r" by (auto elim: evenE)
  then show ?thesis by (cases r) auto
next
  case False
  then obtain r where "q = 2 * r + 1" by (auto elim: oddE)
  then show ?thesis by simp
qed

lemma block_mask_halve:
  assumes "block_mask (2 * s) m" and "0 < s"
  shows "block_mask s (m XOR push_bit s m)"
  unfolding block_mask_def
proof (intro allI impI)
  fix i :: nat
  assume i: "i < 64"
  have d: "x div (2 * s) = (x div s) div 2" for x
    by (simp add: div_mult2_eq mult.commute)
  have "s \<le> i \<longleftrightarrow> 1 \<le> i div s"
    using \<open>0 < s\<close> by (simp add: Suc_le_eq div_greater_zero_iff)
  moreover have "(i - s) div s = i div s - 1"
    using \<open>0 < s\<close> by (cases "s \<le> i") (simp_all add: le_div_geq)
  ultimately show "bit (m XOR push_bit s m) i \<longleftrightarrow> even (i div s)"
    using assms(1) i parity_of_halves [of "i div s"]
    by (auto simp: block_mask_def bit_simps d)
qed

definition block_rev :: "nat \<Rightarrow> nat \<Rightarrow> nat" where
  "block_rev s n = n div s * s + (s - 1 - n mod s)"

lemma block_rev_double:
  assumes "0 < s"
  shows "block_rev (2 * s) n =
    (if even (n div s) then block_rev s n + s else block_rev s n - s)"
proof -
  define q r where "q = n div s" and "r = n mod s"
  have r: "r < s" and n: "n = q * s + r" using assms by (auto simp: q_def r_def)
  have d: "n div (2 * s) = q div 2" by (simp add: q_def div_mult2_eq mult.commute)
  have m: "n mod (2 * s) = s * (q mod 2) + r"
    by (simp add: q_def r_def mod_mult2_eq mult.commute [of 2])
  show ?thesis
  proof (cases "even q")
    case True
    then obtain p where "q = 2 * p" by (auto elim: evenE)
    then show ?thesis using r d m by (simp add: block_rev_def flip: q_def r_def)
  next
    case False
    then obtain p where "q = 2 * p + 1" by (auto elim: oddE)
    then have "n div (2 * s) = p" and "n mod (2 * s) = s + r" using d m by simp_all
    then show ?thesis using r \<open>q = 2 * p + 1\<close>
      by (simp add: block_rev_def flip: q_def r_def)
  qed
qed

lemma bit_rev_loop:
  assumes "block_mask (2 ^ k) m" and "k \<le> 6" and "n < 64"
  shows "bit (rev_loop (2 ^ k) m v) n \<longleftrightarrow> bit v (block_rev (2 ^ k) n)"
  using assms
proof (induction k arbitrary: m v)
  case 0
  have "rev_loop 1 m v = v" by (subst rev_loop.simps) simp
  then show ?case by (simp add: block_rev_def)
next
  case (Suc k)
  define s where "s = (2 :: nat) ^ k"
  define m' where "m' = m XOR push_bit s m"
  define w where "w = (drop_bit s v AND m') OR (push_bit s v AND NOT m')"
  define j where "j = block_rev s n"
  have s: "0 < s" by (simp add: s_def)
  have bm: "block_mask s m'"
    using block_mask_halve [OF _ s] Suc.prems(1) by (simp add: m'_def s_def)
  have "rev_loop (2 * s) m v = rev_loop s m' w"
    using s by (subst rev_loop.simps) (simp add: Let_def m'_def w_def)
  then have step: "bit (rev_loop (2 ^ Suc k) m v) n \<longleftrightarrow> bit w j"
    using Suc.IH [of m' w] bm Suc.prems by (simp add: s_def j_def)
  have q: "j div s = n div s" and jm: "j mod s = s - 1 - n mod s"
    using s by (simp_all add: j_def block_rev_def)
  have j64: "j < 64"
  proof -
    have "2 ^ 6 = s * 2 ^ (6 - k)"
      using Suc.prems(2) by (simp add: s_def flip: power_add)
    then have "n div s < 2 ^ (6 - k)" using Suc.prems(3)
      by (simp add: less_mult_imp_div_less mult.commute)
    then have "j div s < 2 ^ (6 - k)" using q by simp
    then have "j < 2 ^ (6 - k) * s" using s by (simp add: div_less_iff_less_mult)
    then show ?thesis using \<open>2 ^ 6 = s * 2 ^ (6 - k)\<close> by (simp add: mult.commute)
  qed
  have "bit w j \<longleftrightarrow> bit v (if even (j div s) then j + s else j - s)"
  proof (cases "even (j div s)")
    case True
    then have "bit m' j" using bm j64 by (simp add: block_mask_def)
    then show ?thesis using True by (simp add: w_def bit_simps add.commute)
  next
    case False
    then have "\<not> bit m' j" and "s \<le> j" 
      using bm j64 by (auto simp: block_mask_def) (metis div_less even_zero not_le)
    then show ?thesis using False j64 by (simp add: w_def bit_simps)
  qed
  then show ?case
    using step q block_rev_double [OF s, of n] by (simp add: j_def s_def)
qed

lemma bit_rev_bits: "bit (rev_bits v) n \<longleftrightarrow> n < 64 \<and> bit v (63 - n)"
proof (cases "n < 64")
  case True
  have "block_mask (2 ^ 6) (NOT 0)" by (simp add: block_mask_def bit_simps)
  from bit_rev_loop [OF this _ True, of v] show ?thesis
    using True by (simp add: rev_bits_def block_rev_def)
next
  case False
  then show ?thesis using bit_imp_le_length [of "rev_bits v" n] by auto
qed

lemma rev_bits_rev_bits [simp]: "rev_bits (rev_bits v) = v"
  by (rule bit_word_eqI) (auto simp: bit_rev_bits)

lemma rev_bits_or: "rev_bits (v OR w) = rev_bits v OR rev_bits w"
  by (rule bit_word_eqI) (simp add: bit_rev_bits bit_simps)

text \<open>
  The \<open>for\<close> loop of \<open>NextIndex\<close>: the highest of the bits \<open>n - 1\<close>, ..., 0 that is set, or -1.
  The code then shifts by it, which has no meaning for -1; \<open>NextIndex\<close> is used for sizes with a
  bit below 32 set only.
\<close>

fun top_bit :: "nat \<Rightarrow> 64 word \<Rightarrow> int" where
  "top_bit 0 n = -1"
| "top_bit (Suc i) n = (if drop_bit i n AND 1 \<noteq> 0 then int i else top_bit i n)"

definition NextIndex :: "64 word \<Rightarrow> 64 word \<Rightarrow> 64 word" where
  "NextIndex index n =
     (let i = top_bit 32 n;
          m = push_bit (nat i) 1 - 1
      in rev_bits (rev_bits (index OR NOT m) + 1))"

lemma drop_bit_2p: "drop_bit i (2 ^ k :: 64 word) AND 1 \<noteq> 0 \<longleftrightarrow> i = k" if "k < 64" for i k
proof -
  have "drop_bit i (2 ^ k :: 64 word) AND 1 \<noteq> 0 \<longleftrightarrow> bit (2 ^ k :: 64 word) i"
    by (simp add: bit_iff_odd_drop_bit and_one_eq mod_2_eq_odd)
  then show ?thesis using that by (auto simp: bit_simps)
qed

lemma top_bit_2p: "k < n \<Longrightarrow> n \<le> 32 \<Longrightarrow> top_bit n (2 ^ k) = int k"
proof (induction n)
  case (Suc n)
  then show ?case using drop_bit_2p [of k n] by (cases "n = k") auto
qed simp

text \<open>The index of the \<open>j\<close>-th bucket that a scan of \<open>2 ^ k\<close> buckets visits.\<close>

definition scan_pos :: "nat \<Rightarrow> nat \<Rightarrow> 64 word" where
  "scan_pos k j = rev_bits (push_bit (64 - k) (of_nat j))"

lemma rev_not_mask: "k \<le> 64 \<Longrightarrow> rev_bits (NOT (mask k)) = mask (64 - k)"
  by (rule bit_word_eqI) (auto simp: bit_rev_bits bit_simps)

lemma NextIndex_scan_pos:
  assumes "k < 32"
  shows "NextIndex (scan_pos k j) (2 ^ k) = scan_pos k (Suc j)"
proof -
  have "push_bit k 1 - 1 = (mask k :: 64 word)" by (simp add: mask_eq_exp_minus_1)
  then have "NextIndex (scan_pos k j) (2 ^ k) =
      rev_bits ((push_bit (64 - k) (of_nat j) OR mask (64 - k)) + 1)"
    using assms by (simp add: NextIndex_def top_bit_2p rev_bits_or rev_not_mask scan_pos_def)
  also have "push_bit (64 - k) (of_nat j) OR mask (64 - k) =
      push_bit (64 - k) (of_nat j) + (mask (64 - k) :: 64 word)"
    by (rule disjunctive_add_eq_or [symmetric]) (rule bit_word_eqI, auto simp: bit_simps)
  also have "push_bit (64 - k) (of_nat j) + mask (64 - k) + 1 =
      (push_bit (64 - k) (of_nat (Suc j)) :: 64 word)"
    by (simp add: push_bit_eq_mult mask_eq_exp_minus_1 algebra_simps)
  finally show ?thesis by (simp add: scan_pos_def)
qed


lemma scan_pos_0: "scan_pos k 0 = 0"
  by (rule bit_word_eqI) (simp add: scan_pos_def bit_rev_bits)

lemma scan_pos_wrap: "k \<le> 64 \<Longrightarrow> scan_pos k (2 ^ k) = 0"
  by (rule bit_word_eqI) (simp add: scan_pos_def bit_rev_bits bit_simps, arith)

lemma scan_pos_inj: "k < 64 \<Longrightarrow> inj_on (scan_pos k) {..<2 ^ k}"
proof (rule inj_onI)
  fix i j :: nat
  assume k: "k < 64" and "i \<in> {..<2 ^ k}" "j \<in> {..<2 ^ k}" and "scan_pos k i = scan_pos k j"
  then have eq: "push_bit (64 - k) (of_nat i :: 64 word) = push_bit (64 - k) (of_nat j)"
    unfolding scan_pos_def by (metis rev_bits_rev_bits)
  show "i = j"
  proof (rule bit_eqI)
    fix n
    show "bit i n \<longleftrightarrow> bit j n"
    proof (cases "n < k")
      case True
      have "bit (push_bit (64 - k) (of_nat i :: 64 word)) (n + (64 - k)) =
          bit (push_bit (64 - k) (of_nat j :: 64 word)) (n + (64 - k))"
        using eq by simp
      moreover have "n + (64 - k) < 64" using True k by simp
      ultimately show ?thesis using k by (simp add: bit_push_bit_iff bit_of_nat_iff del: Nat.add_diff_assoc)
    next
      case False
      then have "i < 2 ^ n" "j < 2 ^ n"
        using \<open>i \<in> _\<close> \<open>j \<in> _\<close> power_increasing [of k n "2 :: nat"] by (auto intro: less_le_trans)
      then show ?thesis by (simp add: bit_iff_odd)
    qed
  qed
qed

lemma scan_pos_less: "k < 64 \<Longrightarrow> unat (scan_pos k j) < 2 ^ k"
proof -
  assume k: "k < 64"
  have "take_bit k (scan_pos k j) = scan_pos k j"
    using k by (intro bit_word_eqI) (auto simp: scan_pos_def bit_rev_bits bit_simps)
  then have "take_bit k (unat (scan_pos k j)) = unat (scan_pos k j)"
    by (metis unsigned_take_bit_eq)
  then show ?thesis by (simp add: take_bit_nat_eq_self_iff)
qed

lemma scan_pos_bij:
  assumes "k < 64"
  shows "bij_betw (\<lambda>j. unat (scan_pos k j)) {..<2 ^ k} {..<2 ^ k}"
proof -
  have "inj_on (\<lambda>j. unat (scan_pos k j)) {..<2 ^ k}"
    using scan_pos_inj [OF assms] by (auto simp: inj_on_def word_unat_eq_iff)
  moreover have "(\<lambda>j. unat (scan_pos k j)) ` {..<2 ^ k} \<subseteq> {..<2 ^ k}"
    using scan_pos_less [OF assms] by auto
  ultimately show ?thesis
    by (simp add: bij_betw_def endo_inj_surj)
qed


section \<open>Traversal, sampling and destruction\<close>

text \<open>
  \<open>TraverseBucket\<close> applies the callback \<open>func\<close> to each entry of one bucket, a state transformer
  here, and returns the next index of the scan. The chain is the one at the call: the callback
  does not change it.
\<close>

definition TraverseBucket :: "nat \<Rightarrow> ('v hentry \<Rightarrow> 's \<Rightarrow> 's) \<Rightarrow> 'v htable \<Rightarrow> 's \<Rightarrow> nat \<times> 's" where
  "TraverseBucket bucket_index func t s =
     (if IsRehashing t then (0, s)
      else (unat (NextIndex (of_nat bucket_index) (of_nat (length (buckets0 t)))),
            fold func (buckets0 t ! bucket_index) s))"

text \<open>
  \<open>GetRandomEntry\<close> reads the outputs of \<open>std::rand\<close> from a list and returns what is left of it.
  \<open>None\<close> says that the list ended inside the loop that looks for a bucket with entries; a null
  pointer is \<open>Some (None, _)\<close>.
\<close>

fun random_bucket :: "'v htable \<Rightarrow> nat list \<Rightarrow> ('v bucket \<times> nat list) option" where
  "random_bucket t [] = None"
| "random_bucket t (r # rs) =
     (let bucket_index = r mod length (buckets0 t);
          bucket = (if to_int32 (int bucket_index) \<ge> rehash_index t then buckets0 t ! bucket_index
                    else buckets1 t ! (r mod length (buckets1 t)))
      in if bucket = [] then random_bucket t rs else Some (bucket, rs))"

fun GetRandomEntryInBucket :: "'v bucket \<Rightarrow> nat list \<Rightarrow> ('v hentry \<times> nat list) option" where
  "GetRandomEntryInBucket bucket [] = None"
| "GetRandomEntryInBucket bucket (r # rs) = Some (bucket ! (r mod length bucket), rs)"

definition GetRandomEntry :: "'v htable \<Rightarrow> nat list \<Rightarrow> ('v hentry option \<times> nat list) option" where
  "GetRandomEntry t rs =
     (if buckets0 t = [] then Some (None, rs)
      else case random_bucket t rs of
        None \<Rightarrow> None
      | Some (bucket, rs1) \<Rightarrow>
          map_option (\<lambda>(e, rs2). (Some e, rs2)) (GetRandomEntryInBucket bucket rs1))"

text \<open>The destructor's \<open>Clear\<close>: the entries it destroys, in order, and the table it leaves.\<close>

definition Clear :: "'v htable \<Rightarrow> 'v hentry list \<times> 'v htable" where
  "Clear t = (concat (buckets0 t) @ concat (buckets1 t), t\<lparr>rehash_index := -1\<rparr>)"

text \<open>\<open>n\<close> successive calls of \<open>TraverseBucket\<close>, each at the index the one before returned.\<close>

fun scan :: "nat \<Rightarrow> nat \<Rightarrow> ('v hentry \<Rightarrow> 's \<Rightarrow> 's) \<Rightarrow> 'v htable \<Rightarrow> 's \<Rightarrow> nat \<times> 's" where
  "scan 0 i func t s = (i, s)"
| "scan (Suc n) i func t s = (let (i', s') = TraverseBucket i func t s in scan n i' func t s')"

lemma scan_visits:
  assumes "\<not> IsRehashing t" and "length (buckets0 t) = 2 ^ k" and "k < 32"
  shows "scan n (unat (scan_pos k j)) func t s =
    (unat (scan_pos k (j + n)),
     fold func (concat (map (\<lambda>i. buckets0 t ! unat (scan_pos k i)) [j..<j + n])) s)"
proof (induction n arbitrary: j s)
  case (Suc n)
  have "TraverseBucket (unat (scan_pos k j)) func t s =
      (unat (scan_pos k (Suc j)), fold func (buckets0 t ! unat (scan_pos k j)) s)"
    using assms by (simp add: TraverseBucket_def NextIndex_scan_pos)
  then show ?case using Suc.IH [of "Suc j"] by (simp add: upt_conv_Cons del: upt_Suc)
qed simp

lemma scan_order_mset:
  assumes "k < 32" and "length bs = 2 ^ k"
  shows "mset (concat (map (\<lambda>i. bs ! unat (scan_pos k i)) [0..<2 ^ k])) = mset (concat bs)"
proof -
  have upt: "mset [0..<2 ^ k] = mset_set {..<2 ^ k}"
    by (metis atLeast0LessThan mset_upt)
  have "image_mset (\<lambda>j. unat (scan_pos k j)) (mset_set {..<2 ^ k}) = mset_set {..<2 ^ k}"
    using scan_pos_bij [of k] assms(1)
    by (simp add: bij_betw_def image_mset_mset_set)
  then have "image_mset ((!) bs) (image_mset (\<lambda>j. unat (scan_pos k j)) (mset [0..<2 ^ k])) =
      image_mset ((!) bs) (mset [0..<2 ^ k])"
    by (simp only: upt)
  then have "mset (map (\<lambda>i. bs ! unat (scan_pos k i)) [0..<2 ^ k]) = mset (map ((!) bs) [0..<2 ^ k])"
    by (simp add: multiset.map_comp o_def)
  also have "map ((!) bs) [0..<2 ^ k] = bs" using assms(2) by (metis map_nth)
  finally have "mset (map mset (map (\<lambda>i. bs ! unat (scan_pos k i)) [0..<2 ^ k])) = mset (map mset bs)"
    by (metis mset_map)
  then show ?thesis by (metis mset_concat sum_mset_sum_list)
qed

text \<open>
  C14. Outside a rehash, as many successive calls of \<open>TraverseBucket\<close> as the table has buckets,
  the first at index 0 and each next one at the index the call before returned, apply the
  callback to every entry of the table exactly once and end at index 0 again.
\<close>

theorem scan_visits_once:
  assumes "ht_inv h t" and "\<not> IsRehashing t" and "0 < BucketCount t"
    and "scan (BucketCount t) 0 (\<lambda>e visited. visited @ [e]) t [] = (next_index, visited)"
  shows "next_index = 0 \<and> distinct (map kstr visited) \<and>
    map_of (map (\<lambda>e. (kstr e, e)) visited) = ht_map t"
proof -
  have st: "stable h t" using assms(1,2) rehashing_IsRehashing by (auto simp: ht_inv_def)
  then have p: "pow2_size (length (buckets0 t))" and b1: "buckets1 t = []" and c: "counted t"
    using assms(3) by (auto simp: stable_def BucketCount_def)
  from p obtain k where k: "length (buckets0 t) = 2 ^ k" and "(2 :: nat) ^ k < 2 ^ 31"
    by (auto simp: pow2_size_def)
  then have "k < 32" using power_less_imp_less_exp [of "2 :: nat" k 31] by simp
  have app: "fold (\<lambda>e visited. visited @ [e]) es acc = acc @ es" for es acc :: "'a hentry list"
    by (induction es arbitrary: acc) auto
  from scan_visits [OF assms(2) k \<open>k < 32\<close>, where j = 0 and n = "2 ^ k" and
      func = "\<lambda>e visited. visited @ [e]" and s = "[]"] assms(4)
  have n: "next_index = 0" and v: "visited =
      concat (map (\<lambda>i. buckets0 t ! unat (scan_pos k i)) [0..<2 ^ k])"
    using \<open>k < 32\<close> by (simp_all add: BucketCount_def k scan_pos_0 scan_pos_wrap app)
  have m: "mset visited = mset (all_entries t)"
    using scan_order_mset [OF \<open>k < 32\<close> k] b1 by (simp add: v all_entries_def)
  have d: "distinct (map kstr (all_entries t))" using c by (simp add: counted_def)
  have "distinct (map kstr visited)" using distinct_map_mset [OF m, of kstr] d by simp
  then show ?thesis
    using n map_of_keyed_mset [OF m, of kstr] by (simp add: ht_map_def)
qed

definition scan_ops :: "nat ht_op list" where
  "scan_ops = [OpInsert ''a'' 1, OpInsert ''bb'' 2, OpInsert ''cc'' 3]"

definition scan_example :: "nat htable" where
  "scan_example = snd (table_run example_hash 0 HashTable_init scan_ops)"

lemma scan_example_inv: "ht_inv example_hash scan_example"
  using table_run_correct [OF ht_inv_init, of scan_ops example_hash 0, OF _ prod.collapse [symmetric]]
  by (simp add: scan_example_def scan_ops_def del: table_run.simps)

theorem scan_visits_once_witness:
  "fst (scan 4 0 (\<lambda>e visited. visited @ [e]) scan_example []) = 0 \<and>
   distinct (map kstr (snd (scan 4 0 (\<lambda>e visited. visited @ [e]) scan_example [])))"
proof -
  have "BucketCount scan_example = 4 \<and> \<not> IsRehashing scan_example" by code_simp
  then show ?thesis
    using scan_visits_once [OF scan_example_inv _ _ prod.collapse [symmetric]]
    by (simp del: scan.simps)
qed

lemma random_bucket_sound:
  assumes "random_bucket t rs = Some (b, rs')" and "buckets0 t \<noteq> []"
    and "buckets1 t = [] \<longrightarrow> rehash_index t \<le> 0" and "length (buckets0 t) < 2147483648"
  shows "b \<noteq> [] \<and> set b \<subseteq> set (all_entries t)"
  using assms
proof (induction rs)
  case (Cons r rs)
  define i where "i = r mod length (buckets0 t)"
  have i: "i < length (buckets0 t)" using Cons.prems(2) by (simp add: i_def)
  have ti: "to_int32 (int i) = int i" using i Cons.prems(4) by simp
  show ?case
  proof (cases "int i \<ge> rehash_index t")
    case True
    then show ?thesis
      using Cons i ti nth_mem [OF i]
      by (auto simp: Let_def all_entries_def simp flip: i_def split: if_splits)
  next
    case False
    then have "buckets1 t \<noteq> []" using Cons.prems(3) by linarith
    then have "buckets1 t ! (r mod length (buckets1 t)) \<in> set (buckets1 t)" by simp
    then show ?thesis
      using Cons False ti
      by (auto simp: Let_def all_entries_def simp flip: i_def split: if_splits)
  qed
qed simp

lemma ht_inv_pow2: "ht_inv h t \<Longrightarrow> buckets0 t \<noteq> [] \<Longrightarrow> pow2_size (length (buckets0 t))"
  unfolding ht_inv_def stable_def rehashing_def draining_def by blast

lemma ht_inv_shape:
  assumes "ht_inv h t" and "buckets0 t \<noteq> []"
  shows "(buckets1 t = [] \<longrightarrow> rehash_index t \<le> 0) \<and> length (buckets0 t) < 2147483648"
proof -
  have "rehash_index t \<le> 0" if "buckets1 t = []"
  proof (rule ccontr)
    assume "\<not> rehash_index t \<le> 0"
    then have "rehashing h t" using assms(1) by (auto simp: ht_inv_def stable_def)
    then have "length (buckets1 t) = 2 * length (buckets0 t)"
      unfolding rehashing_def draining_def by blast
    then show False using that assms(2) by simp
  qed
  then show ?thesis using pow2_size_bound [OF ht_inv_pow2 [OF assms]] by simp
qed

lemma nth_concat_length: "i < length bs \<Longrightarrow> length (bs ! i) \<le> length (concat bs)"
  by (simp add: length_concat member_le_sum_list)

lemma random_bucket_complete:
  assumes "ht_inv h t" and "e \<in> set (all_entries t)"
  obtains r b where "r < 2147483648" and "random_bucket t [r] = Some (b, [])" and "e \<in> set b"
    and "length b \<le> length (all_entries t)"
proof -
  consider (b0) i where "i < length (buckets0 t)" "e \<in> set (buckets0 t ! i)"
    | (b1) i where "i < length (buckets1 t)" "e \<in> set (buckets1 t ! i)"
    using assms(2) unfolding all_entries_def set_append Un_iff set_concat_nth by blast
  then show thesis
  proof cases
    case b0
    from b0(1) have "buckets0 t \<noteq> []" by auto
    note pn = ht_inv_pow2 [OF assms(1) this]
    have "int i \<ge> rehash_index t"
    proof (rule ccontr)
      assume lt: "\<not> int i \<ge> rehash_index t"
      then have "rehashing h t" using assms(1) by (auto simp: ht_inv_def stable_def)
      then obtain r where "rehash_index t = int r" and "\<forall>i<r. buckets0 t ! i = []"
        unfolding rehashing_def draining_def by blast
      then show False using lt b0(2) by auto
    qed
    then have "random_bucket t [i] = Some (buckets0 t ! i, [])"
      using b0 to_int32_of_nat [OF order.strict_trans [OF b0(1) pow2_size_bound [OF pn]]]
      by (auto simp: Let_def)
    moreover have "length (buckets0 t ! i) \<le> length (all_entries t)"
      using nth_concat_length [OF b0(1)] by (simp add: all_entries_def)
    moreover have "i < 2147483648" using b0(1) pow2_size_bound [OF pn] by linarith
    ultimately show thesis using b0(2) by (intro that)
  next
    case b1
    then have re: "rehashing h t" using assms(1) by (auto simp: ht_inv_def stable_def)
    then obtain r where r: "rehash_index t = int r" and d: "draining h r t" by (auto simp: rehashing_def)
    let ?n = "length (buckets0 t)" and ?m = "length (buckets1 t)"
    have m: "?m = 2 * ?n" and pm: "pow2_size ?m" and pn: "pow2_size ?n"
      and pl: "placed h (buckets1 t)"
      and low: "\<forall>e\<in>set (concat (buckets1 t)). slot h ?n (kstr e) < r"
      using d unfolding draining_def by blast+
    have "slot h ?m (kstr e) = i" using pl b1 unfolding placed_def by blast
    moreover have "slot h ?n (kstr e) < r" 
      using low b1 set_concat_nth [of e "buckets1 t"] by blast
    ultimately have "i mod ?n < r" using mod_mod_cancel [of ?n ?m "unat (h (kstr e))"] m by simp
    then have "\<not> to_int32 (int (i mod ?n)) \<ge> rehash_index t"
      using r to_int32_of_nat [OF order.strict_trans [OF mod_less_divisor [OF pow2_size_pos [OF pn]]
          pow2_size_bound [OF pn]]] by simp
    then have "random_bucket t [i] = Some (buckets1 t ! i, [])"
      using b1 by (auto simp: Let_def)
    moreover have "length (buckets1 t ! i) \<le> length (all_entries t)"
      using nth_concat_length [OF b1(1)] by (simp add: all_entries_def)
    moreover have "i < 2147483648" using b1(1) pow2_size_bound [OF pm] by linarith
    ultimately show thesis using b1(2) by (intro that)
  qed
qed

lemma ht_inv_entries_bound:
  assumes "ht_inv h t"
  shows "length (all_entries t) < 2147483648"
proof (cases "buckets0 t = []")
  case True
  then show ?thesis using assms
    by (auto simp: ht_inv_def stable_def rehashing_def all_entries_def)
next
  case False
  have e: "entries t = length (all_entries t)" using ht_inv_counted [OF assms] by (simp add: counted_def)
  from assms consider "stable h t" | r where "r < length (buckets0 t)" "draining h r t"
      "entries t \<le> length (buckets0 t) + r"
    by (auto simp: ht_inv_def rehashing_def)
  then show ?thesis
  proof cases
    case 1
    then show ?thesis using False e pow2_size_bound [of "length (buckets0 t)"]
      by (simp add: stable_def)
  next
    case 2
    then have p: "pow2_size (length (buckets1 t))" and "length (buckets1 t) = 2 * length (buckets0 t)"
      unfolding draining_def by blast+
    then show ?thesis using 2 e pow2_size_bound [OF p] by linarith
  qed
qed

text \<open>
  C15. The entries that \<open>GetRandomEntry\<close> can return, over all sequences of outputs of \<open>rand\<close>
  (below \<open>2 ^ 31\<close>), are exactly the entries of the table, during a rehash too.
\<close>

theorem sampling_reaches_exactly_the_entries:
  assumes "ht_inv h t"
  shows "(\<exists>rs rs'. (\<forall>r\<in>set rs. r < 2147483648) \<and> GetRandomEntry t rs = Some (Some e, rs')) \<longleftrightarrow>
    ht_map t (kstr e) = Some e"
proof -
  have d: "distinct (map kstr (all_entries t))"
    using ht_inv_counted [OF assms] by (simp add: counted_def)
  have mem: "ht_map t (kstr e) = Some e \<longleftrightarrow> e \<in> set (all_entries t)"
    using d by (auto simp: ht_map_def map_of_keyed_eq_Some)
  show ?thesis
    unfolding mem
  proof (intro iffI)
    assume "\<exists>rs rs'. (\<forall>r\<in>set rs. r < 2147483648) \<and> GetRandomEntry t rs = Some (Some e, rs')"
    then obtain rs b r rs1 rs' where ne: "buckets0 t \<noteq> []" and b: "random_bucket t rs = Some (b, rs1)"
      and g: "GetRandomEntryInBucket b rs1 = Some (e, rs')"
      by (auto simp: GetRandomEntry_def split: if_splits option.splits)
    have "b \<noteq> [] \<and> set b \<subseteq> set (all_entries t)"
      using random_bucket_sound [OF b ne] ht_inv_shape [OF assms ne] by blast
    then show "e \<in> set (all_entries t)"
      using g by (cases rs1) auto
  next
    assume e: "e \<in> set (all_entries t)"
    obtain r b where r: "r < 2147483648" and b: "random_bucket t [r] = Some (b, [])"
      and eb: "e \<in> set b" and l: "length b \<le> length (all_entries t)"
      using random_bucket_complete [OF assms e] by blast
    from eb obtain j where j: "j < length b" "b ! j = e" by (auto simp: in_set_conv_nth)
    have rb: "random_bucket t (r # xs) = Some (b, xs)" for xs
      using b by (auto simp: Let_def split: if_splits)
    have "buckets0 t \<noteq> []" using assms e
      by (auto simp: ht_inv_def stable_def rehashing_def all_entries_def)
    then have "GetRandomEntry t [r, j] = Some (Some e, [])"
      using rb [of "[j]"] j by (simp add: GetRandomEntry_def del: random_bucket.simps)
    moreover have "j < 2147483648" using j l ht_inv_entries_bound [OF assms] by simp
    ultimately show "\<exists>rs rs'. (\<forall>r\<in>set rs. r < 2147483648) \<and> GetRandomEntry t rs = Some (Some e, rs')"
      using r by (intro exI [of _ "[r, j]"] exI [of _ "[]"]) simp
  qed
qed

theorem sampling_witness:
  "(\<exists>rs rs'. (\<forall>r\<in>set rs. r < 2147483648) \<and>
     GetRandomEntry growing_table rs = Some (Some (new_entry 0 ''bb''\<lparr>evalue := 2\<rparr>), rs'))"
proof -
  have "ht_map growing_table (kstr (new_entry 0 ''bb''\<lparr>evalue := 2\<rparr>)) =
      Some (new_entry 0 ''bb''\<lparr>evalue := (2 :: nat)\<rparr>)"
    by code_simp
  then show ?thesis
    using sampling_reaches_exactly_the_entries [OF growing_table_inv] by blast
qed

end
