(* ===== verification/Eviction.thy ===== *)
theory Eviction
  imports HashCursor StringSpec
begin

text \<open>
  The evictor of \<open>src/src/service/eviction_strategy.cc\<close>. What the memory tracker reports is an
  argument: the bytes in use, and for each evicted key the bytes by which the count went down.
  Random numbers are read from a list. \<open>None\<close> is a run for which one of the lists was too short,
  or a loop that did not end within its rounds.
\<close>

section \<open>The evictor\<close>

text \<open>\<open>detail::Now()\<close> is the argument \<open>n\<close>.\<close>

definition RefreshLRUClock :: "32 word \<Rightarrow> dss \<Rightarrow> dss" where
  "RefreshLRUClock n s = s\<lparr>lru_clock := n\<rparr>"

definition MaxmemoryExceeded :: "nat \<Rightarrow> dss \<Rightarrow> nat" where
  "MaxmemoryExceeded allocated s =
     (if maxmemory (dconfig s) = 0 then 0
      else if allocated \<le> maxmemory (dconfig s) then 0
      else allocated - maxmemory (dconfig s))"

definition kEvictionPoolLimit :: nat where
  "kEvictionPoolLimit = 16"

text \<open>
  The pool is a \<open>std::set\<close> ordered by the last access time alone: a list that is sorted by that
  time, and an entry with a time that is already there is not inserted.
\<close>

fun pool_emplace :: "32 word \<times> string \<Rightarrow> (32 word \<times> string) list \<Rightarrow> (32 word \<times> string) list" where
  "pool_emplace e [] = [e]"
| "pool_emplace e (x # xs) =
     (if fst e < fst x then e # x # xs
      else if fst x < fst e then x # pool_emplace e xs
      else x # xs)"

text \<open>The loop that samples the data table, \<open>n\<close> times.\<close>

fun fill_pool :: "nat \<Rightarrow> dss \<Rightarrow> nat list \<Rightarrow> (dss \<times> nat list) option" where
  "fill_pool 0 s rs = Some (s, rs)"
| "fill_pool (Suc n) s rs =
     (case GetRandomEntry (data_ht s) rs of
        Some (Some entry, rs1) \<Rightarrow>
          fill_pool n (s\<lparr>eviction_pool := pool_emplace (key_lru (ekey entry), kstr entry) (eviction_pool s)\<rparr>) rs1
      | _ \<Rightarrow> None)"

definition trim_pool :: "dss \<Rightarrow> dss" where
  "trim_pool s = s\<lparr>eviction_pool := take kEvictionPoolLimit (eviction_pool s)\<rparr>"

text \<open>The loop that takes candidates from the front of the pool until one is still current.\<close>

function pick_candidate :: "hash_fn \<Rightarrow> dss \<Rightarrow> string option \<times> dss" where
  "pick_candidate h s =
     (case eviction_pool s of
        [] \<Rightarrow> (None, s)
      | (lru, key) # rest \<Rightarrow>
          (let (entry, t) = Find h None (data_ht s) key;
               s1 = s\<lparr>data_ht := t, eviction_pool := rest\<rparr>
           in case entry of
                None \<Rightarrow> pick_candidate h s1
              | Some e \<Rightarrow> if key_lru (ekey e) \<noteq> lru then pick_candidate h s1 else (Some key, s1)))"
  by auto
termination
  by (relation "measure (\<lambda>(h, s). length (eviction_pool s))") auto

declare pick_candidate.simps [simp del]

text \<open>\<open>GetSomeOldEntry\<close>, with a bound on the rounds of its outer loop.\<close>

fun GetSomeOldEntry :: "nat \<Rightarrow> hash_fn \<Rightarrow> nat \<Rightarrow> dss \<Rightarrow> nat list \<Rightarrow> (string \<times> dss \<times> nat list) option" where
  "GetSomeOldEntry 0 h samples s rs = None"
| "GetSomeOldEntry (Suc rounds) h samples s rs =
     (case fill_pool (min samples (Count (data_ht s))) s rs of
        None \<Rightarrow> None
      | Some (s1, rs1) \<Rightarrow>
          (case pick_candidate h (trim_pool s1) of
             (Some key, s2) \<Rightarrow> Some (key, s2, rs1)
           | (None, s2) \<Rightarrow> GetSomeOldEntry rounds h samples s2 rs1))"

text \<open>The key that an iteration of the eviction loop picks, for each policy.\<close>

definition pick_random :: "dss \<Rightarrow> nat list \<Rightarrow> (string option \<times> dss \<times> nat list) option" where
  "pick_random s rs = map_option (\<lambda>(e, rs1). (map_option kstr e, s, rs1)) (GetRandomEntry (data_ht s) rs)"

definition pick_old :: "hash_fn \<Rightarrow> dss \<Rightarrow> nat list \<Rightarrow> (string option \<times> dss \<times> nat list) option" where
  "pick_old h s rs =
     map_option (\<lambda>(k, s1, rs1). (Some k, s1, rs1)) (GetSomeOldEntry 2 h (maxmemory_samples (dconfig s)) s rs)"

definition evict_key :: "hash_fn \<Rightarrow> string \<Rightarrow> dss \<Rightarrow> dss" where
  "evict_key h key s =
     (let s1 = snd (data_Erase h (snd (expire_Erase h s key)) key)
      in s1\<lparr>evicted_keys := evicted_keys s1 + 1\<rparr>)"

fun evict_loop ::
  "hash_fn \<Rightarrow> (dss \<Rightarrow> nat list \<Rightarrow> (string option \<times> dss \<times> nat list) option) \<Rightarrow>
   nat \<Rightarrow> nat \<Rightarrow> nat list \<Rightarrow> dss \<Rightarrow> nat list \<Rightarrow> (bool \<times> dss \<times> nat list) option" where
  "evict_loop h pick bytes_to_free freed deltas s rs =
     (if \<not> freed < bytes_to_free then Some (True, s, rs)
      else if Count (data_ht s) = 0 then Some (False, s, rs)
      else case pick s rs of
        None \<Rightarrow> None
      | Some (None, s1, rs1) \<Rightarrow> Some (False, s1, rs1)
      | Some (Some key, s1, rs1) \<Rightarrow>
          (case deltas of
             [] \<Rightarrow> None
           | delta # rest \<Rightarrow> evict_loop h pick bytes_to_free (freed + delta) rest (evict_key h key s1) rs1))"

declare evict_loop.simps [simp del]

definition Evict :: "hash_fn \<Rightarrow> nat \<Rightarrow> nat list \<Rightarrow> dss \<Rightarrow> nat list \<Rightarrow> (bool \<times> dss \<times> nat list) option" where
  "Evict h bytes_to_free deltas s rs =
     (case maxmemory_policy (dconfig s) of
        kNoEviction \<Rightarrow> Some (False, s, rs)
      | kAllKeysRandom \<Rightarrow> evict_loop h pick_random bytes_to_free 0 deltas s rs
      | kAllKeysLru \<Rightarrow> evict_loop h (pick_old h) bytes_to_free 0 deltas s rs)"


section \<open>Sampling\<close>

lemma GetRandomEntry_sound:
  assumes "ht_inv h t" and "GetRandomEntry t rs = Some (Some e, rs')"
  shows "ht_map t (kstr e) = Some e"
proof -
  obtain b rs1 where ne: "buckets0 t \<noteq> []" and b: "random_bucket t rs = Some (b, rs1)"
    and g: "GetRandomEntryInBucket b rs1 = Some (e, rs')"
    using assms(2) by (auto simp: GetRandomEntry_def split: if_splits option.splits)
  have "b \<noteq> [] \<and> set b \<subseteq> set (all_entries t)"
    using random_bucket_sound [OF b ne] ht_inv_shape [OF assms(1) ne] by blast
  then have "e \<in> set (all_entries t)" using g by (cases rs1) auto
  then show ?thesis
    using ht_inv_counted [OF assms(1)] by (auto simp: ht_map_def counted_def map_of_keyed_eq_Some)
qed

text \<open>A candidate is current when its key is in the table with the same last access time.\<close>

definition current :: "'v htable \<Rightarrow> 32 word \<times> string \<Rightarrow> bool" where
  "current t c \<longleftrightarrow> (\<exists>e. ht_map t (snd c) = Some e \<and> key_lru (ekey e) = fst c)"

lemma pool_emplace_set: "set (pool_emplace c p) \<subseteq> insert c (set p)" "pool_emplace c p \<noteq> []"
  by (induction c p rule: pool_emplace.induct) auto

lemma fill_pool_frame:
  assumes "ht_inv h (data_ht s)" and "fill_pool n s rs = Some (s1, rs1)"
  shows "\<exists>p. s1 = s\<lparr>eviction_pool := p\<rparr> \<and> set p \<subseteq> set (eviction_pool s) \<union> Collect (current (data_ht s)) \<and>
    (n > 0 \<or> eviction_pool s \<noteq> [] \<longrightarrow> p \<noteq> [])"
  using assms
proof (induction n arbitrary: s rs)
  case 0
  then show ?case by (intro exI [of _ "eviction_pool s"]) auto
next
  case (Suc n)
  obtain e rs2 where e: "GetRandomEntry (data_ht s) rs = Some (Some e, rs2)"
    and f: "fill_pool n (s\<lparr>eviction_pool := pool_emplace (key_lru (ekey e), kstr e) (eviction_pool s)\<rparr>) rs2 = Some (s1, rs1)"
    using Suc.prems(2) by (auto split: option.splits)
  have "current (data_ht s) (key_lru (ekey e), kstr e)"
    using GetRandomEntry_sound [OF Suc.prems(1) e] by (simp add: current_def)
  moreover obtain p where "s1 = s\<lparr>eviction_pool := p\<rparr>"
    "set p \<subseteq> set (pool_emplace (key_lru (ekey e), kstr e) (eviction_pool s)) \<union> Collect (current (data_ht s))" "p \<noteq> []"
    using Suc.IH [OF _ f] Suc.prems(1) pool_emplace_set(2) by auto
  ultimately show ?case
    using pool_emplace_set(1) [of "(key_lru (ekey e), kstr e)" "eviction_pool s"] by (intro exI [of _ p]) auto
qed

lemma pick_candidate_frame:
  assumes "ht_inv h (data_ht s)"
  shows "\<exists>t p. snd (pick_candidate h s) = s\<lparr>data_ht := t, eviction_pool := p\<rparr> \<and> ht_inv h t \<and>
      ht_map t = ht_map (data_ht s) \<and>
      (case fst (pick_candidate h s) of
         None \<Rightarrow> p = [] \<and> (\<forall>c\<in>set (eviction_pool s). \<not> current (data_ht s) c)
       | Some k \<Rightarrow> ht_map t k \<noteq> None)"
  using assms
proof (induction "eviction_pool s" arbitrary: s)
  case Nil
  then show ?case
    by (intro exI [of _ "data_ht s"] exI [of _ "[]"]) (simp add: pick_candidate.simps)
next
  case (Cons c rest)
  obtain lru key where c: "c = (lru, key)" by (cases c)
  define ft where "ft = Find h None (data_ht s) key"
  define s1 where "s1 = s\<lparr>data_ht := snd ft, eviction_pool := rest\<rparr>"
  have f: "ht_inv h (snd ft)" "fst ft = ht_map (data_ht s) key" "ht_map (snd ft) = ht_map (data_ht s)"
    using ht.find_inv [OF Cons.prems] ht.find_result [OF Cons.prems] ht.find_view [OF Cons.prems] by (simp_all add: ft_def)
  have run: "pick_candidate h s = (if current (data_ht s) c then (Some key, s1) else pick_candidate h s1)"
    using f Cons.hyps(2) [symmetric] c
    by (subst pick_candidate.simps)
      (auto simp: current_def split_def Let_def s1_def simp flip: ft_def split: option.splits)
  show ?case
  proof (cases "current (data_ht s) c")
    case True
    then show ?thesis
      using f run c by (intro exI [of _ "snd ft"] exI [of _ rest]) (auto simp: s1_def current_def)
  next
    case False
    have same: "current (data_ht s1) = current (data_ht s)" by (auto simp: fun_eq_iff current_def s1_def f)
    obtain t p where tp: "snd (pick_candidate h s1) = s1\<lparr>data_ht := t, eviction_pool := p\<rparr>" "ht_inv h t"
        "ht_map t = ht_map (data_ht s1)"
        "case fst (pick_candidate h s1) of
           None \<Rightarrow> p = [] \<and> (\<forall>c\<in>set (eviction_pool s1). \<not> current (data_ht s1) c)
         | Some k \<Rightarrow> ht_map t k \<noteq> None"
      using Cons.hyps(1) [of s1] f(1) by (auto simp: s1_def)
    have "set (eviction_pool s) = insert c (set rest)" using Cons.hyps(2) [symmetric] by simp
    then show ?thesis
      using tp False run f(3) unfolding same
      by (intro exI [of _ t] exI [of _ p]) (auto simp: s1_def split: option.splits)
  qed
qed

text \<open>The state of a pick differs from the one before in the table's layout and in the pool only.\<close>

definition picked :: "hash_fn \<Rightarrow> dss \<Rightarrow> dss \<Rightarrow> bool" where
  "picked h s s' \<longleftrightarrow> ht_inv h (data_ht s') \<and> ht_map (data_ht s') = ht_map (data_ht s) \<and>
     s'\<lparr>data_ht := data_ht s, eviction_pool := eviction_pool s\<rparr> = s"

lemma picked_refl: "ht_inv h (data_ht s) \<Longrightarrow> picked h s s"
  by (simp add: picked_def)

lemma picked_trans:
  assumes "picked h s s1" and "picked h s1 s2"
  shows "picked h s s2"
proof -
  have "s2\<lparr>data_ht := data_ht s, eviction_pool := eviction_pool s\<rparr> =
      (s2\<lparr>data_ht := data_ht s1, eviction_pool := eviction_pool s1\<rparr>)\<lparr>data_ht := data_ht s, eviction_pool := eviction_pool s\<rparr>"
    by simp
  also have "\<dots> = s" using assms by (simp add: picked_def)
  finally show ?thesis using assms by (simp add: picked_def)
qed

lemma pickedD:
  assumes "picked h s s'"
  shows "ht_inv h (data_ht s')" "ht_map (data_ht s') = ht_map (data_ht s)" "dat s' = dat s" "ext s' = ext s"
    "dconfig s' = dconfig s" "evicted_keys s' = evicted_keys s" "now s' = now s" "expire_ht s' = expire_ht s"
    "bucket_index s' = bucket_index s" "active s' = active s" "commands_processed s' = commands_processed s"
proof -
  have e: "s'\<lparr>data_ht := data_ht s, eviction_pool := eviction_pool s\<rparr> = s" using assms by (simp add: picked_def)
  show "ht_inv h (data_ht s')" "ht_map (data_ht s') = ht_map (data_ht s)" "dat s' = dat s"
    using assms by (simp_all add: picked_def dat_def vmap_def fun_eq_iff)
  show "dconfig s' = dconfig s" "evicted_keys s' = evicted_keys s" "now s' = now s" and x: "expire_ht s' = expire_ht s"
    and "bucket_index s' = bucket_index s" and "active s' = active s" and "commands_processed s' = commands_processed s"
    using arg_cong [OF e, of dconfig] arg_cong [OF e, of evicted_keys] arg_cong [OF e, of command_time_snapshot]
      arg_cong [OF e, of expire_ht] arg_cong [OF e, of bucket_index]
      arg_cong [OF e, of active] arg_cong [OF e, of commands_processed] by simp_all
  show "ext s' = ext s" using x by (simp add: ext_def)
qed

lemma picked_Count: "picked h s s' \<Longrightarrow> ht_inv h (data_ht s) \<Longrightarrow> Count (data_ht s') = Count (data_ht s)"
  using entries_card [of h "data_ht s'"] entries_card [of h "data_ht s"] by (simp add: picked_def Count_def)

text \<open>One round of \<open>GetSomeOldEntry\<close>.\<close>

lemma old_entry_round:
  assumes "ht_inv h (data_ht s)" and "fill_pool n s rs = Some (s1, rs1)"
    and "pick_candidate h (trim_pool s1) = (r, s2)"
  shows "picked h s s2"
    and "r = Some k \<Longrightarrow> ht_map (data_ht s) k \<noteq> None"
    and "r = None \<Longrightarrow> eviction_pool s2 = []"
    and "r = None \<Longrightarrow> n > 0 \<Longrightarrow> eviction_pool s = [] \<Longrightarrow> False"
proof -
  obtain p where p: "s1 = s\<lparr>eviction_pool := p\<rparr>"
    "set p \<subseteq> set (eviction_pool s) \<union> Collect (current (data_ht s))" "n > 0 \<or> eviction_pool s \<noteq> [] \<longrightarrow> p \<noteq> []"
    using fill_pool_frame [OF assms(1,2)] by blast
  have i: "ht_inv h (data_ht (trim_pool s1))" using assms(1) p(1) by (simp add: trim_pool_def)
  obtain t q where t: "s2 = (trim_pool s1)\<lparr>data_ht := t, eviction_pool := q\<rparr>" "ht_inv h t"
      "ht_map t = ht_map (data_ht (trim_pool s1))"
      "case r of None \<Rightarrow> q = [] \<and> (\<forall>c\<in>set (eviction_pool (trim_pool s1)). \<not> current (data_ht (trim_pool s1)) c)
       | Some k \<Rightarrow> ht_map t k \<noteq> None"
    using pick_candidate_frame [OF i] assms(3) by auto
  show "picked h s s2" using t p(1) by (simp add: picked_def trim_pool_def)
  show "r = Some k \<Longrightarrow> ht_map (data_ht s) k \<noteq> None" using t p(1) by (simp add: trim_pool_def)
  show "r = None \<Longrightarrow> eviction_pool s2 = []" using t by simp
  show False if n: "r = None" "n > 0" "eviction_pool s = []"
  proof -
    obtain x xs where x: "p = x # xs" using p(3) n(2) by (cases p) auto
    then have "x \<in> set (eviction_pool (trim_pool s1))" using p(1) by (simp add: trim_pool_def kEvictionPoolLimit_def)
    moreover have "current (data_ht (trim_pool s1)) x" using x p(1,2) n(3) by (auto simp: trim_pool_def)
    ultimately show False using t(4) n(1) by auto
  qed
qed

lemma GetSomeOldEntry_frame:
  assumes "ht_inv h (data_ht s)" and "GetSomeOldEntry n h samples s rs = Some (k, s', rs')"
  shows "picked h s s' \<and> ht_map (data_ht s) k \<noteq> None"
  using assms
proof (induction n arbitrary: s rs)
  case (Suc n)
  obtain s1 rs1 where f: "fill_pool (min samples (Count (data_ht s))) s rs = Some (s1, rs1)"
    using Suc.prems(2) by (auto split: option.splits)
  obtain r s2 where r: "pick_candidate h (trim_pool s1) = (r, s2)" by (cases "pick_candidate h (trim_pool s1)")
  note o = old_entry_round [OF Suc.prems(1) f r]
  show ?case
  proof (cases r)
    case None
    then show ?thesis
      using Suc.IH [of s2 rs1] pickedD [OF o(1)] Suc.prems(2) f r picked_trans [OF o(1)] by simp
  next
    case (Some key)
    then show ?thesis using Suc.prems(2) f r o(1,2) by simp
  qed
qed simp

text \<open>
  The search for an old entry ends: when at least one key is sampled, its outer loop never
  starts a third round, so allowing more rounds gives the same result.
\<close>

theorem old_entry_two_rounds:
  assumes "ht_inv h (data_ht s)" and "samples > 0" and "Count (data_ht s) > 0"
  shows "GetSomeOldEntry (Suc (Suc n)) h samples s rs = GetSomeOldEntry 2 h samples s rs"
proof (cases "fill_pool (min samples (Count (data_ht s))) s rs")
  case None
  then show ?thesis by (simp add: numeral_2_eq_2)
next
  case (Some x)
  obtain s1 rs1 where x: "x = (s1, rs1)" by (cases x)
  obtain r s2 where r: "pick_candidate h (trim_pool s1) = (r, s2)" by (cases "pick_candidate h (trim_pool s1)")
  note o = old_entry_round [OF assms(1) Some [unfolded x] r]
  have second: "GetSomeOldEntry (Suc m) h samples s2 rs1 = GetSomeOldEntry 1 h samples s2 rs1" if "r = None" for m
  proof (cases "fill_pool (min samples (Count (data_ht s2))) s2 rs1")
    case None
    then show ?thesis by simp
  next
    case f: (Some y)
    obtain s3 rs3 where y: "y = (s3, rs3)" by (cases y)
    obtain q s4 where q: "pick_candidate h (trim_pool s3) = (q, s4)" by (cases "pick_candidate h (trim_pool s3)")
    have "min samples (Count (data_ht s2)) > 0" using picked_Count [OF o(1) assms(1)] assms(2,3) by simp
    then have "q \<noteq> None"
      using old_entry_round(4) [OF pickedD(1) [OF o(1)] f [unfolded y] q] o(3) [OF that] by blast
    then show ?thesis using f y q by auto
  qed
  then show ?thesis using Some x r by (cases r) (auto simp: numeral_2_eq_2)
qed


section \<open>Eviction\<close>

text \<open>
  \<open>n\<close> keys have been evicted: they are gone from both tables, everything else in the tables is
  unchanged, and they are counted.
\<close>

definition evicted :: "hash_fn \<Rightarrow> dss \<Rightarrow> dss \<Rightarrow> nat \<Rightarrow> bool" where
  "evicted h s s' n \<longleftrightarrow> svc_inv h s' \<and>
     (\<exists>K. K \<subseteq> dom (dat s) \<and> card K = n \<and> dat s' = dat s |` (- K) \<and> ext s' = ext s |` (- K)) \<and>
     evicted_keys s' = evicted_keys s + of_nat n \<and> dconfig s' = dconfig s \<and> now s' = now s \<and>
     active s' = active s \<and> commands_processed s' = commands_processed s"

lemma evictedI:
  assumes "svc_inv h s'" and "K \<subseteq> dom (dat s)" and "card K = n" and "dat s' = dat s |` (- K)"
    and "ext s' = ext s |` (- K)" and "evicted_keys s' = evicted_keys s + of_nat n"
    and "dconfig s' = dconfig s" and "now s' = now s" and "active s' = active s"
    and "commands_processed s' = commands_processed s"
  shows "evicted h s s' n"
  using assms unfolding evicted_def by blast

lemma evicted_refl: "svc_inv h s \<Longrightarrow> evicted h s s 0"
  by (rule evictedI [where K = "{}"]) (simp_all add: restrict_map_def)

lemma evicted_trans:
  assumes "evicted h s s1 m" and "evicted h s1 s2 n"
  shows "evicted h s s2 (m + n)"
proof -
  obtain K where K: "K \<subseteq> dom (dat s)" "card K = m" "dat s1 = dat s |` (- K)" "ext s1 = ext s |` (- K)"
    using assms(1) by (auto simp: evicted_def)
  obtain L where L: "L \<subseteq> dom (dat s1)" "card L = n" "dat s2 = dat s1 |` (- L)" "ext s2 = ext s1 |` (- L)"
    using assms(2) by (auto simp: evicted_def)
  have "finite K" "finite L" using K(1) L(1) finite_dat finite_subset by blast+
  moreover have "K \<inter> L = {}" using K(3) L(1) by (auto simp: restrict_map_def split: if_splits)
  ultimately have c: "card (K \<union> L) = m + n" using K(2) L(2) by (simp add: card_Un_disjoint)
  have "L \<subseteq> dom (dat s)" using L(1) K(3) by (auto simp: restrict_map_def split: if_splits)
  then show ?thesis
    using assms K L c
    by (intro evictedI [where K = "K \<union> L"]) (simp_all add: evicted_def Compl_Un Int_commute)
qed

lemma picked_evicted:
  assumes "svc_inv h s" and "picked h s s'"
  shows "svc_inv h s'" and "evicted h s s' 0"
proof -
  show i: "svc_inv h s'" using assms pickedD [OF assms(2)] by (simp add: svc_inv_def tables_ok_def)
  show "evicted h s s' 0"
    by (rule evictedI [OF i, where K = "{}"]) (simp_all add: pickedD [OF assms(2)] restrict_map_def)
qed

lemma evict_key_evicted:
  assumes "svc_inv h s" and "dat s k \<noteq> None"
  shows "evicted h s (evict_key h k s) 1"
proof -
  note t = svc_invD [OF assms(1)]
  let ?s1 = "snd (expire_Erase h s k)"
  let ?s2 = "snd (data_Erase h ?s1 k)"
  note e1 = expire_Erase_effect [OF t(1), of k]
  have e2: "effect h s ?s2 ((dat s)(k := None)) ((ext s)(k := None))"
    using effect_trans [OF e1 data_Erase_effect(2) [OF effectD(1) [OF e1], of k]] effectD [OF e1] by simp
  note d = effectD [OF e2] aux_fields [OF effectD(4) [OF e2]]
  have m: "dat (evict_key h k s) = (dat s)(k := None)" "ext (evict_key h k s) = (ext s)(k := None)"
    using d by (simp_all add: evict_key_def Let_def dat_def ext_def)
  have "svc_inv h (evict_key h k s)"
    using m t d(1) by (auto simp: svc_inv_def ran_def evict_key_def Let_def tables_ok_def)
  then show ?thesis
    by (rule evictedI [where K = "{k}"])
      (use assms(2) d in \<open>auto simp: m restrict_map_def fun_eq_iff\<close>, simp_all add: evict_key_def Let_def)
qed

lemma Count_zero: "svc_inv h s \<Longrightarrow> Count (data_ht s) = 0 \<longleftrightarrow> dat s = Map.empty"
  using entries_card [of h "data_ht s"] finite_dat [of s]
  by (simp add: svc_inv_def tables_ok_def Count_def dat_def flip: dom_vmap_ht)

text \<open>
  What the eviction loop needs of a policy: on a table that is not empty it picks a key of the
  table, and changes nothing but the pool and the layout of the table.
\<close>

locale eviction_policy =
  fixes h :: hash_fn
    and pick :: "dss \<Rightarrow> nat list \<Rightarrow> (string option \<times> dss \<times> nat list) option"
  assumes pick_law: "svc_inv h s \<Longrightarrow> Count (data_ht s) > 0 \<Longrightarrow> pick s rs = Some (ko, s1, rs1) \<Longrightarrow>
      picked h s s1 \<and> (\<exists>k. ko = Some k \<and> dat s k \<noteq> None)"
begin

lemma loop_evicts:
  assumes "svc_inv h s" and "evict_loop h pick bytes freed deltas s rs = Some (ok, s', rs')"
  shows "\<exists>n \<le> length deltas. evicted h s s' n \<and>
    (if ok then bytes \<le> freed + sum_list (take n deltas) \<and>
           (n > 0 \<longrightarrow> freed + sum_list (take (n - 1) deltas) < bytes)
     else dat s' = Map.empty \<and> freed + sum_list (take n deltas) < bytes)"
  using assms
proof (induction deltas arbitrary: s rs freed)
  case Nil
  show ?case
  proof (cases "freed < bytes")
    case True
    then have c: "Count (data_ht s) = 0 \<and> \<not> ok \<and> s' = s"
    proof (cases "Count (data_ht s) = 0")
      case False
      then show ?thesis
        using True Nil.prems pick_law [OF Nil.prems(1), of rs]
        by (auto simp: evict_loop.simps split: option.splits)
    qed (use True Nil.prems in \<open>auto simp: evict_loop.simps\<close>)
    then show ?thesis
      using Count_zero [OF Nil.prems(1)] evicted_refl [OF Nil.prems(1)] True by auto
  qed (use Nil.prems evicted_refl in \<open>auto simp: evict_loop.simps\<close>)
next
  case (Cons d ds)
  consider "\<not> freed < bytes" | "freed < bytes" "Count (data_ht s) = 0" | "freed < bytes" "Count (data_ht s) > 0" by blast
  then show ?case
  proof cases
    case 1
    then show ?thesis
      using Cons.prems evicted_refl by (intro exI [of _ 0]) (auto simp: evict_loop.simps)
  next
    case 2
    then show ?thesis
      using Cons.prems evicted_refl Count_zero [OF Cons.prems(1)]
      by (intro exI [of _ 0]) (auto simp: evict_loop.simps)
  next
    case 3
    obtain k s1 rs1 where p: "pick s rs = Some (Some k, s1, rs1)" "picked h s s1" "dat s k \<noteq> None"
      using 3 Cons.prems pick_law [OF Cons.prems(1), of rs] by (auto simp: evict_loop.simps split: option.splits)
    let ?s2 = "evict_key h k s1"
    have e: "evicted h s ?s2 1"
      using evicted_trans [OF picked_evicted(2) [OF Cons.prems(1) p(2)] evict_key_evicted [OF picked_evicted(1) [OF Cons.prems(1) p(2)], of k]]
        p(3) pickedD(3) [OF p(2)] by simp
    have "evict_loop h pick bytes (freed + d) ds ?s2 rs1 = Some (ok, s', rs')"
      using Cons.prems(2) 3 p(1) by (simp add: evict_loop.simps [of h pick bytes freed])
    from Cons.IH [OF _ this] e obtain n where n: "n \<le> length ds" "evicted h ?s2 s' n"
      "if ok then bytes \<le> freed + d + sum_list (take n ds) \<and> (n > 0 \<longrightarrow> freed + d + sum_list (take (n - 1) ds) < bytes)
       else dat s' = Map.empty \<and> freed + d + sum_list (take n ds) < bytes"
      by (auto simp: evicted_def)
    have "evicted h s s' (Suc n)" using evicted_trans [OF e n(2)] by simp
    then show ?thesis
      using n 3(1) by (intro exI [of _ "Suc n"]) (cases n; auto split: if_splits)
  qed
qed

end

lemma no_buckets: "ht_inv h t \<Longrightarrow> Count t > 0 \<Longrightarrow> buckets0 t \<noteq> []"
  using ht_inv_counted [of h t] by (auto simp: ht_inv_def stable_def rehashing_def all_entries_def counted_def Count_def)

interpretation random: eviction_policy h pick_random
  for h
proof
  fix s rs ko s1 rs1
  assume i: "svc_inv h s" and c: "Count (data_ht s) > 0" and p: "pick_random s rs = Some (ko, s1, rs1)"
  have t: "ht_inv h (data_ht s)" using i by (simp add: svc_inv_def tables_ok_def)
  obtain e where e: "GetRandomEntry (data_ht s) rs = Some (Some e, rs1)" "ko = Some (kstr e)" "s1 = s"
    using p no_buckets [OF t c]
    by (auto simp: pick_random_def GetRandomEntry_def split: option.splits)
  then show "picked h s s1 \<and> (\<exists>k. ko = Some k \<and> dat s k \<noteq> None)"
    using GetRandomEntry_sound [OF t e(1)] picked_refl [OF t] by (simp add: dat_def vmap_def)
qed

interpretation lru: eviction_policy h "pick_old h"
  for h
proof
  fix s rs ko s1 rs1
  assume i: "svc_inv h s" and p: "pick_old h s rs = Some (ko, s1, rs1)"
  have t: "ht_inv h (data_ht s)" using i by (simp add: svc_inv_def tables_ok_def)
  show "picked h s s1 \<and> (\<exists>k. ko = Some k \<and> dat s k \<noteq> None)"
    using p GetSomeOldEntry_frame [OF t] by (auto simp: pick_old_def dat_def vmap_def)
qed

lemma Evict_evicts:
  assumes "svc_inv h s" and "Evict h bytes deltas s rs = Some (ok, s', rs')"
  shows "\<exists>n \<le> length deltas. evicted h s s' n \<and>
    (if ok then bytes \<le> sum_list (take n deltas) \<and> (n > 0 \<longrightarrow> sum_list (take (n - 1) deltas) < bytes)
     else maxmemory_policy (dconfig s) = kNoEviction \<and> n = 0 \<or> dat s' = Map.empty \<and> sum_list (take n deltas) < bytes)"
proof (cases "maxmemory_policy (dconfig s)")
  case kNoEviction
  then show ?thesis using assms evicted_refl by (intro exI [of _ 0]) (auto simp: Evict_def)
next
  case kAllKeysRandom
  then show ?thesis
    using assms(2) random.loop_evicts [OF assms(1), of bytes 0 deltas rs ok s' rs'] by (cases ok) (auto simp: Evict_def)
next
  case kAllKeysLru
  then show ?thesis
    using assms(2) lru.loop_evicts [OF assms(1), of bytes 0 deltas rs ok s' rs'] by (cases ok) (auto simp: Evict_def)
qed



section \<open>The properties at work\<close>

definition full_store :: dss where
  "full_store = example_store\<lparr>dconfig := Config_default\<lparr>maxmemory := 10, maxmemory_policy := kAllKeysRandom\<rparr>\<rparr>"

lemma full_store: "svc_inv (\<lambda>_. 0) full_store" "Count (data_ht full_store) > 0"
proof -
  have "dat full_store = dat example_store" "ext full_store = ext example_store"
    by (simp_all add: full_store_def dat_def ext_def)
  then show i: "svc_inv (\<lambda>_. 0) full_store"
    using example_store(1) by (simp add: svc_inv_def tables_ok_def full_store_def)
  have "dat example_store ''a'' \<noteq> None"
    using arg_cong [OF example_store(2), of "\<lambda>f. f ''a''"] by (auto simp: live_def split: option.splits)
  then show "Count (data_ht full_store) > 0"
    using Count_zero [OF i] \<open>dat full_store = dat example_store\<close> by auto
qed

theorem old_entry_two_rounds_witness:
  "GetSomeOldEntry 5 (\<lambda>_. 0) 3 full_store [1, 2, 3, 4, 5, 6] = GetSomeOldEntry 2 (\<lambda>_. 0) 3 full_store [1, 2, 3, 4, 5, 6]"
proof -
  have "ht_inv (\<lambda>_. 0) (data_ht full_store)" using full_store(1) by (simp add: svc_inv_def tables_ok_def)
  then show ?thesis
    using old_entry_two_rounds [OF _ _ full_store(2), of "\<lambda>_. 0" 3 3 "[1, 2, 3, 4, 5, 6]"]
    by (simp add: eval_nat_numeral del: GetSomeOldEntry.simps)
qed

text \<open>Some outputs of the random number generator make a pick succeed.\<close>

lemma some_pick:
  assumes "ht_inv h (data_ht s)" and "Count (data_ht s) > 0"
  shows "\<exists>rs k. pick_random s rs = Some (Some k, s, [])"
proof -
  obtain e where e: "e \<in> set (all_entries (data_ht s))"
    using ht_inv_counted [OF assms(1)] assms(2) by (cases "all_entries (data_ht s)") (auto simp: counted_def Count_def)
  obtain r b where b: "random_bucket (data_ht s) [r] = Some (b, [])" and "e \<in> set b"
    using random_bucket_complete [OF assms(1) e] by blast
  then have "random_bucket (data_ht s) [r, 0] = Some (b, [0])" by (auto simp: Let_def split: if_splits)
  then have "pick_random s [r, 0] = Some (Some (kstr (b ! 0)), s, [])"
    using no_buckets [OF assms] by (simp add: pick_random_def GetRandomEntry_def del: random_bucket.simps)
  then show ?thesis by blast
qed


end
