(* ===== verification/ActiveExpire.thy ===== *)
theory ActiveExpire
  imports HashCursor StringSpec
begin

text \<open>
  Active expiry, \<open>src/src/service/expire_strategy.cc\<close>: a cycle that scans buckets of the expire
  table and erases the keys that have expired from both tables. The time of the cycle and the times
  that the steady clock has run after each iteration are arguments. The callback destroys the entry
  it was called on, and \<open>TraverseBucket\<close> then reads the \<open>next\<close> pointer of that entry; the model takes
  the pointer that was there. A rate of expired keys is an exact fraction here; rounding it to a
  \<open>double\<close> changes no comparison, since both counts are far below \<open>2 ^ 52\<close>.
\<close>

section \<open>The expirer\<close>

text \<open>The callback, on the state and the counters \<open>sampled_this_iter\<close> and \<open>expired_this_iter\<close>.\<close>

definition expire_visit :: "hash_fn \<Rightarrow> int \<Rightarrow> int hentry \<Rightarrow> dss \<times> nat \<times> nat \<Rightarrow> dss \<times> nat \<times> nat" where
  "expire_visit h t entry = (\<lambda>(s, sampled, expired_this).
     if evalue entry > t then (s, sampled + 1, expired_this)
     else (snd (expire_Erase h (snd (data_Erase h s (kstr entry))) (kstr entry)), sampled + 1, expired_this + 1))"

text \<open>The inner loop. Its bound is the number of buckets, after which the index has come back to 0.\<close>

fun sample_buckets :: "nat \<Rightarrow> hash_fn \<Rightarrow> int \<Rightarrow> nat \<Rightarrow> dss \<times> nat \<times> nat \<Rightarrow> (dss \<times> nat \<times> nat) option" where
  "sample_buckets n h t keys_to_sample (s, sampled, expired_this) =
     (if \<not> sampled < keys_to_sample then Some (s, sampled, expired_this)
      else case n of
        0 \<Rightarrow> None
      | Suc n' \<Rightarrow>
          (let (i, (s1, sampled1, expired1)) =
                 TraverseBucket (bucket_index s) (expire_visit h t) (expire_ht s) (s, sampled, expired_this);
               s2 = s1\<lparr>bucket_index := i\<rparr>
           in if i = 0 then Some (s2, sampled1, expired1)
              else sample_buckets n' h t keys_to_sample (s2, sampled1, expired1)))"

declare sample_buckets.simps [simp del]

text \<open>
  The outer loop at iteration \<open>i\<close>, with \<open>sampled_keys\<close> and \<open>expired_keys\<close>; the result is the state
  and the number of keys expired_this.
\<close>

fun expire_loop ::
  "nat \<Rightarrow> hash_fn \<Rightarrow> int \<Rightarrow> int \<Rightarrow> (nat \<Rightarrow> int) \<Rightarrow> nat \<Rightarrow> nat \<Rightarrow> dss \<times> nat \<times> nat \<Rightarrow> (dss \<times> nat) option" where
  "expire_loop n h t time_limit elapsed max_samples i (s, sampled_keys, expired_keys) =
     (let keys_to_sample = min (active_expire_keys_per_loop (dconfig s)) (Count (expire_ht s))
      in if keys_to_sample = 0 then Some (s\<lparr>expired_stale_perc := 0\<rparr>, expired_keys)
         else case n of
           0 \<Rightarrow> None
         | Suc n' \<Rightarrow>
             (case sample_buckets (BucketCount (expire_ht s)) h t keys_to_sample (s, 0, 0) of
                None \<Rightarrow> None
              | Some (s1, sampled, expired_this) \<Rightarrow>
                  if sampled = 0 then Some (s1, expired_keys)
                  else
                    (let s2 = s1\<lparr>expired_stale_perc := expired_this * 100 div sampled,
                                 expire_elapsed_time := expire_elapsed_time s1 + elapsed i\<rparr>
                     in if expired_this * 100 \<le> active_expire_acceptable_stale_percent (dconfig s) * sampled
                        then Some (s2, expired_keys + expired_this)
                        else if elapsed i \<ge> time_limit
                        then Some (s2\<lparr>expired_time_cap_reached_count := expired_time_cap_reached_count s2 + 1\<rparr>,
                                   expired_keys + expired_this)
                        else if sampled_keys + sampled = max_samples then Some (s2, expired_keys + expired_this)
                        else expire_loop n' h t time_limit elapsed max_samples (i + 1)
                               (s2, sampled_keys + sampled, expired_keys + expired_this))))"

declare expire_loop.simps [simp del]

text \<open>A frequency \<open>hz\<close> of 0 is a division by zero: \<open>None\<close>. Times are nanoseconds.\<close>

definition ActiveExpire :: "hash_fn \<Rightarrow> int \<Rightarrow> (nat \<Rightarrow> int) \<Rightarrow> dss \<Rightarrow> dss option" where
  "ActiveExpire h t elapsed s =
     (if hz (dconfig s) = 0 then None
      else
        (let time_limit = 1000000000 * int (active_expire_cycle_time_percent (dconfig s)) div 100 div int (hz (dconfig s))
         in map_option (\<lambda>(s', expired_keys). s'\<lparr>active_expired_keys := active_expired_keys s' + of_nat expired_keys\<rparr>)
              (expire_loop (Suc (Count (expire_ht s))) h t time_limit elapsed (Count (expire_ht s)) 0 (s, 0, 0))))"

section \<open>Purging\<close>

text \<open>The keys that have expired at time \<open>t\<close>.\<close>

definition stale :: "int \<Rightarrow> dss \<Rightarrow> string set" where
  "stale t s = {k. \<exists>tp. ext s k = Some tp \<and> tp \<le> t}"

text \<open>
  \<open>n\<close> keys that had expired are gone from both tables; everything else in the tables is unchanged,
  and of the rest of the state what a command reads.
\<close>

definition purged :: "hash_fn \<Rightarrow> int \<Rightarrow> dss \<Rightarrow> dss \<Rightarrow> nat \<Rightarrow> bool" where
  "purged h t s s' n \<longleftrightarrow> svc_inv h s' \<and>
     (\<exists>K. K \<subseteq> stale t s \<and> card K = n \<and> dat s' = dat s |` (- K) \<and> ext s' = ext s |` (- K)) \<and>
     dconfig s' = dconfig s \<and> now s' = now s \<and> lru_clock s' = lru_clock s \<and>
     active_expired_keys s' = active_expired_keys s \<and> active s' = active s"

lemma purgedI:
  assumes "svc_inv h s'" and "K \<subseteq> stale t s" and "card K = n" and "dat s' = dat s |` (- K)"
    and "ext s' = ext s |` (- K)" and "dconfig s' = dconfig s" and "now s' = now s" and "lru_clock s' = lru_clock s"
    and "active_expired_keys s' = active_expired_keys s" and "active s' = active s"
  shows "purged h t s s' n"
  using assms unfolding purged_def by blast

lemma purged_refl: "svc_inv h s \<Longrightarrow> purged h t s s 0"
  by (rule purgedI [where K = "{}"]) (simp_all add: restrict_map_def)

lemma finite_stale: "finite (stale t s)"
  by (rule finite_subset [OF _ finite_ext [of s]]) (auto simp: stale_def)

lemma purged_trans:
  assumes "purged h t s s1 m" and "purged h t s1 s2 n"
  shows "purged h t s s2 (m + n)"
proof -
  obtain K where K: "K \<subseteq> stale t s" "card K = m" "dat s1 = dat s |` (- K)" "ext s1 = ext s |` (- K)"
    using assms(1) by (auto simp: purged_def)
  obtain L where L: "L \<subseteq> stale t s1" "card L = n" "dat s2 = dat s1 |` (- L)" "ext s2 = ext s1 |` (- L)"
    using assms(2) by (auto simp: purged_def)
  have "finite K" "finite L" using K(1) L(1) finite_stale finite_subset by blast+
  moreover have "K \<inter> L = {}" "L \<subseteq> stale t s"
    using K(4) L(1) by (auto simp: stale_def restrict_map_def split: if_splits)
  ultimately show ?thesis
    using assms K L
    by (intro purgedI [where K = "K \<union> L"]) (simp_all add: purged_def Compl_Un Int_commute card_Un_disjoint)
qed

lemma purged_stats:
  assumes "purged h t s s' n" and "data_ht s'' = data_ht s'" and "expire_ht s'' = expire_ht s'"
    and "dconfig s'' = dconfig s'" and "now s'' = now s'" and "lru_clock s'' = lru_clock s'"
    and "active_expired_keys s'' = active_expired_keys s'" and "active s'' = active s'"
    and "is_cursor (expire_ht s') (bucket_index s'')"
  shows "purged h t s s'' n"
  using assms by (simp add: purged_def svc_inv_def tables_ok_def dat_def ext_def)

lemma purged_cursor: "purged h t s s' n \<Longrightarrow> is_cursor (expire_ht s') (bucket_index s')"
  by (simp add: purged_def svc_inv_def tables_ok_def)

lemma erase_stale:
  assumes "svc_inv h s" and "k \<in> stale t s"
  defines "s' \<equiv> snd (expire_Erase h (snd (data_Erase h s k)) k)"
  shows "purged h t s s' 1" and "effect h s s' ((dat s)(k := None)) ((ext s)(k := None))"
proof -
  note i = svc_invD [OF assms(1)]
  note e1 = data_Erase_effect(2) [OF i(1), of k]
  show e: "effect h s s' ((dat s)(k := None)) ((ext s)(k := None))"
    using effect_trans [OF e1 expire_Erase_effect [OF effectD(1) [OF e1], of k]] effectD [OF e1] by (simp add: s'_def)
  note d = effectD [OF e] aux_fields [OF effectD(4) [OF e]]
  have "svc_inv h s'" using i d by (auto simp: svc_inv_def ran_def)
  then show "purged h t s s' 1"
    by (rule purgedI [where K = "{k}"]) (use assms(2) d in \<open>auto simp: restrict_map_def fun_eq_iff\<close>)
qed


section \<open>One bucket\<close>

lemma Erase_shape:
  assumes "\<not> IsRehashing t"
  shows "\<not> IsRehashing (snd (Erase h t k))" and "length (buckets0 (snd (Erase h t k))) = length (buckets0 t)"
  using assms
  by (cases "locate h t k"; simp add: Erase_def FindBucket_def split_def Let_def IsRehashing_def)+

lemma data_Erase_frame [simp]: "expire_ht (snd (data_Erase h s k)) = expire_ht s"
  by (simp add: data_Erase_def split_def Let_def)

lemma expire_Erase_table [simp]: "expire_ht (snd (expire_Erase h s k)) = snd (Erase h (expire_ht s) k)"
  by (simp add: expire_Erase_def split_def Let_def)

text \<open>The layout of the expire table that a scan relies on.\<close>

definition layout :: "dss \<Rightarrow> bool \<times> nat" where
  "layout s = (IsRehashing (expire_ht s), length (buckets0 (expire_ht s)))"

definition expired_in :: "int \<Rightarrow> int hentry list \<Rightarrow> string set" where
  "expired_in t es = kstr ` {e \<in> set es. evalue e \<le> t}"

lemma expire_visit_eq:
  "expire_visit h t e (s, sampled, n) =
     (if evalue e > t then (s, Suc sampled, n)
      else (snd (expire_Erase h (snd (data_Erase h s (kstr e))) (kstr e)), Suc sampled, Suc n))"
  by (simp add: expire_visit_def)

lemma visit_chain:
  assumes "svc_inv h s" and "distinct (map kstr es)" and "\<forall>e\<in>set es. ext s (kstr e) = Some (evalue e)"
    and "\<not> IsRehashing (expire_ht s)" and "fold (expire_visit h t) es (s, sampled, n) = (s', sampled', n')"
  shows "purged h t s s' (n' - n) \<and> n \<le> n' \<and> n' \<le> n + length es \<and> sampled' = sampled + length es \<and>
    ext s' = ext s |` (- expired_in t es) \<and> layout s' = layout s \<and> bucket_index s' = bucket_index s"
  using assms
proof (induction es arbitrary: s sampled n)
  case Nil
  then show ?case using purged_refl by (auto simp: expired_in_def restrict_map_def)
next
  case (Cons e es)
  have ext_e: "ext s (kstr e) = Some (evalue e)" using Cons.prems(3) by simp
  show ?case
  proof (cases "evalue e > t")
    case True
    then have "fold (expire_visit h t) es (s, Suc sampled, n) = (s', sampled', n')"
      using Cons.prems(5) by (simp add: expire_visit_eq)
    moreover have "expired_in t (e # es) = expired_in t es" using True by (auto simp: expired_in_def)
    ultimately show ?thesis
      using Cons.IH [OF Cons.prems(1) _ _ Cons.prems(4), of "Suc sampled" n] Cons.prems(2,3) by simp
  next
    case False
    define s1 where "s1 = snd (expire_Erase h (snd (data_Erase h s (kstr e))) (kstr e))"
    have st: "kstr e \<in> stale t s" using ext_e False by (auto simp: stale_def)
    note p1 = erase_stale [OF Cons.prems(1) st, folded s1_def]
    have l1: "layout s1 = layout s" "bucket_index s1 = bucket_index s"
      using Erase_shape [OF Cons.prems(4), of h "kstr e"] Cons.prems(4) aux_fields [OF effectD(4) [OF p1(2)]]
      by (simp_all add: layout_def s1_def)
    have "fold (expire_visit h t) es (s1, Suc sampled, Suc n) = (s', sampled', n')"
      using Cons.prems(5) False by (simp add: expire_visit_eq s1_def)
    moreover have "\<forall>e'\<in>set es. ext s1 (kstr e') = Some (evalue e')"
    proof
      fix e' assume "e' \<in> set es"
      then have "kstr e' \<in> kstr ` set es" by (rule imageI)
      moreover have "kstr e \<notin> kstr ` set es" using Cons.prems(2) by simp
      ultimately have "kstr e' \<noteq> kstr e" by metis
      then show "ext s1 (kstr e') = Some (evalue e')"
        using Cons.prems(3) effectD(3) [OF p1(2)] \<open>e' \<in> set es\<close> by simp
    qed
    moreover have "\<not> IsRehashing (expire_ht s1)" using l1(1) Cons.prems(4) by (simp add: layout_def)
    moreover have "svc_inv h s1" using p1(1) by (simp add: purged_def)
    ultimately have ih: "purged h t s1 s' (n' - Suc n) \<and> Suc n \<le> n' \<and> n' \<le> Suc n + length es \<and> sampled' = Suc sampled + length es \<and>
        ext s' = ext s1 |` (- expired_in t es) \<and> layout s' = layout s1 \<and> bucket_index s' = bucket_index s1"
      using Cons.IH [of s1 "Suc sampled" "Suc n"] Cons.prems(2) by simp
    have "expired_in t (e # es) = insert (kstr e) (expired_in t es)" using False by (auto simp: expired_in_def)
    then have "ext s' = ext s |` (- expired_in t (e # es))"
      using ih effectD(3) [OF p1(2)] by (auto simp: restrict_map_def fun_eq_iff)
    moreover have "purged h t s s' (n' - n)"
      using purged_trans [OF p1(1), of s' "n' - Suc n"] ih by (simp add: Suc_diff_Suc)
    ultimately show ?thesis using ih l1 by simp
  qed
qed

text \<open>A bucket of a table that is not rehashing holds exactly the entries with its index.\<close>

lemma stable_bucket:
  assumes "ht_inv h t" and "\<not> IsRehashing t" and "i < length (buckets0 t)"
  shows "distinct (map kstr (buckets0 t ! i))"
    and "e \<in> set (buckets0 t ! i) \<longleftrightarrow> ht_map t (kstr e) = Some e \<and> slot h (length (buckets0 t)) (kstr e) = i"
proof -
  have st: "stable h t" using assms(1,2) rehashing_IsRehashing by (auto simp: ht_inv_def)
  then have pl: "placed h (buckets0 t)" and all: "all_entries t = concat (buckets0 t)" and c: "counted t"
    by (auto simp: stable_def all_entries_def)
  have d: "distinct (map kstr (concat (buckets0 t)))" using c all by (simp add: counted_def)
  have "set (buckets0 t ! i) \<subseteq> set (all_entries t)" using assms(3) nth_mem all by fastforce
  show "distinct (map kstr (buckets0 t ! i))"
    using d assms(3) by (metis distinct_concat_iff distinct_concat map_concat nth_map nth_mem length_map)
  have "ht_map t (kstr e) = Some e \<longleftrightarrow> e \<in> set (all_entries t)"
    using c by (auto simp: ht_map_def counted_def map_of_keyed_eq_Some)
  also have "\<dots> \<longleftrightarrow> (\<exists>j < length (buckets0 t). e \<in> set (buckets0 t ! j))"
    unfolding all by (auto simp: in_set_conv_nth) (metis nth_mem in_set_conv_nth)+
  finally show "e \<in> set (buckets0 t ! i) \<longleftrightarrow> ht_map t (kstr e) = Some e \<and> slot h (length (buckets0 t)) (kstr e) = i"
    using placedD [OF pl] assms(3) by blast
qed


section \<open>A scan over buckets\<close>

text \<open>The slots that the cursor visits from position \<open>j\<close> up to position \<open>j'\<close>, in \<open>2 ^ m\<close> buckets.\<close>

definition visited :: "nat \<Rightarrow> nat \<Rightarrow> nat \<Rightarrow> nat set" where
  "visited m j j' = (\<lambda>i. unat (scan_pos m i)) ` {j..<j'}"

lemma visited_step: "j < j' \<Longrightarrow> visited m j j' = insert (unat (scan_pos m j)) (visited m (Suc j) j')"
proof -
  assume "j < j'"
  then have "{j..<j'} = insert j {Suc j..<j'}" by auto
  then show ?thesis by (simp add: visited_def)
qed

lemma cursor_inj:
  "m < 64 \<Longrightarrow> i < 2 ^ m \<Longrightarrow> j < 2 ^ m \<Longrightarrow> unat (scan_pos m i) = unat (scan_pos m j) \<longleftrightarrow> i = j"
  using inj_onD [OF bij_betw_imp_inj_on [OF scan_pos_bij], of m i j] by auto

lemma visited_fresh: "m < 64 \<Longrightarrow> j < 2 ^ m \<Longrightarrow> j' \<le> 2 ^ m \<Longrightarrow> unat (scan_pos m j) \<notin> visited m (Suc j) j'"
  by (auto simp: visited_def cursor_inj)

lemma cursor_zero: "m < 64 \<Longrightarrow> j \<le> 2 ^ m \<Longrightarrow> 0 < j \<Longrightarrow> unat (scan_pos m j) = 0 \<longleftrightarrow> j = 2 ^ m"
  using cursor_inj [of m j 0] by (cases "j = 2 ^ m") (auto simp: scan_pos_0 scan_pos_wrap)

definition in_slots :: "hash_fn \<Rightarrow> nat \<Rightarrow> dss \<Rightarrow> nat set \<Rightarrow> string set" where
  "in_slots h m s V = {k \<in> dom (ext s). slot h (2 ^ m) k \<in> V}"

text \<open>One call of \<open>TraverseBucket\<close> in the inner loop.\<close>

lemma visit_bucket:
  assumes "svc_inv h s" and "\<not> IsRehashing (expire_ht s)" and "length (buckets0 (expire_ht s)) = 2 ^ m"
    and "m < 32" and "j < 2 ^ m" and "bucket_index s = unat (scan_pos m j)"
    and "TraverseBucket (bucket_index s) (expire_visit h t) (expire_ht s) (s, sampled, n) = (i, (s', sampled', n'))"
  shows "i = unat (scan_pos m (Suc j))" and "purged h t s s' (n' - n)" and "n \<le> n'" and "layout s' = layout s"
    and "sampled' = sampled + card (in_slots h m s {unat (scan_pos m j)})"
    and "n' + sampled \<le> n + sampled'"
    and "\<forall>k\<in>stale t s'. slot h (2 ^ m) k \<noteq> unat (scan_pos m j)"
    and "\<And>k. slot h (2 ^ m) k \<noteq> unat (scan_pos m j) \<Longrightarrow> ext s' k = ext s k"
proof -
  let ?t = "expire_ht s" and ?p = "unat (scan_pos m j)"
  let ?es = "buckets0 ?t ! ?p"
  have inv: "ht_inv h ?t" using assms(1) by (simp add: svc_inv_def tables_ok_def)
  have p: "?p < length (buckets0 ?t)" using scan_pos_less [of m j] assms(3,4) by simp
  note b = stable_bucket [OF inv assms(2) p, unfolded assms(3)]
  have tr: "i = unat (scan_pos m (Suc j))" "fold (expire_visit h t) ?es (s, sampled, n) = (s', sampled', n')"
    using assms(2,3,4,6,7) by (simp_all add: TraverseBucket_def NextIndex_scan_pos)
  have ex: "\<forall>e\<in>set ?es. ext s (kstr e) = Some (evalue e)"
    using b(2) by (auto simp: ext_def vmap_def)
  note c = visit_chain [OF assms(1) b(1) ex assms(2) tr(2)]
  show "i = unat (scan_pos m (Suc j))" by (rule tr)
  show "purged h t s s' (n' - n)" "n \<le> n'" "layout s' = layout s" "n' + sampled \<le> n + sampled'" using c by auto
  have keys: "in_slots h m s {?p} = kstr ` set ?es"
  proof (intro equalityI subsetI)
    fix k assume "k \<in> in_slots h m s {?p}"
    then obtain e where "ht_map ?t k = Some e" "slot h (2 ^ m) k = ?p"
      by (auto simp: in_slots_def ext_def vmap_def)
    moreover from this have "kstr e = k" using ht_map_key by blast
    ultimately show "k \<in> kstr ` set ?es" using b(2) [of e] by (auto intro!: image_eqI [of _ kstr e])
  qed (use b(2) in \<open>auto simp: in_slots_def ext_def vmap_def\<close>)
  show "sampled' = sampled + card (in_slots h m s {?p})"
    using c keys distinct_card [OF b(1)] by simp
  have x: "ext s' = ext s |` (- expired_in t ?es)" using c by blast
  show "\<forall>k\<in>stale t s'. slot h (2 ^ m) k \<noteq> ?p"
  proof (intro ballI notI)
    fix k assume k: "k \<in> stale t s'" and sl: "slot h (2 ^ m) k = ?p"
    then obtain tp where tp: "ext s k = Some tp" "tp \<le> t" "k \<notin> expired_in t ?es"
      using x by (auto simp: stale_def restrict_map_def split: if_splits)
    then have "k \<in> kstr ` set ?es" using keys sl by (auto simp: in_slots_def)
    then obtain e where "e \<in> set ?es" "kstr e = k" by auto
    then show False using tp ex by (auto simp: expired_in_def)
  qed
  show "ext s' k = ext s k" if "slot h (2 ^ m) k \<noteq> ?p" for k
  proof -
    have "k \<notin> kstr ` set ?es" using keys that by (auto simp: in_slots_def)
    then show ?thesis using x by (auto simp: restrict_map_def expired_in_def)
  qed
qed


lemma in_slots_split:
  assumes "p \<notin> V" and "\<And>k. slot h (2 ^ m) k \<noteq> p \<Longrightarrow> ext s' k = ext s k"
  shows "card (in_slots h m s (insert p V)) = card (in_slots h m s {p}) + card (in_slots h m s' V)"
proof -
  have "slot h (2 ^ m) k \<in> V \<Longrightarrow> ext s' k = ext s k" for k using assms(1) assms(2) [of k] by metis
  then have "in_slots h m s' V = in_slots h m s V" unfolding in_slots_def dom_def by auto
  moreover have "in_slots h m s (insert p V) = in_slots h m s {p} \<union> in_slots h m s V"
    by (auto simp: in_slots_def)
  moreover have "in_slots h m s {p} \<inter> in_slots h m s V = {}" using assms(1) by (auto simp: in_slots_def)
  moreover have "finite (in_slots h m s W)" for W
    by (rule finite_subset [OF _ finite_ext [of s]]) (auto simp: in_slots_def)
  ultimately show ?thesis by (simp add: card_Un_disjoint)
qed

text \<open>
  The inner loop ends within one cycle of the cursor. It stops with enough keys sampled or at the
  end of the cycle; it has sampled every key of the slots it passed, and no expired key is left there.
\<close>

lemma sample_buckets_correct:
  assumes "svc_inv h s" and "\<not> IsRehashing (expire_ht s)" and "length (buckets0 (expire_ht s)) = 2 ^ m"
    and "m < 32" and "j < 2 ^ m" and "bucket_index s = unat (scan_pos m j)" and "2 ^ m - j \<le> n"
  shows "\<exists>s' sampled' e' j'. sample_buckets n h t wanted (s, sampled, e) = Some (s', sampled', e') \<and>
    j \<le> j' \<and> j' \<le> 2 ^ m \<and> bucket_index s' = unat (scan_pos m j') \<and> purged h t s s' (e' - e) \<and> e \<le> e' \<and>
    e' + sampled \<le> e + sampled' \<and> layout s' = layout s \<and> (wanted \<le> sampled' \<or> j' = 2 ^ m) \<and>
    sampled' = sampled + card (in_slots h m s (visited m j j')) \<and>
    (\<forall>k\<in>stale t s'. slot h (2 ^ m) k \<notin> visited m j j')"
  using assms
proof (induction n arbitrary: s j sampled e)
  case 0
  then show ?case by simp
next
  case (Suc n)
  show ?case
  proof (cases "sampled < wanted")
    case False
    then show ?thesis
      using Suc.prems purged_refl
      by (intro exI [of _ s] exI [of _ sampled] exI [of _ e] exI [of _ j])
        (simp add: sample_buckets.simps visited_def in_slots_def)
  next
    case True
    obtain i s1 sa ex where tr: "TraverseBucket (bucket_index s) (expire_visit h t) (expire_ht s) (s, sampled, e) = (i, (s1, sa, ex))"
      by (metis prod.collapse)
    note v = visit_bucket [OF Suc.prems(1-6) tr]
    let ?p = "unat (scan_pos m j)"
    define s2 where "s2 = s1\<lparr>bucket_index := i\<rparr>"
    have "is_cursor (expire_ht s1) i"
      using v(1,4) scan_pos_less [of m "Suc j"] Suc.prems(3,4) by (simp add: is_cursor_def layout_def)
    then have p2: "purged h t s s2 (ex - e)" by (intro purged_stats [OF v(2)]) (simp_all add: s2_def)
    have l2: "layout s2 = layout s" using v(4) by (simp add: s2_def layout_def)
    have ext2: "ext s2 = ext s1" and st2: "stale t s2 = stale t s1" by (simp_all add: s2_def ext_def stale_def)
    have run: "sample_buckets (Suc n) h t wanted (s, sampled, e) =
        (if i = 0 then Some (s2, sa, ex) else sample_buckets n h t wanted (s2, sa, ex))"
      using True tr by (subst sample_buckets.simps) (simp add: s2_def)
    have z: "i = 0 \<longleftrightarrow> Suc j = 2 ^ m"
      using cursor_zero [of m "Suc j"] Suc.prems(4,5) v(1) by simp
    show ?thesis
    proof (cases "i = 0")
      case i0: True
      have "{j..<2 ^ m} = {j}" using z i0 by (metis atLeastLessThan_singleton)
      then have vs: "visited m j (2 ^ m) = {?p}" by (simp add: visited_def)
      show ?thesis
        using run i0 z p2 v l2 st2 vs Suc.prems(4)
        by (intro exI [of _ s2] exI [of _ sa] exI [of _ ex] exI [of _ "2 ^ m"])
          (simp add: s2_def scan_pos_wrap)
    next
      case False
      have j: "Suc j < 2 ^ m" using z False Suc.prems(5) by simp
      have pre: "svc_inv h s2" "\<not> IsRehashing (expire_ht s2)" "length (buckets0 (expire_ht s2)) = 2 ^ m"
        "bucket_index s2 = unat (scan_pos m (Suc j))" "2 ^ m - Suc j \<le> n"
        using p2 l2 Suc.prems v(1) by (simp_all add: purged_def layout_def) (simp add: s2_def)
      obtain s' sa' ex' j' where ih: "sample_buckets n h t wanted (s2, sa, ex) = Some (s', sa', ex')"
          "Suc j \<le> j'" "j' \<le> 2 ^ m" "bucket_index s' = unat (scan_pos m j')" "purged h t s2 s' (ex' - ex)" "ex \<le> ex'"
          "layout s' = layout s2" "wanted \<le> sa' \<or> j' = 2 ^ m"
          "sa' = sa + card (in_slots h m s2 (visited m (Suc j) j'))"
          "\<forall>k\<in>stale t s'. slot h (2 ^ m) k \<notin> visited m (Suc j) j'" "ex' + sa \<le> ex + sa'"
        using Suc.IH [OF pre(1-3) Suc.prems(4) j pre(4,5)] by blast
      have vs: "visited m j j' = insert ?p (visited m (Suc j) j')" using ih(2) by (simp add: visited_step)
      have fresh: "?p \<notin> visited m (Suc j) j'" using visited_fresh [of m j j'] Suc.prems(4,5) ih(3) by simp
      have c: "sa' = sampled + card (in_slots h m s (visited m j j'))"
        using in_slots_split [OF fresh, of h m s2 s] v(5,8) ih(9) ext2 vs by simp
      have pp: "purged h t s s' (ex' - e)" using purged_trans [OF p2 ih(5)] v(3) ih(6) by simp
      have "stale t s' \<subseteq> stale t s2"
        using ih(5) by (auto simp: purged_def stale_def restrict_map_def split: if_splits)
      then have "\<forall>k\<in>stale t s'. slot h (2 ^ m) k \<notin> visited m j j'"
        using ih(10) v(7) st2 vs by auto
      then show ?thesis
        using run False ih c pp l2 v(3,6)
        by (intro exI [of _ s'] exI [of _ sa'] exI [of _ ex'] exI [of _ j']) simp
    qed
  qed
qed


section \<open>The cycle\<close>

lemma purged_stale: "purged h t s s' n \<Longrightarrow> stale t s' \<subseteq> stale t s"
  by (auto simp: purged_def stale_def restrict_map_def split: if_splits)

lemma purged_card:
  assumes "purged h t s s' n"
  shows "card (dom (ext s')) + n = card (dom (ext s))"
proof -
  obtain K where K: "K \<subseteq> stale t s" "card K = n" "ext s' = ext s |` (- K)" using assms by (auto simp: purged_def)
  have "K \<subseteq> dom (ext s)" using K(1) by (auto simp: stale_def)
  moreover have "dom (ext s') = dom (ext s) - K" using K(3) by (auto simp: restrict_map_def dom_def)
  ultimately show ?thesis
    using K(2) finite_ext [of s] by (metis card_Diff_subset card_mono finite_subset le_add_diff_inverse2)
qed

lemma Count_ext: "svc_inv h s \<Longrightarrow> Count (expire_ht s) = card (dom (ext s))"
  using entries_card [of h "expire_ht s"] by (simp add: svc_inv_def tables_ok_def Count_def ext_def dom_vmap_ht)

lemma stable_cursor:
  assumes "svc_inv h s" and "Count (expire_ht s) > 0" and "\<not> IsRehashing (expire_ht s)"
  obtains m j where "length (buckets0 (expire_ht s)) = 2 ^ m" and "m < 32" and "j < 2 ^ m"
    and "bucket_index s = unat (scan_pos m j)" and "bucket_index s = 0 \<longrightarrow> j = 0"
proof -
  have inv: "ht_inv h (expire_ht s)" using assms(1) by (simp add: svc_inv_def tables_ok_def)
  have ne: "buckets0 (expire_ht s) \<noteq> []"
    using inv assms(2) ht_inv_counted [OF inv]
    by (auto simp: ht_inv_def stable_def rehashing_def all_entries_def counted_def Count_def)
  obtain m where m: "length (buckets0 (expire_ht s)) = 2 ^ m" "(2 :: nat) ^ m < 2 ^ 31"
    using ht_inv_pow2 [OF inv ne] by (auto simp: pow2_size_def)
  then have m32: "m < 32" using power_less_imp_less_exp [of "2 :: nat" m 31] by simp
  have "is_cursor (expire_ht s) (bucket_index s)" using assms(1) by (simp add: svc_inv_def tables_ok_def)
  then have "bucket_index s < 2 ^ m" using m(1) by (auto simp: is_cursor_def)
  then have "bucket_index s \<in> (\<lambda>j. unat (scan_pos m j)) ` {..<2 ^ m}"
    using bij_betw_imp_surj_on [OF scan_pos_bij, of m] m32 by simp
  then obtain j where j: "j < 2 ^ m" "bucket_index s = unat (scan_pos m j)" by auto
  have "bucket_index s = 0 \<longrightarrow> j = 0" using cursor_inj [of m j 0] j m32 by (simp add: scan_pos_0)
  with m(1) m32 j show thesis by (rule that)
qed

text \<open>The inner loop as the outer loop calls it.\<close>

lemma sample_iteration:
  assumes "svc_inv h s" and "Count (expire_ht s) > 0" and "wanted > 0"
  obtains s' sampled e where "sample_buckets (BucketCount (expire_ht s)) h t wanted (s, 0, 0) = Some (s', sampled, e)"
    and "purged h t s s' e" and "e \<le> sampled"
    and "\<not> IsRehashing (expire_ht s) \<and> bucket_index s = 0 \<and> Count (expire_ht s) \<le> wanted \<Longrightarrow> stale t s' = {}"
proof (cases "IsRehashing (expire_ht s)")
  case True
  have inv: "ht_inv h (expire_ht s)" using assms(1) by (simp add: svc_inv_def tables_ok_def)
  then have "rehashing h (expire_ht s)" using True stable_not_rehashing by (auto simp: ht_inv_def)
  then have ne: "length (buckets0 (expire_ht s)) > 0" by (auto simp: rehashing_def)
  then have "sample_buckets (BucketCount (expire_ht s)) h t wanted (s, 0, 0) = Some (s\<lparr>bucket_index := 0\<rparr>, 0, 0)"
    using True assms(3)
    by (subst sample_buckets.simps) (simp add: BucketCount_def TraverseBucket_def split: nat.split)
  moreover have "purged h t s (s\<lparr>bucket_index := 0\<rparr>) 0"
    by (rule purged_stats [OF purged_refl [OF assms(1)]]) (simp_all add: is_cursor_def)
  ultimately show thesis by (rule that) (simp_all add: True)
next
  case False
  obtain m j where m: "length (buckets0 (expire_ht s)) = 2 ^ m" "m < 32" "j < 2 ^ m"
      "bucket_index s = unat (scan_pos m j)" "bucket_index s = 0 \<longrightarrow> j = 0"
    using stable_cursor [OF assms(1,2) False] by blast
  obtain s' sampled e j' where r: "sample_buckets (BucketCount (expire_ht s)) h t wanted (s, 0, 0) = Some (s', sampled, e)"
      "j \<le> j'" "j' \<le> 2 ^ m" "bucket_index s' = unat (scan_pos m j')" "purged h t s s' e" "layout s' = layout s"
      "wanted \<le> sampled \<or> j' = 2 ^ m" "sampled = card (in_slots h m s (visited m j j'))"
      "\<forall>k\<in>stale t s'. slot h (2 ^ m) k \<notin> visited m j j'" "e \<le> sampled"
    using sample_buckets_correct [OF assms(1) False m(1-4), of "BucketCount (expire_ht s)" t wanted 0 0] m(1)
    by (auto simp: BucketCount_def)
  have "stale t s' = {}" if all: "bucket_index s = 0" "Count (expire_ht s) \<le> wanted"
  proof -
    have j0: "j = 0" using m(5) all(1) by simp
    have "dom (ext s) \<subseteq> in_slots h m s (visited m j j')"
    proof (cases "j' = 2 ^ m")
      case True
      have "visited m 0 (2 ^ m) = {..<2 ^ m}"
        using bij_betw_imp_surj_on [OF scan_pos_bij, of m] m(2) by (simp add: visited_def lessThan_atLeast0)
      then show ?thesis using True j0 by (auto simp: in_slots_def)
    next
      case no: False
      have "card (dom (ext s)) \<le> card (in_slots h m s (visited m j j'))"
        using r(7,8) no all(2) Count_ext [OF assms(1)] by simp
      moreover have "in_slots h m s (visited m j j') \<subseteq> dom (ext s)" by (auto simp: in_slots_def)
      ultimately have "in_slots h m s (visited m j j') = dom (ext s)" by (intro card_seteq [OF finite_ext])
      then show ?thesis by simp
    qed
    moreover have "stale t s' \<subseteq> dom (ext s)" using purged_stale [OF r(5)] by (auto simp: stale_def)
    ultimately show ?thesis using r(9) unfolding in_slots_def by blast
  qed
  then show thesis by (intro that [OF r(1,5,10)]) simp_all
qed


lemma expire_loop_correct:
  assumes "svc_inv h s" and "Count (expire_ht s) \<le> n"
  shows "\<exists>s' e'. expire_loop n h t limit elapsed max_samples i (s, sampled, e) = Some (s', e') \<and>
    purged h t s s' (e' - e) \<and> e \<le> e' \<and> active_expired_keys s' = active_expired_keys s \<and>
    (\<not> IsRehashing (expire_ht s) \<and> bucket_index s = 0 \<and>
     Count (expire_ht s) \<le> active_expire_keys_per_loop (dconfig s) \<longrightarrow> stale t s' = {})"
  using assms
proof (induction n arbitrary: s i sampled e)
  case 0
  then have "dom (ext s) = {}" using Count_ext [of h s] finite_ext [of s] by simp
  then have "stale t s = {}" by (auto simp: stale_def)
  then show ?case
    using 0 purged_stats [OF purged_refl [OF 0(1)], of "s\<lparr>expired_stale_perc := 0\<rparr>" t]
      purged_cursor [OF purged_refl [OF 0(1)]]
    by (auto simp: expire_loop.simps stale_def ext_def)
next
  case (Suc n)
  define wanted where "wanted = min (active_expire_keys_per_loop (dconfig s)) (Count (expire_ht s))"
  show ?case
  proof (cases "wanted = 0")
    case True
    have "Count (expire_ht s) = 0 \<Longrightarrow> stale t s = {}"
      using Count_ext [OF Suc.prems(1)] finite_ext [of s] by (auto simp: stale_def)
    then show ?thesis
      using True Suc.prems purged_stats [OF purged_refl [OF Suc.prems(1)], of "s\<lparr>expired_stale_perc := 0\<rparr>" t]
        purged_cursor [OF purged_refl [OF Suc.prems(1)]]
      by (auto simp: expire_loop.simps wanted_def stale_def ext_def)
  next
    case False
    then have "Count (expire_ht s) > 0" "wanted > 0" by (auto simp: wanted_def)
    then obtain s1 sa ex where r: "sample_buckets (BucketCount (expire_ht s)) h t wanted (s, 0, 0) = Some (s1, sa, ex)"
        "purged h t s s1 ex" "ex \<le> sa"
        "\<not> IsRehashing (expire_ht s) \<and> bucket_index s = 0 \<and> Count (expire_ht s) \<le> wanted \<Longrightarrow> stale t s1 = {}"
      using sample_iteration [OF Suc.prems(1)] by metis
    define s2 where "s2 = s1\<lparr>expired_stale_perc := ex * 100 div sa, expire_elapsed_time := expire_elapsed_time s1 + elapsed i\<rparr>"
    let ?s3 = "s2\<lparr>expired_time_cap_reached_count := expired_time_cap_reached_count s2 + 1\<rparr>"
    let ?thr = "active_expire_acceptable_stale_percent (dconfig s)"
    have run: "expire_loop (Suc n) h t limit elapsed max_samples i (s, sampled, e) =
        (if sa = 0 then Some (s1, e) else if ex * 100 \<le> ?thr * sa then Some (s2, e + ex)
         else if elapsed i \<ge> limit then Some (?s3, e + ex)
         else if sampled + sa = max_samples then Some (s2, e + ex)
         else expire_loop n h t limit elapsed max_samples (i + 1) (s2, sampled + sa, e + ex))"
      using False r(1) by (subst expire_loop.simps) (simp add: wanted_def [symmetric] s2_def)
    have p: "purged h t s s2 ex" "purged h t s ?s3 ex"
        "stale t s2 = stale t s1" "stale t ?s3 = stale t s1"
      using purged_cursor [OF r(2)] by (simp_all add: purged_stats [OF r(2)] s2_def stale_def ext_def)
    have fin: ?thesis if "expire_loop (Suc n) h t limit elapsed max_samples i (s, sampled, e) = Some (s', e + d)"
        "purged h t s s' d" "stale t s' \<subseteq> stale t s1" for s' d
      using that r(4) by (intro exI [of _ s'] exI [of _ "e + d"]) (auto simp: wanted_def purged_def)
    show ?thesis
    proof (cases "sa = 0 \<or> ex * 100 \<le> ?thr * sa \<or> elapsed i \<ge> limit \<or> sampled + sa = max_samples")
      case True
      consider "sa = 0" | "sa \<noteq> 0" "ex * 100 \<le> ?thr * sa"
        | "sa \<noteq> 0" "\<not> ex * 100 \<le> ?thr * sa" "elapsed i \<ge> limit"
        | "sa \<noteq> 0" "\<not> ex * 100 \<le> ?thr * sa" "\<not> elapsed i \<ge> limit" "sampled + sa = max_samples"
        using True by blast
      then show ?thesis
      proof cases
        case 1
        then show ?thesis using run r(2,3) by (intro fin [of s1 0]) simp_all
      next
        case 2
        then show ?thesis using run p by (intro fin [of s2 ex]) simp_all
      next
        case 3
        then show ?thesis using run p by (intro fin [of ?s3 ex]) simp_all
      next
        case 4
        then show ?thesis using run p by (intro fin [of s2 ex]) simp_all
      qed
    next
      case no: False
      then have "ex > 0" by auto
      then have "Count (expire_ht s2) \<le> n"
        using purged_card [OF p(1)] Count_ext [OF Suc.prems(1)] Count_ext [of h s2] p(1) Suc.prems(2)
        by (auto simp: purged_def)
      then obtain s' e' where ih: "expire_loop n h t limit elapsed max_samples (i + 1) (s2, sampled + sa, e + ex) = Some (s', e')"
          "purged h t s2 s' (e' - (e + ex))" "e + ex \<le> e'"
        using Suc.IH [of s2 "i + 1" "sampled + sa" "e + ex"] p(1) by (auto simp: purged_def)
      have "purged h t s s' (e' - e)" using purged_trans [OF p(1) ih(2)] ih(3) by simp
      then show ?thesis
        using fin [of s' "e' - e"] run no ih purged_stale [OF ih(2)] p(3) by simp
    qed
  qed
qed


lemma purged_view:
  assumes "purged h t s s' n"
  shows "view_of t (dat s') (ext s') = view_of t (dat s) (ext s)"
proof -
  obtain K where K: "K \<subseteq> stale t s" "dat s' = dat s |` (- K)" "ext s' = ext s |` (- K)" using assms by (auto simp: purged_def)
  have "view_of t (dat s) (ext s) k = None" if "k \<in> K" for k
    using K(1) that by (auto simp: stale_def view_of_def visible_def split: option.splits)
  then have "view_of t (dat s') (ext s') k = view_of t (dat s) (ext s) k" for k
    using K(2,3) by (cases "k \<in> K") (simp_all add: view_of_def cong: option.case_cong)
  then show ?thesis by (simp add: fun_eq_iff)
qed

lemma ActiveExpire_run:
  assumes "svc_inv h s" and "hz (dconfig s) > 0"
  obtains s0 n where "ActiveExpire h t elapsed s = Some (s0\<lparr>active_expired_keys := active_expired_keys s0 + of_nat n\<rparr>)"
    and "purged h t s s0 n"
    and "\<not> IsRehashing (expire_ht s) \<and> bucket_index s = 0 \<and>
      Count (expire_ht s) \<le> active_expire_keys_per_loop (dconfig s) \<longrightarrow> stale t s0 = {}"
  using expire_loop_correct [OF assms(1), of "Suc (Count (expire_ht s))" t
      "1000000000 * int (active_expire_cycle_time_percent (dconfig s)) div 100 div int (hz (dconfig s))" elapsed
      "Count (expire_ht s)" 0 0 0] assms(2)
  by (auto simp: ActiveExpire_def Let_def)



section \<open>The properties at work\<close>

definition volatile_store :: dss where
  "volatile_store = snd (expire_Upsert_key (\<lambda>_. 0) (snd (data_Insert (\<lambda>_. 0) example_service ''a'' (Some ''x''))) ''a'' 50)"

lemma volatile_store:
  "svc_inv (\<lambda>_. 0) volatile_store" "ext volatile_store = [''a'' \<mapsto> 50]" "bucket_index volatile_store = 0"
  "dconfig volatile_store = Config_default"
proof -
  let ?s1 = "snd (data_Insert (\<lambda>_. 0) example_service ''a'' (Some ''x''))"
  have i: "tables_ok (\<lambda>_. 0) example_service" by (rule svc_invD(1) [OF example_service(1)])
  have d0: "dat example_service = Map.empty" "ext example_service = Map.empty" by (simp_all add: example_service_def)
  have e1: "effect (\<lambda>_. 0) example_service ?s1 [''a'' \<mapsto> Some ''x''] Map.empty"
    using data_Insert_effect [OF i example_service(4), of 1 "''a''" "Some ''x''"] by (simp add: d0)
  note d1 = effectD [OF e1]
  have "room 0 ?s1" by (simp add: room_def d1)
  then have e2: "effect (\<lambda>_. 0) example_service volatile_store [''a'' \<mapsto> Some ''x''] [''a'' \<mapsto> 50]"
    using effect_trans [OF e1 expire_Upsert_effect(2) [OF d1(1), of 0 "''a''" 50]] by (simp add: d1 volatile_store_def)
  note d2 = effectD [OF e2] aux_fields [OF effectD(4) [OF e2]]
  show "svc_inv (\<lambda>_. 0) volatile_store" using d2 by (simp add: svc_inv_def ran_def)
  show "ext volatile_store = [''a'' \<mapsto> 50]" using d2 by simp
  show "bucket_index volatile_store = 0" "dconfig volatile_store = Config_default"
    using d2 by (simp_all add: example_service_def DataStructureService_init_def)
qed



end
