(* ===== verification/Dispatch.thy ===== *)
theory Dispatch
  imports CommandsInv MiscCommands Eviction ActiveExpire
begin

text \<open>
  The command dictionary and \<open>Invoke\<close>: \<open>src/src/service/command.h\<close>, \<open>command_dictionary.h\<close>,
  \<open>command_registry.cc\<close>, the registrations of the command files and
  \<open>DataStructureService::RegisterCommand\<close> and \<open>Invoke\<close>. What the code reads of its surroundings
  while a command runs is the record \<open>world\<close>.
\<close>

section \<open>Commands and the dictionary\<close>

text \<open>A handler has no value when it reads behind its arguments or throws.\<close>

type_synonym handler_type = "dss \<Rightarrow> string list \<Rightarrow> result \<Rightarrow> (dss \<times> result) option"

record command =
  command_name :: string
  is_write_command :: bool
  handler :: handler_type

text \<open>A new command has an empty \<open>std::function\<close>, which throws when it is called.\<close>

definition Command :: "string \<Rightarrow> command" where
  "Command name = \<lparr>command_name = name, is_write_command = False, handler = (\<lambda>s args r. None)\<rparr>"

definition SetHandler :: "handler_type \<Rightarrow> command \<Rightarrow> command" where
  "SetHandler f c = c\<lparr>handler := f\<rparr>"

definition SetIsWriteCommand :: "command \<Rightarrow> command" where
  "SetIsWriteCommand c = c\<lparr>is_write_command := True\<rparr>"

text \<open>\<open>std::unordered_map\<close>: \<open>emplace\<close> does nothing when the name is there already.\<close>

type_synonym dictionary = "(string \<times> command) list"

definition emplace :: "string \<Rightarrow> command \<Rightarrow> dictionary \<Rightarrow> dictionary" where
  "emplace name c d = (if map_of d name = None then d @ [(name, c)] else d)"

definition RegisterCommand :: "string \<Rightarrow> command \<Rightarrow> dictionary \<Rightarrow> dictionary" where
  "RegisterCommand name c d =
     (let lower = map tolower name; d1 = emplace lower c d; upper = map toupper lower
      in emplace upper c d1)"

text \<open>
  The hash function, what INFO prints of the process, whether nobody else holds the value that
  SETRANGE changes, the bytes in use and how far they go down with each evicted key, and the
  outputs of \<open>rand\<close>.
\<close>

record world =
  hashing :: hash_fn
  info :: info_env
  sole_holder :: bool
  allocated :: nat
  freed_bytes :: "nat list"
  rand_outputs :: "nat list"

abbreviation always :: "(dss \<Rightarrow> string list \<Rightarrow> result \<Rightarrow> dss \<times> result) \<Rightarrow> handler_type" where
  "always f \<equiv> \<lambda>s args r. Some (f s args r)"

abbreviation reg :: "string \<Rightarrow> handler_type \<Rightarrow> dictionary \<Rightarrow> dictionary" where
  "reg name f \<equiv> RegisterCommand name (SetHandler f (Command name))"

abbreviation reg_write :: "string \<Rightarrow> handler_type \<Rightarrow> dictionary \<Rightarrow> dictionary" where
  "reg_write name f \<equiv> RegisterCommand name (SetIsWriteCommand (SetHandler f (Command name)))"

definition RegisterClientCommands :: "dictionary \<Rightarrow> dictionary" where
  "RegisterClientCommands = reg ''HELLO'' (always HelloFunction)"

definition RegisterKeyCommands :: "world \<Rightarrow> dictionary \<Rightarrow> dictionary" where
  "RegisterKeyCommands w =
     (let h = hashing w in reg_write ''DEL'' (always (DelFunction h)) \<circ> reg ''TTL'' (TtlFunction h))"

definition RegisterMiscCommands :: "world \<Rightarrow> dictionary \<Rightarrow> dictionary" where
  "RegisterMiscCommands w =
     reg ''SHUTDOWN'' ShutdownFunction \<circ> reg ''COMMAND'' (always CommandFunction) \<circ>
     reg ''INFO'' (always (InfoFunction (info w))) \<circ> reg ''DBSIZE'' (always DbSizeFunction)"

definition RegisterStringCommands :: "world \<Rightarrow> dictionary \<Rightarrow> dictionary" where
  "RegisterStringCommands w =
     (let h = hashing w in
      reg ''STRLEN'' (always (StrlenFunction h)) \<circ>
      reg ''EXISTS'' (always (ExistsFunction h)) \<circ>
      reg ''APPEND'' (always (AppendFunction h)) \<circ>
      reg ''SUBSTR'' (always (GetRangeFunction h)) \<circ>
      reg ''GETRANGE'' (always (GetRangeFunction h)) \<circ>
      reg ''GETSET'' (always (GetSetFunction h)) \<circ>
      reg ''GETEX'' (always (GetEXFunction h)) \<circ>
      reg ''GETDEL'' (always (GetDelFunction h)) \<circ>
      reg ''MGET'' (always (MGetFunction h)) \<circ>
      reg ''GET'' (always (GetFunction h)) \<circ>
      reg_write ''MSETNX'' (always (MSetNXFunction h)) \<circ>
      reg_write ''MSET'' (always (MSetFunction h)) \<circ>
      reg_write ''SETRANGE'' (always (SetRangeFunction h (sole_holder w))) \<circ>
      reg_write ''SETNX'' (always (SetNXFunction h)) \<circ>
      reg_write ''PSETEX'' (always (PSetEXFunction h)) \<circ>
      reg_write ''SETEX'' (always (SetEXFunction h)) \<circ>
      reg_write ''SET'' (always (SetFunction h)))"

definition RegisterCommands :: "world \<Rightarrow> dictionary" where
  "RegisterCommands w =
     RegisterStringCommands w (RegisterMiscCommands w (RegisterKeyCommands w (RegisterClientCommands [])))"

section \<open>Invoke\<close>

text \<open>\<open>None\<close> is an access behind the arguments, an exception, or a run for which the lists of the world were too short.\<close>

definition ensure_memory :: "world \<Rightarrow> command \<Rightarrow> dss \<Rightarrow> (bool \<times> dss) option" where
  "ensure_memory w c s =
     (if is_write_command c
      then (let bytes_to_free = MaxmemoryExceeded (allocated w) s
            in if bytes_to_free \<noteq> 0
               then map_option (\<lambda>(ok, s', rs). (ok, s')) (Evict (hashing w) bytes_to_free (freed_bytes w) s (rand_outputs w))
               else Some (True, s))
      else Some (True, s))"

definition Invoke :: "world \<Rightarrow> dss \<Rightarrow> string list \<Rightarrow> result \<Rightarrow> (dss \<times> result) option" where
  "Invoke w s command_strings r =
     (if command_strings = [] then None
      else case map_of (RegisterCommands w) (command_strings ! 0) of
        None \<Rightarrow> Some (s, SetError kUnknownCommand r)
      | Some c \<Rightarrow>
          (case ensure_memory w c s of
             None \<Rightarrow> None
           | Some (ok, s1) \<Rightarrow>
               if \<not> ok then Some (s1, SetError kOOM r)
               else map_option (\<lambda>(s2, r2). (s2\<lparr>commands_processed := commands_processed s2 + 1\<rparr>, r2))
                      (handler c s1 command_strings r)))"

section \<open>The dictionary\<close>

text \<open>The names with their handlers, and which of them may be refused for lack of memory.\<close>

definition command_table :: "world \<Rightarrow> (string \<times> bool \<times> handler_type) list" where
  "command_table w =
     (let h = hashing w in
      [(''HELLO'', False, always HelloFunction), (''TTL'', False, TtlFunction h), (''DEL'', True, always (DelFunction h)),
       (''DBSIZE'', False, always DbSizeFunction), (''INFO'', False, always (InfoFunction (info w))),
       (''COMMAND'', False, always CommandFunction), (''SHUTDOWN'', False, ShutdownFunction),
       (''SET'', True, always (SetFunction h)), (''SETEX'', True, always (SetEXFunction h)),
       (''PSETEX'', True, always (PSetEXFunction h)), (''SETNX'', True, always (SetNXFunction h)),
       (''SETRANGE'', True, always (SetRangeFunction h (sole_holder w))), (''MSET'', True, always (MSetFunction h)),
       (''MSETNX'', True, always (MSetNXFunction h)), (''GET'', False, always (GetFunction h)),
       (''MGET'', False, always (MGetFunction h)), (''GETDEL'', False, always (GetDelFunction h)),
       (''GETEX'', False, always (GetEXFunction h)), (''GETSET'', False, always (GetSetFunction h)),
       (''GETRANGE'', False, always (GetRangeFunction h)), (''SUBSTR'', False, always (GetRangeFunction h)),
       (''APPEND'', False, always (AppendFunction h)), (''EXISTS'', False, always (ExistsFunction h)),
       (''STRLEN'', False, always (StrlenFunction h))])"

definition table_entries :: "(string \<times> bool \<times> handler_type) list \<Rightarrow> dictionary" where
  "table_entries = concat \<circ> map (\<lambda>(n, b, f). let c = \<lparr>command_name = n, is_write_command = b, handler = f\<rparr>
     in [(map tolower n, c), (map toupper (map tolower n), c)])"

lemma map_of_emplace: "map_of (emplace n c d) = map_of (d @ [(n, c)])"
  by (auto simp: emplace_def fun_eq_iff map_add_def split: option.splits)

lemma map_of_register:
  assumes "map_of d = map_of d'"
  shows "map_of (RegisterCommand n c d) = map_of (d' @ [(map tolower n, c), (map toupper (map tolower n), c)])"
  using assms by (simp add: RegisterCommand_def Let_def map_of_emplace)

lemma RegisterCommands_lookup: "map_of (RegisterCommands w) = map_of (table_entries (command_table w))"
proof -
  have step: "map_of (RegisterCommand n (SetHandler f (Command n)) d) = map_of (table_entries (t @ [(n, False, f)]))"
      "map_of (RegisterCommand n (SetIsWriteCommand (SetHandler f (Command n))) d) = map_of (table_entries (t @ [(n, True, f)]))"
    if "map_of d = map_of (table_entries t)" for n f d t
    using map_of_register [OF that, of n]
    by (simp_all add: table_entries_def SetHandler_def Command_def SetIsWriteCommand_def Let_def)
  have nil: "map_of ([] :: dictionary) = map_of (table_entries [])" by (simp add: table_entries_def)
  show ?thesis
    unfolding RegisterCommands_def RegisterClientCommands_def RegisterKeyCommands_def RegisterMiscCommands_def
      RegisterStringCommands_def Let_def comp_apply command_table_def
    by (rule trans [OF step(1)] trans [OF step(2)] nil | simp only: append.simps)+
qed

lemma lookup_table:
  assumes "map_of (RegisterCommands w) name = Some c"
  obtains n b f where "(n, b, f) \<in> set (command_table w)" and "is_write_command c = b" and "handler c = f"
    and "name = map tolower n \<or> name = map toupper (map tolower n)"
  using map_of_SomeD [OF assms [unfolded RegisterCommands_lookup]] by (auto simp: table_entries_def Let_def)

section \<open>Every command keeps the service well formed\<close>

text \<open>What a handler leaves alone; SHUTDOWN clears \<open>active\<close>.\<close>

definition served :: "hash_fn \<Rightarrow> dss \<Rightarrow> dss \<Rightarrow> bool" where
  "served h s s' \<longleftrightarrow> svc_inv h s' \<and> dconfig s' = dconfig s \<and> now s' = now s \<and>
     commands_processed s' = commands_processed s \<and> (active s' \<longrightarrow> active s)"

lemma kept_served: "kept h s s' \<Longrightarrow> served h s s'"
  using aux_fields [of s' s] by (simp add: kept_def served_def)

lemma svc_inv_simps [simp]:
  "svc_inv h (s\<lparr>commands_processed := n\<rparr>) \<longleftrightarrow> svc_inv h s" "svc_inv h (s\<lparr>active := b\<rparr>) \<longleftrightarrow> svc_inv h s"
  by (simp_all add: svc_inv_def tables_ok_def dat_def ext_def)

lemma Shutdown_svc: "svc_inv h s \<Longrightarrow> ShutdownFunction s args r = Some (s', r') \<Longrightarrow> served h s s'"
  by (auto simp: ShutdownFunction_def served_def Shutdown_def split: if_splits)

lemma misc_commands_served:
  fixes env :: info_env
  assumes "svc_inv h s"
  shows "served h s (fst (HelloFunction s args r))" and "served h s (fst (DbSizeFunction s args r))"
    and "served h s (fst (InfoFunction env s args r))" and "served h s (fst (CommandFunction s args r))"
  using assms
  by (simp_all add: HelloFunction_def DbSizeFunction_def InfoFunction_def CommandFunction_def
      served_def Let_def)

lemma handlers_serve:
  assumes "(n, b, f) \<in> set (command_table w)" and "svc_inv (hashing w) s" and "room (length args) s" and "args \<noteq> []"
    and "f s args r = Some (s', r')"
  shows "served (hashing w) s s'"
proof -
  have r1: "room 1 s" using assms(3,4) by (cases args) (simp_all add: room_def)
  show ?thesis
    using assms(1,5) Shutdown_svc [OF assms(2), of args r s' r'] misc_commands_served(1,2,4) [OF assms(2), where args = args and r = r]
      misc_commands_served(3) [OF assms(2), where args = args and r = r and env = "info w"]
      read_commands_kept [OF assms(2), of args r] delete_commands_kept [OF assms(2), of args r]
      GetEXFunction_kept [OF assms(2) r1, of args r] SetFunction_kept [OF assms(2) r1, of args r]
      write_commands_kept [OF assms(2,3), of r] AppendFunction_kept [OF assms(2) r1, of args r]
      SetRangeFunction_kept [OF assms(2) r1, of "sole_holder w" args r]
      SetEXFunctionBase_kept [OF assms(2) r1, of args r "IntToTimePoint 1000"]
      SetEXFunctionBase_kept [OF assms(2) r1, of args r "IntToTimePoint 1"]
      TtlFunction_kept [OF assms(2), of args r s' r']
    by (auto simp: command_table_def Let_def SetEXFunction_def PSetEXFunction_def dest!: kept_served)
qed

lemma evicted_room:
  assumes "evicted h s s' n" and "room m s"
  shows "room m s'"
proof -
  have "dom (dat s') \<subseteq> dom (dat s)" using assms(1) by (auto simp: evicted_def restrict_map_def split: if_splits)
  then have "card (dom (dat s')) \<le> card (dom (dat s))" by (rule card_mono [OF finite_dat])
  then show ?thesis using assms(2) by (simp add: room_def)
qed

lemma evicted_served: "evicted h s s' n \<Longrightarrow> served h s s'"
  by (auto simp: evicted_def served_def)

lemma served_trans: "served h s s1 \<Longrightarrow> served h s1 s2 \<Longrightarrow> served h s s2"
  by (auto simp: served_def)

lemma ensure_memory_served:
  assumes "svc_inv (hashing w) s" and "room n s" and "ensure_memory w c s = Some (ok, s1)"
  shows "served (hashing w) s s1" and "room n s1"
proof -
  consider "s1 = s" | m where "evicted (hashing w) s s1 m"
    using Evict_evicts [OF assms(1)] assms(3) by (fastforce simp: ensure_memory_def Let_def split: if_splits)
  then have "served (hashing w) s s1 \<and> room n s1"
  proof cases
    case 1
    then show ?thesis using assms(1,2) by (simp add: served_def)
  next
    case 2
    then show ?thesis using evicted_served evicted_room [OF _ assms(2)] by blast
  qed
  then show "served (hashing w) s s1" "room n s1" by simp_all
qed

text \<open>The runs of \<open>Invoke\<close>: an unknown name, a refusal for lack of memory, a command that runs.\<close>

lemma Invoke_cases:
  assumes "Invoke w s args r = Some (s', r')"
  obtains (unknown) "map_of (RegisterCommands w) (args ! 0) = None" and "s' = s" and "r' = SetError kUnknownCommand r"
  | (oom) c where "map_of (RegisterCommands w) (args ! 0) = Some c" and "ensure_memory w c s = Some (False, s')"
      and "r' = SetError kOOM r"
  | (run) c s1 s2 where "map_of (RegisterCommands w) (args ! 0) = Some c" and "ensure_memory w c s = Some (True, s1)"
      and "handler c s1 args r = Some (s2, r')" and "s' = s2\<lparr>commands_processed := commands_processed s2 + 1\<rparr>"
  using assms by (auto simp: Invoke_def split: if_splits option.splits)

lemma Invoke_served:
  assumes "svc_inv (hashing w) s" and "room (length args) s" and "Invoke w s args r = Some (s', r')"
  shows "served (hashing w) s s' \<and> (r' = SetError kUnknownCommand r \<or> r' = SetError kOOM r) \<or>
    (\<exists>s2. served (hashing w) s s2 \<and> s' = s2\<lparr>commands_processed := commands_processed s2 + 1\<rparr>)"
  using assms(3)
proof (cases rule: Invoke_cases)
  case unknown
  then show ?thesis using assms(1) by (simp add: served_def)
next
  case (oom c)
  then show ?thesis using ensure_memory_served(1) [OF assms(1,2)] by simp
next
  case (run c s1 s2)
  have a: "args \<noteq> []" using assms(3) by (auto simp: Invoke_def)
  note m = ensure_memory_served [OF assms(1,2) run(2)]
  have "served (hashing w) s1 s2"
    using lookup_table [OF run(1)] handlers_serve [OF _ _ m(2) a, of _ _ _ w r s2 r'] m(1) run(3)
    by (metis served_def)
  then show ?thesis using served_trans [OF m(1)] run(4) by blast
qed


section \<open>Names, memory and errors\<close>

definition command_names :: "string list" where
  "command_names = [''HELLO'', ''TTL'', ''DEL'', ''DBSIZE'', ''INFO'', ''COMMAND'', ''SHUTDOWN'', ''SET'', ''SETEX'', ''PSETEX'',
     ''SETNX'', ''SETRANGE'', ''MSET'', ''MSETNX'', ''GET'', ''MGET'', ''GETDEL'', ''GETEX'', ''GETSET'', ''GETRANGE'', ''SUBSTR'',
     ''APPEND'', ''EXISTS'', ''STRLEN'']"

definition write_names :: "string list" where
  "write_names = [''SET'', ''SETEX'', ''PSETEX'', ''SETNX'', ''SETRANGE'', ''MSET'', ''MSETNX'', ''DEL'']"

lemma command_table_names: "map fst (command_table w) = command_names"
  by (simp add: command_table_def command_names_def Let_def)

lemma names_case: "\<forall>n\<in>set command_names. map toupper (map tolower n) = n \<and> map toupper n = n"
  by (simp add: command_names_def)

lemma names_distinct: "distinct (concat (map (\<lambda>n. [map tolower n, map toupper (map tolower n)]) command_names))"
  by (simp add: command_names_def)

lemma write_names: "(n, b, f) \<in> set (command_table w) \<Longrightarrow> b \<longleftrightarrow> n \<in> set write_names"
  by (auto simp: command_table_def write_names_def Let_def)

lemma table_entries_names:
  "map fst (table_entries t) = concat (map (\<lambda>n. [map tolower n, map toupper (map tolower n)]) (map fst t))"
  by (induction t) (auto simp: table_entries_def Let_def)

lemma table_name: "(n, b, f) \<in> set (command_table w) \<Longrightarrow> n \<in> set command_names"
  using imageI [of "(n, b, f)" "set (command_table w)" fst] by (simp flip: command_table_names [of w])

lemma lookup_command:
  assumes "(n, b, f) \<in> set (command_table w)" and "name = n \<or> name = map tolower n"
  shows "map_of (RegisterCommands w) name = Some \<lparr>command_name = n, is_write_command = b, handler = f\<rparr>"
proof -
  have "map toupper (map tolower n) = n" using names_case table_name [OF assms(1)] by blast
  then have "(name, \<lparr>command_name = n, is_write_command = b, handler = f\<rparr>) \<in> set (table_entries (command_table w))"
    using assms(2) unfolding table_entries_def comp_apply set_concat set_map Let_def
    by (intro UN_I [OF imageI [OF assms(1)]]) auto
  moreover have "distinct (map fst (table_entries (command_table w)))"
    using names_distinct by (simp only: table_entries_names command_table_names)
  ultimately show ?thesis by (simp add: RegisterCommands_lookup)
qed

lemma lookup_unknown:
  assumes "name \<notin> set command_names" and "name \<notin> map tolower ` set command_names"
  shows "map_of (RegisterCommands w) name = None"
proof (rule ccontr)
  assume "map_of (RegisterCommands w) name \<noteq> None"
  then obtain n b f where "(n, b, f) \<in> set (command_table w)" "name = map tolower n \<or> name = map toupper (map tolower n)"
    using lookup_table by blast
  moreover from this(1) have "n \<in> set command_names" by (rule table_name)
  ultimately show False using assms names_case by auto
qed

text \<open>
  The names of the commands. A command is found under its name in lower case and in upper case,
  and is the same command; any other name, one in mixed case included, is answered with an error and
  changes nothing.
\<close>

theorem invoke_names:
  "if name \<in> set command_names \<or> name \<in> map tolower ` set command_names
   then \<exists>c. map_of (RegisterCommands w) name = Some c \<and> map_of (RegisterCommands w) (map toupper name) = Some c \<and>
     command_name c = map toupper name
   else Invoke w s (name # args) r = Some (s, SetError kUnknownCommand r)"
proof (cases "name \<in> set command_names \<or> name \<in> map tolower ` set command_names")
  case True
  then obtain n where n: "n \<in> set command_names" "name = n \<or> name = map tolower n" by auto
  then obtain b f where t: "(n, b, f) \<in> set (command_table w)"
    using command_table_names [of w] by (metis (no_types, opaque_lifting) imageE list.set_map prod.collapse)
  have "map toupper name = n" using n names_case by auto
  then show ?thesis using True lookup_command [OF t n(2)] lookup_command [OF t, of n] by simp
next
  case False
  then show ?thesis using lookup_unknown [of name w] by (auto simp: Invoke_def)
qed

text \<open>
  C34. Memory. When the memory in use is above \<open>maxmemory\<close> and the policy forbids eviction, a command
  that is registered as writing is refused and changes nothing, DEL among them. Every other command
  runs as if no memory were in use: APPEND and GETSET too, which store values.
\<close>

theorem oom_refuses_writes:
  assumes "maxmemory (dconfig s) > 0" and "allocated w > maxmemory (dconfig s)"
    and "maxmemory_policy (dconfig s) = kNoEviction" and "n \<in> set command_names" and "name = n \<or> name = map tolower n"
  shows "Invoke w s (name # args) r =
    (if n \<in> set write_names then Some (s, SetError kOOM r) else Invoke (w\<lparr>allocated := 0\<rparr>) s (name # args) r)"
proof -
  obtain b f where t: "(n, b, f) \<in> set (command_table w)"
    using assms(4) command_table_names [of w] by (metis (no_types, opaque_lifting) imageE list.set_map prod.collapse)
  moreover have same: "command_table (w\<lparr>allocated := 0\<rparr>) = command_table w" by (simp add: command_table_def)
  ultimately have l: "map_of (RegisterCommands w') name = Some \<lparr>command_name = n, is_write_command = b, handler = f\<rparr>"
    if "w' \<in> {w, w\<lparr>allocated := 0\<rparr>}" for w'
    using that lookup_command [OF _ assms(5)] by auto
  show ?thesis
    using l assms(1-3) write_names [OF t]
    by (simp add: Invoke_def ensure_memory_def MaxmemoryExceeded_def Evict_def)
qed

lemma TtlFunction_None: "TtlFunction h s args r = None \<longleftrightarrow> length args < 2"
  by (auto simp: TtlFunction_def split_def Let_def split: option.splits)

lemma ShutdownFunction_None: "ShutdownFunction s args r = None \<longleftrightarrow> length args < 2 \<and> \<not> active s"
  by (auto simp: ShutdownFunction_def Shutdown_def)

lemma handlers_return:
  assumes "(n, b, f) \<in> set (command_table w)"
  shows "f s args r = None \<longleftrightarrow> length args < 2 \<and> (n = ''TTL'' \<or> n = ''SHUTDOWN'' \<and> \<not> active s)"
  using assms TtlFunction_None [of "hashing w" s args r] ShutdownFunction_None [of s args r] by (auto simp: command_table_def Let_def)

lemma ensure_memory_returns:
  assumes "MaxmemoryExceeded (allocated w) s = 0 \<or> maxmemory_policy (dconfig s) = kNoEviction"
  obtains ok where "ensure_memory w c s = Some (ok, s)" and "is_write_command c \<or> ok"
proof (cases "is_write_command c \<and> MaxmemoryExceeded (allocated w) s \<noteq> 0")
  case True
  then show thesis using assms that [of False] by (simp add: ensure_memory_def Evict_def)
next
  case False
  then show thesis using that [of True] by (auto simp: ensure_memory_def)
qed

lemma names_lookup:
  assumes "n \<in> set command_names"
  shows "map_of (RegisterCommands w) n \<noteq> None" and "map_of (RegisterCommands w) (map tolower n) \<noteq> None"
proof -
  obtain b f where "(n, b, f) \<in> set (command_table w)"
    using assms command_table_names [of w] by (metis (no_types, opaque_lifting) imageE list.set_map prod.collapse)
  then show "map_of (RegisterCommands w) n \<noteq> None" "map_of (RegisterCommands w) (map tolower n) \<noteq> None"
    using lookup_command by blast+
qed

lemma single_name:
  assumes "name = map tolower n \<or> name = map toupper (map tolower n)" and "n \<in> set command_names" and "m \<in> set command_names"
  shows "n = m \<longleftrightarrow> name = m \<or> name = map tolower m"
proof -
  have "map toupper name = n" "name = n \<or> name = map tolower n" using assms(1,2) names_case by auto
  moreover have "map toupper m = m" "map toupper (map tolower m) = m" using assms(3) names_case by auto
  ultimately show ?thesis by auto
qed


section \<open>The properties at work\<close>

definition example_world :: world where
  "example_world =
     \<lparr>hashing = (\<lambda>_. 0),
      info = \<lparr>pid = 1, server_time_usec = 0, uptime = 0, active_clients = 1, max_input_buffer = 0, max_output_buffer = 0,
        used_memory = 0, rss = None, used_memory_peak = 0, totalram = None, connections_received = 1, net_input_bytes = 0,
        net_output_bytes = 0, rejected_connections = 0\<rparr>,
      sole_holder = True, allocated = 0, freed_bytes = [], rand_outputs = []\<rparr>"

lemma example_get: "Invoke example_world example_store [''get'', ''b''] r =
   Some (let (s', r') = GetFunction (\<lambda>_. 0) example_store [''get'', ''b''] r
         in (s'\<lparr>commands_processed := commands_processed s' + 1\<rparr>, r'))"
proof -
  have "(''GET'', False, always (GetFunction (\<lambda>_. 0))) \<in> set (command_table example_world)"
    by (simp add: command_table_def example_world_def Let_def)
  from lookup_command [OF this, of "''get''"] show ?thesis
    by (simp add: Invoke_def ensure_memory_def split_def Let_def)
qed

lemma example_get_returns:
  obtains s' r' where "Invoke example_world example_store [''get'', ''b''] r = Some (s', r')"
  by (rule that [OF example_get [unfolded Let_def split_def]])


definition full_world :: world where
  "full_world = example_world\<lparr>allocated := 2\<rparr>"

theorem oom_refuses_writes_witness:
  "Invoke full_world (example_store\<lparr>dconfig := Config_default\<lparr>maxmemory := 1, maxmemory_policy := kNoEviction\<rparr>\<rparr>)
     [''set'', ''a'', ''b''] Result_init =
   Some (example_store\<lparr>dconfig := Config_default\<lparr>maxmemory := 1, maxmemory_policy := kNoEviction\<rparr>\<rparr>, SetError kOOM Result_init)"
proof -
  have "''SET'' \<in> set command_names" "''SET'' \<in> set write_names" by (simp_all add: command_names_def write_names_def)
  then show ?thesis
    using oom_refuses_writes [of "example_store\<lparr>dconfig := Config_default\<lparr>maxmemory := 1, maxmemory_policy := kNoEviction\<rparr>\<rparr>"
        full_world "''SET''" "''set''" "[''a'', ''b'']" Result_init]
    by (simp add: full_world_def)
qed


end
