(* ===== verification/ReplyTypes.thy ===== *)
theory ReplyTypes
  imports Dispatch
begin

text \<open>
  The types of the replies. Each command has the types of result it may answer with; an error is
  always possible. A string result holds a string, so the replier never sees a null pointer where
  it expects a value, and an array result has elements.
\<close>

definition reply_types :: "string \<Rightarrow> result_type list" where
  "reply_types n =
     (case map_of
        [(''HELLO'', [TOk]), (''TTL'', [TInt]), (''DEL'', [TInt]), (''DBSIZE'', [TInt]), (''INFO'', [TString]),
         (''COMMAND'', [TString]), (''SHUTDOWN'', [TNil]), (''SET'', [TOk, TNil, TString]), (''SETEX'', [TOk]),
         (''PSETEX'', [TOk]), (''SETNX'', [TInt]), (''SETRANGE'', [TInt]), (''MSET'', [TOk]), (''MSETNX'', [TInt]),
         (''GET'', [TNil, TString]), (''MGET'', [TStrings]), (''GETDEL'', [TNil, TString]), (''GETEX'', [TNil, TString]),
         (''GETSET'', [TNil, TString]), (''GETRANGE'', [TString]), (''SUBSTR'', [TString]), (''APPEND'', [TInt]),
         (''EXISTS'', [TInt]), (''STRLEN'', [TInt])] n of
        None \<Rightarrow> []
      | Some ts \<Rightarrow> ts)"

definition well_typed :: "result_type list \<Rightarrow> result \<Rightarrow> bool" where
  "well_typed ts r \<longleftrightarrow> (rtype r = TError \<or> rtype r \<in> set ts) \<and> (rtype r = TString \<longrightarrow> string_ptr r \<noteq> None) \<and>
     (rtype r = TStrings \<longrightarrow> rstrings r \<noteq> [])"

lemma well_typed_simps [simp]:
  "well_typed ts (SetError e r)" "well_typed ts (SetInt i r) \<longleftrightarrow> TInt \<in> set ts"
  "well_typed ts (SetNil r) \<longleftrightarrow> TNil \<in> set ts" "well_typed ts (SetOk r) \<longleftrightarrow> TOk \<in> set ts"
  "well_typed ts (SetString v r) \<longleftrightarrow> TString \<in> set ts \<and> v \<noteq> None"
  "rtype r = TError \<Longrightarrow> well_typed ts r" "rtype r = TOk \<Longrightarrow> well_typed ts r \<longleftrightarrow> TOk \<in> set ts"
  "well_typed ts (value_reply x r) \<longleftrightarrow> (case x of None \<Rightarrow> TNil \<in> set ts | Some _ \<Rightarrow> TString \<in> set ts)"
  by (auto simp: well_typed_def SetError_def SetInt_def SetNil_def SetOk_def SetString_def value_reply_def
      split: option.split)

section \<open>Options\<close>

text \<open>Parsing options leaves the result alone or makes it an error.\<close>

lemma ExtractExpireOptions_result:
  assumes "ExtractExpireOptions args i t r et = (x, i', r', et')"
  shows "if x = ExtractError then rtype r' = TError else r' = r"
  using assms by (auto simp: ExtractExpireOptions_def SetError_def split: option.splits if_splits)

lemma ExtractSetOptions_result:
  "ExtractSetOptions args i t r opts = (valid, r1, opts') \<Longrightarrow> if valid then r1 = r else rtype r1 = TError"
proof (induction args i t r opts rule: ExtractSetOptions.induct)
  case (1 args i t r opts)
  obtain x i' r' et where e: "ExtractExpireOptions args i t r (expire_time opts) = (x, i', r', et)"
    by (metis prod_cases4)
  note er = ExtractExpireOptions_result [OF e]
  show ?case
    using "1.prems" [unfolded ExtractSetOptions.simps [of args i t r opts]] "1.IH" e er
    by (auto simp: SetError_def split: if_splits ExtractExpireResult.splits)
qed

lemma getex_options_result:
  "case getex_options args i t r persist tp of Inl r1 \<Rightarrow> rtype r1 = TError | Inr (r1, _) \<Rightarrow> r1 = r"
proof (induction args i t r persist tp rule: getex_options.induct)
  case (1 args i t r persist tp)
  obtain x i' r' et where e: "ExtractExpireOptions args i t r tp = (x, i', r', et)"
    by (metis prod_cases4)
  show ?case
    using "1.IH" e ExtractExpireOptions_result [OF e]
    by (subst getex_options.simps)
      (auto simp: SetError_def split: ExtractExpireResult.splits)
qed

section \<open>The handlers\<close>

lemma SetFunction_typed: "well_typed [TOk, TNil, TString] (snd (SetFunction h s args r))"
proof -
  obtain valid r1 opts where x: "(if length args > 3 then ExtractSetOptions (drop 3 args) 0 (GetCommandTimeSnapshot s) r set_options_init
      else (True, r, set_options_init)) = (valid, r1, opts)" by (metis prod_cases3)
  then have "\<not> valid \<Longrightarrow> rtype r1 = TError"
    using ExtractSetOptions_result [of "drop 3 args" 0 _ r set_options_init valid r1 opts] by (auto split: if_splits)
  then show ?thesis
    by (simp add: SetFunction_def x split_def Let_def split: option.split)
qed

lemma read_commands_typed:
  assumes "svc_inv h s"
  shows "well_typed [TNil, TString] (snd (GetFunction h s args r))" and "well_typed [TInt] (snd (StrlenFunction h s args r))"
    and "well_typed [TString] (snd (GetRangeFunction h s args r))" and "well_typed [TInt] (snd (ExistsFunction h s args r))"
    and "well_typed [TNil, TString] (snd (GetDelFunction h s args r))"
    and "well_typed [TNil, TString] (snd (GetEXFunction h s args r))"
proof -
  have g: "snd (snd (GetFunctionBase h s k r1)) = value_reply (live s k) r1" for k r1
    by (rule GetFunctionBase_svc(4) [OF assms])
  note f = FindOrExpire_svc(3) [OF assms, of "args ! 1"]
  show "well_typed [TNil, TString] (snd (GetFunction h s args r))" "well_typed [TNil, TString] (snd (GetDelFunction h s args r))"
    by (simp_all add: GetFunction_def GetDelFunction_def GetFunctionBaseWithCallback_def split_def Let_def g split: option.split)
  show "well_typed [TNil, TString] (snd (GetEXFunction h s args r))"
    using getex_options_result [where args = args and i = 2 and t = "GetCommandTimeSnapshot s" and r = r and persist = False and tp = None]
    by (auto simp: GetEXFunction_def GetFunctionBaseWithCallback_def split_def Let_def g split: option.split sum.splits)
  show "well_typed [TInt] (snd (StrlenFunction h s args r))" "well_typed [TString] (snd (GetRangeFunction h s args r))"
    "well_typed [TInt] (snd (ExistsFunction h s args r))"
    using f by (auto simp: StrlenFunction_def GetRangeFunction_def ExistsFunction_def split_def Let_def split: option.split)
qed

lemma MGetFunction_typed:
  assumes "svc_inv h s"
  shows "well_typed [TStrings] (snd (MGetFunction h s args r))"
proof (cases "length args < 2")
  case False
  let ?found = "fst (visit_keys (FindOrExpire h) touch (drop 1 args) s)"
  have "length ?found = length (drop 1 args)" using svc.visit_mark [OF assms, of "drop 1 args"] by simp
  then have "?found \<noteq> []" using False by (cases ?found) auto
  then show ?thesis
    using False fold_AddString [of ?found "\<lambda>entry. case entry of None \<Rightarrow> None | Some v \<Rightarrow> v" r]
    by (simp add: MGetFunction_def split_def Let_def well_typed_def)
qed (simp add: MGetFunction_def)

lemma write_commands_typed:
  assumes "rtype r = TOk"
  shows "well_typed [TOk] (snd (SetEXFunctionBase h s args r f))" and "well_typed [TOk] (snd (MSetFunction h s args r))"
    and "well_typed [TInt] (snd (MSetNXFunction h s args r))" and "well_typed [TInt] (snd (SetNXFunction h s args r))"
    and "well_typed [TNil, TString] (snd (GetSetFunction h s args r))" and "well_typed [TInt] (snd (AppendFunction h s args r))"
    and "well_typed [TInt] (snd (SetRangeFunction h u s args r))" and "well_typed [TInt] (snd (DelFunction h s args r))"
  using assms
  by (auto simp: SetEXFunctionBase_def MSetFunction_def MSetNXFunction_def SetNXFunction_def GetSetFunction_def
      AppendFunction_def SetRangeFunction_def DelFunction_def split_def Let_def split: option.split)

lemma misc_commands_typed:
  shows "well_typed [TOk] (snd (HelloFunction s args r))" and "well_typed [TInt] (snd (DbSizeFunction s args r))"
    and "well_typed [TString] (snd (InfoFunction env s args r))" and "well_typed [TString] (snd (CommandFunction s args r))"
    and "ShutdownFunction s args r = Some (s', r') \<Longrightarrow> well_typed [TNil] r'"
    and "TtlFunction h s args r = Some (s', r') \<Longrightarrow> well_typed [TInt] r'"
  by (auto simp: HelloFunction_def DbSizeFunction_def InfoFunction_def CommandFunction_def ShutdownFunction_def
      TtlFunction_def split_def Let_def split: option.splits if_splits)

lemma reply_types_simps:
  "reply_types ''HELLO'' = [TOk]" "reply_types ''TTL'' = [TInt]" "reply_types ''DEL'' = [TInt]"
  "reply_types ''DBSIZE'' = [TInt]" "reply_types ''INFO'' = [TString]" "reply_types ''COMMAND'' = [TString]"
  "reply_types ''SHUTDOWN'' = [TNil]" "reply_types ''SET'' = [TOk, TNil, TString]" "reply_types ''SETEX'' = [TOk]"
  "reply_types ''PSETEX'' = [TOk]" "reply_types ''SETNX'' = [TInt]" "reply_types ''SETRANGE'' = [TInt]"
  "reply_types ''MSET'' = [TOk]" "reply_types ''MSETNX'' = [TInt]" "reply_types ''GET'' = [TNil, TString]"
  "reply_types ''MGET'' = [TStrings]" "reply_types ''GETDEL'' = [TNil, TString]" "reply_types ''GETEX'' = [TNil, TString]"
  "reply_types ''GETSET'' = [TNil, TString]" "reply_types ''GETRANGE'' = [TString]" "reply_types ''SUBSTR'' = [TString]"
  "reply_types ''APPEND'' = [TInt]" "reply_types ''EXISTS'' = [TInt]" "reply_types ''STRLEN'' = [TInt]"
  by (simp_all add: reply_types_def)

lemma returned_typed: "well_typed ts (snd x) \<Longrightarrow> \<forall>s' r'. Some x = Some (s', r') \<longrightarrow> well_typed ts r'"
  by auto

lemma handlers_typed:
  assumes "(n, b, f) \<in> set (command_table w)" and "svc_inv (hashing w) s" and "rtype r = TOk"
    and "f s args r = Some (s', r')"
  shows "well_typed (reply_types n) r'"
proof -
  note typed = read_commands_typed [OF assms(2)] MGetFunction_typed [OF assms(2)] write_commands_typed [OF assms(3)]
    SetFunction_typed misc_commands_typed(1-4)
  have "list_all (\<lambda>(n, b, f). \<forall>s' r'. f s args r = Some (s', r') \<longrightarrow> well_typed (reply_types n) r') (command_table w)"
    unfolding command_table_def Let_def SetEXFunction_def PSetEXFunction_def list.pred_inject prod.case reply_types_simps
    by (intro conjI TrueI returned_typed typed) ((blast intro: misc_commands_typed(5,6))+, simp)
  then show ?thesis using assms(1,4) by (auto simp: list_all_iff)
qed

text \<open>
  C33. Every reply is of a type of its command. On a fresh result, a command answers with an error or
  with a result of one of its types; a string result is never the null pointer, and an array result
  is not empty. An unknown command and a refusal for lack of memory are errors.
\<close>

theorem reply_well_typed:
  assumes "svc_inv (hashing w) s" and "room (length args) s" and "rtype r = TOk" and "Invoke w s args r = Some (s', r')"
  shows "well_typed (reply_types (map toupper (args ! 0))) r'"
  using assms(4)
proof (cases rule: Invoke_cases)
  case (run c s1 s2)
  obtain n b f where t: "(n, b, f) \<in> set (command_table w)" "handler c = f"
      "args ! 0 = map tolower n \<or> args ! 0 = map toupper (map tolower n)"
    using lookup_table [OF run(1)] by metis
  have "svc_inv (hashing w) s1" using ensure_memory_served(1) [OF assms(1,2) run(2)] by (simp add: served_def)
  moreover have "map toupper (args ! 0) = n" using t(3) names_case table_name [OF t(1)] by auto
  ultimately show ?thesis using handlers_typed [OF t(1) _ assms(3)] run(3) t(2) by auto
qed simp_all

theorem reply_well_typed_witness:
  "\<exists>s' r'. Invoke example_world example_store [''get'', ''b''] Result_init = Some (s', r') \<and> well_typed [TNil, TString] r'"
proof -
  have "svc_inv (hashing example_world) example_store" using example_store(1) by (simp add: example_world_def)
  moreover obtain s' r' where "Invoke example_world example_store [''get'', ''b''] Result_init = Some (s', r')"
    by (rule example_get_returns)
  ultimately show ?thesis
    using reply_well_typed [OF _ example_room, of example_world "[''get'', ''b'']" Result_init s' r']
    by (simp add: Result_init_def reply_types_simps)
qed

end
