(* ===== verification/ServiceRuns.thy ===== *)
theory ServiceRuns
  imports ReplyTypes
begin

text \<open>
  The service over time. Commands and the background loop \<open>DataStructureService::Cron\<close> run on one
  executor and give way to each other only between commands and between iterations of the loop, so
  the service is a machine whose steps are whole commands and whole iterations, in any order.
\<close>

section \<open>The background loop\<close>

text \<open>
  What an iteration reads: the clock for the command time and for the expirer, the steady clock, the
  time of the last access, and how many rounds of rehashing each table gets.
\<close>

record tick =
  clock_now :: int
  lru_now :: "32 word"
  expire_now :: int
  steady_elapsed :: "nat \<Rightarrow> int"
  data_rounds :: nat
  expire_rounds :: nat

text \<open>An iteration of \<open>Cron\<close> on the state and the counter \<open>cnt\<close>. \<open>None\<close> is a division by zero.\<close>

definition Cron_iteration :: "hash_fn \<Rightarrow> tick \<Rightarrow> dss \<times> nat \<Rightarrow> (dss \<times> nat) option" where
  "Cron_iteration h e = (\<lambda>(s, cnt).
     if hz (dconfig s) = 0 then None
     else
       (let interval_in_millisecond = 1000 div hz (dconfig s);
            s1 = UpdateCommandTime (clock_now e) s
        in if cnt + 1 < interval_in_millisecond then Some (s1, cnt + 1)
           else map_option (\<lambda>s2. (IncrementalRehashing h (data_rounds e) (expire_rounds e) s2, 0))
                  (ActiveExpire h (expire_now e) (steady_elapsed e) (RefreshLRUClock (lru_now e) s1))))"

text \<open>The machine. A command needs room for the keys it may create.\<close>

inductive service_step :: "hash_fn \<Rightarrow> dss \<times> nat \<Rightarrow> dss \<times> nat \<Rightarrow> bool" for h where
  command_step: "hashing w = h \<Longrightarrow> room (length args) s \<Longrightarrow> Invoke w s args r = Some (s', r') \<Longrightarrow>
     service_step h (s, cnt) (s', cnt)"
| cron_step: "active s \<Longrightarrow> Cron_iteration h e (s, cnt) = Some x \<Longrightarrow> service_step h (s, cnt) x"

inductive service_run :: "hash_fn \<Rightarrow> config \<Rightarrow> dss \<times> nat \<Rightarrow> bool" for h cfg where
  run_start: "service_run h cfg (DataStructureService_init cfg t, 0)"
| run_step: "service_run h cfg x \<Longrightarrow> service_step h x y \<Longrightarrow> service_run h cfg y"

section \<open>An iteration\<close>

lemma clocks_svc:
  assumes "svc_inv h s"
  shows "svc_inv h (RefreshLRUClock l (UpdateCommandTime t s))"
  using assms by (simp add: svc_inv_def tables_ok_def RefreshLRUClock_def UpdateCommandTime_def dat_def ext_def)

lemma clocks_tables:
  "dat (RefreshLRUClock l (UpdateCommandTime t s)) = dat s" "ext (RefreshLRUClock l (UpdateCommandTime t s)) = ext s"
  "dconfig (RefreshLRUClock l (UpdateCommandTime t s)) = dconfig s"
  "now (RefreshLRUClock l (UpdateCommandTime t s)) = t"
  "active (RefreshLRUClock l (UpdateCommandTime t s)) = active s"
  by (simp_all add: RefreshLRUClock_def UpdateCommandTime_def dat_def ext_def)

lemma Cron_iteration_run:
  assumes "svc_inv h s" and "hz (dconfig s) > 0"
  obtains s' K where
    "Cron_iteration h e (s, cnt) = Some (s', if cnt + 1 < 1000 div hz (dconfig s) then cnt + 1 else 0)"
    "svc_inv h s'" "dconfig s' = dconfig s" "now s' = clock_now e" "active s' = active s"
    "K \<subseteq> {k. \<exists>tp. ext s k = Some tp \<and> tp \<le> expire_now e}" "dat s' = dat s |` (- K)" "ext s' = ext s |` (- K)"
proof (cases "cnt + 1 < 1000 div hz (dconfig s)")
  case True
  have "svc_inv h (UpdateCommandTime (clock_now e) s)"
    using assms(1) by (simp add: svc_inv_def tables_ok_def UpdateCommandTime_def dat_def ext_def)
  moreover have "Cron_iteration h e (s, cnt) = Some (UpdateCommandTime (clock_now e) s, cnt + 1)"
    using True assms(2) by (simp add: Cron_iteration_def)
  ultimately show thesis
    using True by (intro that [of "UpdateCommandTime (clock_now e) s" "{}"])
      (simp_all add: UpdateCommandTime_def dat_def ext_def restrict_map_def)
next
  case False
  define s1 where "s1 = RefreshLRUClock (lru_now e) (UpdateCommandTime (clock_now e) s)"
  have i1: "svc_inv h s1" using clocks_svc [OF assms(1)] by (simp add: s1_def)
  have t1: "dat s1 = dat s" "ext s1 = ext s" "dconfig s1 = dconfig s" "now s1 = clock_now e" "active s1 = active s"
    by (simp_all add: s1_def clocks_tables)
  obtain s0 n where a: "ActiveExpire h (expire_now e) (steady_elapsed e) s1 =
      Some (s0\<lparr>active_expired_keys := active_expired_keys s0 + of_nat n\<rparr>)"
    and p: "purged h (expire_now e) s1 s0 n"
    using ActiveExpire_run [OF i1] assms(2) t1(3) by metis
  let ?s2 = "s0\<lparr>active_expired_keys := active_expired_keys s0 + of_nat n\<rparr>"
  have same: "dat ?s2 = dat s0" "ext ?s2 = ext s0" by (simp_all add: dat_def ext_def)
  have i2: "svc_inv h ?s2" using p same by (simp add: purged_def svc_inv_def tables_ok_def)
  define s3 where "s3 = IncrementalRehashing h (data_rounds e) (expire_rounds e) ?s2"
  have ef: "effect h ?s2 s3 (dat ?s2) (ext ?s2)"
    using IncrementalRehashing_effect [OF svc_invD(1) [OF i2]] by (simp add: s3_def)
  note d = effectD [OF ef] aux_fields [OF effectD(4) [OF ef]]
  obtain K where K: "K \<subseteq> stale (expire_now e) s1" "dat s0 = dat s1 |` (- K)" "ext s0 = ext s1 |` (- K)"
    "dconfig s0 = dconfig s1" "now s0 = now s1" "active s0 = active s1"
    using p by (auto simp: purged_def)
  show thesis
  proof (rule that [of s3 K])
    show "Cron_iteration h e (s, cnt) = Some (s3, if cnt + 1 < 1000 div hz (dconfig s) then cnt + 1 else 0)"
      using False assms(2) a by (simp add: Cron_iteration_def s1_def s3_def)
    show "svc_inv h s3" using i2 d by (simp add: svc_inv_def)
    show "K \<subseteq> {k. \<exists>tp. ext s k = Some tp \<and> tp \<le> expire_now e}" using K(1) t1 by (simp add: stale_def)
  qed (use d K t1 same in simp_all)
qed

text \<open>Removing keys that have expired changes nothing of what is visible.\<close>

lemma view_of_restrict:
  assumes "K \<subseteq> {k. \<exists>tp. e k = Some tp \<and> tp \<le> t}"
  shows "view_of t (d |` (- K)) (e |` (- K)) = view_of t d e"
proof
  fix k
  show "view_of t (d |` (- K)) (e |` (- K)) k = view_of t d e k"
  proof (cases "k \<in> K")
    case True
    then obtain tp where "e k = Some tp" "tp \<le> t" using assms by auto
    then show ?thesis using True by (auto simp: view_of_def visible_def split: option.split)
  qed (simp add: view_of_def cong: option.case_cong)
qed

section \<open>All runs\<close>

inductive_cases service_stepE: "service_step h (s, cnt) (s', cnt')"

definition run_inv :: "hash_fn \<Rightarrow> config \<Rightarrow> dss \<times> nat \<Rightarrow> bool" where
  "run_inv h cfg = (\<lambda>(s, cnt). svc_inv h s \<and> dconfig s = cfg \<and> (cnt = 0 \<or> cnt < 1000 div hz cfg))"

lemma service_step_inv:
  assumes "service_step h x y" and "run_inv h cfg x"
  shows "run_inv h cfg y"
  using assms
proof (induction rule: service_step.induct)
  case (command_step w args s r s' r' cnt)
  have a: "args \<noteq> []" using command_step(3) by (auto simp: Invoke_def)
  have "served h s s' \<or> (\<exists>s2. served h s s2 \<and> s' = s2\<lparr>commands_processed := commands_processed s2 + 1\<rparr>)"
    using Invoke_served [of w s args r s' r'] command_step by (auto simp: run_inv_def)
  then show ?case using command_step(4) by (auto simp: run_inv_def served_def)
next
  case (cron_step s e cnt x)
  then have i: "svc_inv h s" "dconfig s = cfg" by (simp_all add: run_inv_def)
  have "hz (dconfig s) > 0" using cron_step(2) by (auto simp: Cron_iteration_def split: if_splits)
  from i(1) this obtain s' K where "Cron_iteration h e (s, cnt) = Some (s', if cnt + 1 < 1000 div hz (dconfig s) then cnt + 1 else 0)"
      "svc_inv h s'" "dconfig s' = dconfig s" "now s' = clock_now e" "active s' = active s"
      "K \<subseteq> {k. \<exists>tp. ext s k = Some tp \<and> tp \<le> expire_now e}" "dat s' = dat s |` (- K)" "ext s' = ext s |` (- K)"
    by (rule Cron_iteration_run)
  then show ?case using cron_step(2) i(2) by (auto simp: run_inv_def split: if_splits)
qed

lemma service_run_inv: "service_run h cfg x \<Longrightarrow> run_inv h cfg x"
proof (induction rule: service_run.induct)
  case (run_start t)
  then show ?case by (simp add: run_inv_def init_svc) (simp add: DataStructureService_init_def)
qed (rule service_step_inv)



section \<open>The properties at work\<close>

definition example_tick :: tick where
  "example_tick = \<lparr>clock_now = 5, lru_now = 0, expire_now = 6, steady_elapsed = (\<lambda>_. 0), data_rounds = 1, expire_rounds = 1\<rparr>"

abbreviation example_start :: "dss \<times> nat" where
  "example_start \<equiv> (DataStructureService_init Config_default 0, 0)"

lemma example_run: "\<exists>s cnt. service_run (\<lambda>_. 0) Config_default (s, cnt) \<and> now s = 5"
proof -
  define h :: hash_fn where "h = (\<lambda>_. 0)"
  define s where "s = DataStructureService_init Config_default 0"
  have i: "svc_inv h s" "hz (dconfig s) > 0" "active s"
    by (simp_all add: s_def init_svc) (simp_all add: DataStructureService_init_def Config_default_def)
  obtain s' c where c: "Cron_iteration h example_tick (s, 0) = Some (s', c)" "now s' = clock_now example_tick"
    by (rule Cron_iteration_run [OF i(1,2), where e = example_tick and cnt = 0])
  have "service_run h Config_default (s', c)"
    by (rule run_step [OF run_start cron_step [OF i(3) c(1), unfolded s_def]])
  then show ?thesis using c(2) by (auto simp: example_tick_def h_def)
qed



end
