(* ===== verification/AtomicMax.thy ===== *)
theory AtomicMax
  imports Prelude
begin

text \<open>
  The lock-free maximum. \<open>MemoryTracker::Allocate\<close> (\<open>src/src/base/memory.h\<close>) and the two
  \<open>ClientStats::Update\<close> functions (\<open>src/src/client_manager.cc\<close>) raise a shared counter to a new
  value by a loop around \<open>compare_exchange_weak\<close>. Here the loops of any number of threads
  interleave, one atomic access at a time; a weak exchange may also fail without a reason.
\<close>

section \<open>The loop\<close>

text \<open>Where a thread is, with the value of its local variable \<open>cur\<close>.\<close>

datatype max_pc = Loading | Testing nat | Exchanging nat | Finished

record max_state =
  shared :: nat
  pcs :: "nat \<Rightarrow> max_pc"

text \<open>Thread \<open>i\<close> calls the function with the value \<open>x i\<close>.\<close>

inductive max_step :: "(nat \<Rightarrow> nat) \<Rightarrow> max_state \<Rightarrow> max_state \<Rightarrow> bool" for x where
  load: "pcs s i = Loading \<Longrightarrow> max_step x s (s\<lparr>pcs := (pcs s)(i := Testing (shared s))\<rparr>)"
| leave: "pcs s i = Testing cur \<Longrightarrow> \<not> x i > cur \<Longrightarrow> max_step x s (s\<lparr>pcs := (pcs s)(i := Finished)\<rparr>)"
| enter: "pcs s i = Testing cur \<Longrightarrow> x i > cur \<Longrightarrow> max_step x s (s\<lparr>pcs := (pcs s)(i := Exchanging cur)\<rparr>)"
| exchange: "pcs s i = Exchanging cur \<Longrightarrow> shared s = cur \<Longrightarrow>
     max_step x s (s\<lparr>shared := x i, pcs := (pcs s)(i := Finished)\<rparr>)"
| fail: "pcs s i = Exchanging cur \<Longrightarrow> max_step x s (s\<lparr>pcs := (pcs s)(i := Testing (shared s))\<rparr>)"

definition max_start :: "nat \<Rightarrow> max_state" where
  "max_start v = \<lparr>shared = v, pcs = (\<lambda>_. Loading)\<rparr>"

inductive max_run :: "(nat \<Rightarrow> nat) \<Rightarrow> nat \<Rightarrow> max_state \<Rightarrow> bool" for x v where
  max_run_start: "max_run x v (max_start v)"
| max_run_step: "max_run x v s \<Longrightarrow> max_step x s t \<Longrightarrow> max_run x v t"

section \<open>Correctness\<close>

text \<open>
  The shared value is the start value or the value of a finished thread, and it is at least the
  start value, the value of every finished thread and every value that a thread has read.
\<close>

fun pc_ok :: "nat \<Rightarrow> nat \<Rightarrow> max_pc \<Rightarrow> bool" where
  "pc_ok v y Loading \<longleftrightarrow> True"
| "pc_ok v y (Testing cur) \<longleftrightarrow> cur \<le> v"
| "pc_ok v y (Exchanging cur) \<longleftrightarrow> cur \<le> v \<and> cur < y"
| "pc_ok v y Finished \<longleftrightarrow> y \<le> v"

definition max_inv :: "(nat \<Rightarrow> nat) \<Rightarrow> nat \<Rightarrow> max_state \<Rightarrow> bool" where
  "max_inv x v s \<longleftrightarrow> v \<le> shared s \<and> (shared s = v \<or> (\<exists>i. pcs s i = Finished \<and> shared s = x i)) \<and>
     (\<forall>i. pc_ok (shared s) (x i) (pcs s i))"

lemma pc_ok_mono: "v \<le> w \<Longrightarrow> pc_ok v y p \<Longrightarrow> pc_ok w y p"
  by (cases p) auto

lemma max_inv_move:
  assumes "max_inv x v s" and "pcs s i \<noteq> Finished" and "pc_ok (shared s) (x i) p"
  shows "max_inv x v (s\<lparr>pcs := (pcs s)(i := p)\<rparr>)"
proof -
  have ex: "shared s = v \<or> (\<exists>j. ((pcs s)(i := p)) j = Finished \<and> shared s = x j)"
    using assms(1,2) unfolding max_inv_def by (metis fun_upd_other)
  have ok: "pc_ok (shared s) (x j) (((pcs s)(i := p)) j)" for j
    using assms(1,3) by (simp add: max_inv_def)
  have "v \<le> shared s" using assms(1) by (simp add: max_inv_def)
  then show ?thesis unfolding max_inv_def using ex ok by simp
qed

lemma max_step_inv:
  assumes "max_step x s t" and "max_inv x v s"
  shows "max_inv x v t"
  using assms
proof (induction rule: max_step.induct)
  case (load s i)
  then show ?case by (intro max_inv_move) auto
next
  case (leave s i cur)
  then have "pc_ok (shared s) (x i) (Testing cur)" by (metis max_inv_def)
  then show ?case using leave by (intro max_inv_move) auto
next
  case (enter s i cur)
  then have "pc_ok (shared s) (x i) (Testing cur)" by (metis max_inv_def)
  then show ?case using enter by (intro max_inv_move) auto
next
  case (exchange s i cur)
  have ok: "pc_ok (shared s) (x j) (pcs s j)" for j using exchange.prems by (simp add: max_inv_def)
  have lt: "shared s < x i" using ok [of i] exchange.hyps by simp
  have "pc_ok (x i) (x j) (pcs s j)" for j using pc_ok_mono [OF less_imp_le [OF lt] ok] .
  then show ?case using lt exchange.prems by (auto simp: max_inv_def)
next
  case (fail s i cur)
  then show ?case by (intro max_inv_move) auto
qed

text \<open>Only finitely many threads have returned.\<close>

lemma finite_Finished: "max_step x s t \<Longrightarrow> finite {i. pcs s i = Finished} \<Longrightarrow> finite {i. pcs t i = Finished}"
proof (induction rule: max_step.induct)
  case (leave s i cur)
  then show ?case by (auto intro: finite_subset [of _ "insert i {i. pcs s i = Finished}"])
next
  case (exchange s i cur)
  then show ?case by (auto intro: finite_subset [of _ "insert i {i. pcs s i = Finished}"])
qed (auto intro: finite_subset [of _ "{i. pcs s i = Finished}" for s] elim!: rev_finite_subset split: if_splits)

lemma max_run_inv:
  assumes "max_run x v s"
  shows "max_inv x v s" and "finite {i. pcs s i = Finished}"
  using assms
proof (induction rule: max_run.induct)
  case max_run_start
  show "max_inv x v (max_start v)" "finite {i. pcs (max_start v) i = Finished}"
    by (simp_all add: max_inv_def max_start_def)
qed (use max_step_inv finite_Finished in blast)+

text \<open>
  C11. The lock-free maximum under every interleaving. In every state, the shared value is the maximum
  of the start value and the values of all calls that have returned: no update is lost, and nothing
  else is ever stored.
\<close>

theorem atomic_max_correct:
  assumes "max_run x v s"
  shows "shared s = Max (insert v (x ` {i. pcs s i = Finished}))"
proof -
  have i: "v \<le> shared s" "shared s = v \<or> (\<exists>i. pcs s i = Finished \<and> shared s = x i)" "\<And>i. pc_ok (shared s) (x i) (pcs s i)"
    using max_run_inv(1) [OF assms] by (simp_all add: max_inv_def)
  have "shared s \<in> insert v (x ` {i. pcs s i = Finished})" using i(2) by auto
  moreover have "x i \<le> shared s" if "pcs s i = Finished" for i using i(3) [of i] that by simp
  ultimately show ?thesis using i(1) max_run_inv(2) [OF assms] by (intro Max_eqI [symmetric]) auto
qed

text \<open>Two threads that both read the start value: the exchange of the first makes the second fail.\<close>

definition two_values :: "nat \<Rightarrow> nat" where
  "two_values i = (if i = 0 then 7 else 5)"

definition two_threads :: "nat \<Rightarrow> max_pc \<Rightarrow> max_pc \<Rightarrow> max_state" where
  "two_threads v p q = \<lparr>shared = v, pcs = (\<lambda>i. if i = 0 then p else if i = 1 then q else Loading)\<rparr>"

lemma two_threads_step:
  "max_run x v s \<Longrightarrow> max_step x s t' \<Longrightarrow> t' = t \<Longrightarrow> max_run x v t"
  by (blast intro: max_run_step)

lemma two_threads_race: "max_run two_values 3 (two_threads 7 Finished Finished)"
proof -
  note defs = two_threads_def two_values_def max_start_def fun_eq_iff
  have "max_run two_values 3 (two_threads 3 Loading Loading)"
    using max_run_start [of two_values 3] by (simp add: defs cong: if_cong)
  then have "max_run two_values 3 (two_threads 3 (Testing 3) Loading)"
    by (rule two_threads_step [OF _ load [of _ 0]]) (auto simp: defs)
  then have "max_run two_values 3 (two_threads 3 (Testing 3) (Testing 3))"
    by (rule two_threads_step [OF _ load [of _ 1]]) (auto simp: defs)
  then have "max_run two_values 3 (two_threads 3 (Exchanging 3) (Testing 3))"
    by (rule two_threads_step [OF _ enter [of _ 0]]) (auto simp: defs)
  then have "max_run two_values 3 (two_threads 3 (Exchanging 3) (Exchanging 3))"
    by (rule two_threads_step [OF _ enter [of _ 1]]) (auto simp: defs)
  then have "max_run two_values 3 (two_threads 7 Finished (Exchanging 3))"
    by (rule two_threads_step [OF _ exchange [of _ 0]]) (auto simp: defs)
  then have "max_run two_values 3 (two_threads 7 Finished (Testing 7))"
    by (rule two_threads_step [OF _ fail [of _ 1]]) (auto simp: defs)
  then show ?thesis
    by (rule two_threads_step [OF _ leave [of _ 1]]) (auto simp: defs)
qed

theorem atomic_max_correct_witness:
  "max_run two_values 3 (two_threads 7 Finished Finished)
   \<and> shared (two_threads 7 Finished Finished) = Max (insert 3 (two_values ` {i. pcs (two_threads 7 Finished Finished) i = Finished}))"
  using atomic_max_correct [OF two_threads_race] two_threads_race by simp

end
