(* ===== verification/ClientManager.thy ===== *)
theory ClientManager
  imports AtomicMax
begin

text \<open>
  The registry of connected clients: \<open>src/src/client_manager.h\<close> and \<open>client_manager.cc\<close>. A client
  is known by the file descriptor of its connection, which fixes its slot in the vector of
  clients. A failed \<open>assert\<close> or an access outside the vector is \<open>None\<close>. The 64-bit counters of the
  statistics are natural numbers; the loops that raise a maximum are treated in \<open>AtomicMax\<close>.
\<close>

section \<open>State and operations\<close>

record client_stats =
  smax_input_buffer :: nat
  smax_output_buffer :: nat
  snet_input_bytes :: nat
  snet_output_bytes :: nat

record client_manager =
  clients :: "int option list"
  mactive_clients :: nat
  mstats :: client_stats

definition ClientManager_init :: client_manager where
  "ClientManager_init = \<lparr>clients = [], mactive_clients = 0,
     mstats = \<lparr>smax_input_buffer = 0, smax_output_buffer = 0, snet_input_bytes = 0, snet_output_bytes = 0\<rparr>\<rparr>"

definition UpdateInputBufferSize :: "nat \<Rightarrow> client_stats \<Rightarrow> client_stats" where
  "UpdateInputBufferSize n st = (if n > smax_input_buffer st then st\<lparr>smax_input_buffer := n\<rparr> else st)"

definition UpdateOutputBufferSize :: "nat \<Rightarrow> client_stats \<Rightarrow> client_stats" where
  "UpdateOutputBufferSize n st = (if n > smax_output_buffer st then st\<lparr>smax_output_buffer := n\<rparr> else st)"

text \<open>The slot of a connection, with the subtraction in \<open>size_t\<close>.\<close>

definition ConnectionToIndex :: "int \<Rightarrow> nat" where
  "ConnectionToIndex fd = nat ((fd - 1) mod 2 ^ 64)"

definition vector_resize :: "nat \<Rightarrow> 'a option list \<Rightarrow> 'a option list" where
  "vector_resize n xs = take n xs @ replicate (n - length xs) None"

definition AddClient :: "int \<Rightarrow> client_manager \<Rightarrow> client_manager option" where
  "AddClient fd m =
     (let index = ConnectionToIndex fd;
          cs = (if index \<ge> length (clients m) then vector_resize (2 * index mod 2 ^ 64) (clients m) else clients m)
      in if \<not> index < length cs \<or> cs ! index \<noteq> None then None
         else Some (m\<lparr>clients := cs[index := Some fd], mactive_clients := mactive_clients m + 1\<rparr>))"

definition RemoveClient :: "int \<Rightarrow> client_manager \<Rightarrow> client_manager option" where
  "RemoveClient fd m =
     (let index = ConnectionToIndex fd
      in if \<not> (length (clients m) > index \<and> clients m ! index \<noteq> None) then None
         else Some (m\<lparr>clients := (clients m)[index := None], mactive_clients := mactive_clients m - 1\<rparr>))"

section \<open>The registry as a set of descriptors\<close>

text \<open>Descriptors of connections: positive 32-bit integers. Descriptor 1 has slot 0.\<close>

definition fd_ok :: "int \<Rightarrow> bool" where
  "fd_ok fd \<longleftrightarrow> 2 \<le> fd \<and> fd < 2 ^ 31"

definition connected :: "client_manager \<Rightarrow> int set" where
  "connected m = {fd. Some fd \<in> set (clients m)}"

definition manager_inv :: "client_manager \<Rightarrow> bool" where
  "manager_inv m \<longleftrightarrow>
     (\<forall>i<length (clients m). \<forall>fd. clients m ! i = Some fd \<longrightarrow> fd_ok fd \<and> i = ConnectionToIndex fd) \<and>
     mactive_clients m = length (filter (\<lambda>c. c \<noteq> None) (clients m))"

lemma ConnectionToIndex_ok: "fd_ok fd \<Longrightarrow> ConnectionToIndex fd = nat (fd - 1)"
  by (simp add: ConnectionToIndex_def fd_ok_def)

lemma connected_iff:
  assumes "manager_inv m"
  shows "fd \<in> connected m \<longleftrightarrow>
    ConnectionToIndex fd < length (clients m) \<and> clients m ! ConnectionToIndex fd = Some fd"
  using assms by (auto simp: connected_def manager_inv_def in_set_conv_nth)

lemma slot_taken:
  assumes "manager_inv m" and "fd_ok fd" and "ConnectionToIndex fd < length (clients m)"
    and "clients m ! ConnectionToIndex fd \<noteq> None"
  shows "clients m ! ConnectionToIndex fd = Some fd"
proof -
  obtain fd' where c: "clients m ! ConnectionToIndex fd = Some fd'" using assms(4) by blast
  then have "fd_ok fd'" "ConnectionToIndex fd = ConnectionToIndex fd'"
    using assms(1,3) by (auto simp: manager_inv_def)
  then have "fd' = fd" using assms(2) by (auto simp: ConnectionToIndex_ok fd_ok_def)
  then show ?thesis using c by simp
qed

lemma filter_update_Some:
  "i < length xs \<Longrightarrow> xs ! i = None \<Longrightarrow>
    length (filter (\<lambda>c. c \<noteq> None) (xs[i := Some v])) = Suc (length (filter (\<lambda>c. c \<noteq> None) xs))"
  by (induction xs arbitrary: i) (auto simp: nth_Cons split: nat.splits)

lemma set_update_Some:
  "i < length xs \<Longrightarrow> xs ! i = None \<Longrightarrow> Some w \<in> set (xs[i := Some v]) \<longleftrightarrow> w = v \<or> Some w \<in> set xs"
  by (induction xs arbitrary: i) (auto simp: nth_Cons split: nat.splits)

lemma filter_update_None:
  "i < length xs \<Longrightarrow> xs ! i \<noteq> None \<Longrightarrow>
    Suc (length (filter (\<lambda>c. c \<noteq> None) (xs[i := None]))) = length (filter (\<lambda>c. c \<noteq> None) xs)"
  by (induction xs arbitrary: i) (auto simp: nth_Cons split: nat.splits)

lemma vector_resize_grow:
  "length xs \<le> n \<Longrightarrow> vector_resize n xs = xs @ replicate (n - length xs) None"
  by (simp add: vector_resize_def)

lemma AddClient_ok:
  assumes "manager_inv m" and "fd_ok fd" and "fd \<notin> connected m"
  obtains m' where "AddClient fd m = Some m'" "manager_inv m'" "connected m' = insert fd (connected m)"
    "mactive_clients m' = mactive_clients m + 1" "mstats m' = mstats m"
proof -
  let ?i = "ConnectionToIndex fd"
  define cs where "cs = (if ?i \<ge> length (clients m) then vector_resize (2 * ?i mod 2 ^ 64) (clients m) else clients m)"
  have i: "?i = nat (fd - 1)" "1 \<le> ?i" "?i < 2 ^ 31"
    using assms(2) by (simp_all add: ConnectionToIndex_ok [OF assms(2)] fd_ok_def) linarith+
  then have w: "2 * ?i mod 2 ^ 64 = 2 * ?i" by simp
  obtain k where cs: "cs = clients m @ replicate k None" and l: "?i < length cs"
  proof (cases "?i \<ge> length (clients m)")
    case True
    then have "cs = clients m @ replicate (2 * ?i - length (clients m)) None"
      using vector_resize_grow [of "clients m" "2 * ?i"] unfolding cs_def w by simp
    then show thesis using that i True by simp
  next
    case False
    then show thesis using that [of 0] by (simp add: cs_def)
  qed
  have e: "cs ! ?i = None"
  proof (cases "?i < length (clients m)")
    case True
    then have "clients m ! ?i \<noteq> Some fd" using assms(3) connected_iff [OF assms(1)] by simp
    then show ?thesis using slot_taken [OF assms(1,2) True] True cs
      by (cases "clients m ! ?i") (auto simp: nth_append)
  next
    case False
    then show ?thesis using l cs by (simp add: nth_append)
  qed
  let ?m = "m\<lparr>clients := cs[?i := Some fd], mactive_clients := mactive_clients m + 1\<rparr>"
  have old: "fd_ok fd' \<and> j = ConnectionToIndex fd'" if "j < length cs" "cs ! j = Some fd'" for j fd'
    using that assms(1) cs by (auto simp: manager_inv_def nth_append split: if_splits)
  show thesis
  proof (rule that [of ?m])
    show "AddClient fd m = Some ?m" using e l by (simp add: AddClient_def Let_def flip: cs_def)
    have "length (filter (\<lambda>c. c \<noteq> None) cs) = mactive_clients m"
      using assms(1) cs by (simp add: manager_inv_def)
    then have n: "mactive_clients ?m = length (filter (\<lambda>c. c \<noteq> None) (clients ?m))"
      using filter_update_Some [OF l e, of fd] by simp
    have "fd_ok fd' \<and> j = ConnectionToIndex fd'" if "j < length (clients ?m)" "clients ?m ! j = Some fd'" for j fd'
      using that old [of j fd'] assms(2) by (cases "j = ?i") simp_all
    then show inv: "manager_inv ?m" using n unfolding manager_inv_def by blast
    note set_update_Some [OF l e, of _ fd]
    then show "connected ?m = insert fd (connected m)" by (auto simp: connected_def cs)
  qed simp_all
qed

lemma RemoveClient_ok:
  assumes "manager_inv m" and "fd \<in> connected m"
  obtains m' where "RemoveClient fd m = Some m'" "manager_inv m'" "connected m' = connected m - {fd}"
    "mactive_clients m = mactive_clients m' + 1" "mstats m' = mstats m"
proof -
  let ?i = "ConnectionToIndex fd"
  let ?m = "m\<lparr>clients := (clients m)[?i := None], mactive_clients := mactive_clients m - 1\<rparr>"
  have i: "?i < length (clients m)" "clients m ! ?i = Some fd"
    using connected_iff [OF assms(1)] assms(2) by auto
  have "clients m ! ?i \<noteq> None" using i(2) by simp
  note f = filter_update_None [OF i(1) this]
  have a: "mactive_clients m = length (filter (\<lambda>c. c \<noteq> None) (clients m))"
    using assms(1) unfolding manager_inv_def by blast
  show thesis
  proof (rule that [of ?m])
    show "RemoveClient fd m = Some ?m" using i by (simp add: RemoveClient_def)
    have "mactive_clients ?m = length (filter (\<lambda>c. c \<noteq> None) (clients ?m))"
      unfolding a f [symmetric] by simp
    moreover have "fd_ok fd' \<and> j = ConnectionToIndex fd'"
      if "j < length (clients ?m)" "clients ?m ! j = Some fd'" for j fd'
      using that assms(1) i(1) by (cases "j = ?i") (simp_all add: manager_inv_def)
    ultimately show inv: "manager_inv ?m" unfolding manager_inv_def by blast
    have "fd' \<in> connected ?m \<longleftrightarrow> fd' \<in> connected m - {fd}" for fd'
      unfolding connected_iff [OF inv] Diff_iff connected_iff [OF assms(1)]
      using i by (cases "ConnectionToIndex fd' = ?i") auto
    then show "connected ?m = connected m - {fd}" by blast
    show "mactive_clients m = mactive_clients ?m + 1" using f a by simp
  qed simp
qed

lemma connected_card:
  assumes "manager_inv m"
  shows "card (connected m) = mactive_clients m"
proof -
  let ?I = "{i. i < length (clients m) \<and> clients m ! i \<noteq> None}"
  have "inj_on ConnectionToIndex (connected m)"
    by (intro inj_onI) (metis connected_iff [OF assms] option.inject)
  moreover have "ConnectionToIndex ` connected m = ?I"
  proof (intro equalityI subsetI)
    show "i \<in> ConnectionToIndex ` connected m" if "i \<in> ?I" for i
      using that assms by (auto simp: manager_inv_def connected_def image_iff in_set_conv_nth intro!: exI [of _ "the (clients m ! i)"])
  qed (auto simp: connected_iff [OF assms])
  ultimately have "card (connected m) = card ?I" by (metis card_image)
  then show ?thesis
    using assms by (simp add: length_filter_conv_card manager_inv_def)
qed

end
