(* ===== verification/Client.thy ===== *)
theory Client
  imports Dispatch ClientManager
begin

text \<open>
  A client's conversation: \<open>src/src/client.h\<close>, \<open>client.cc\<close> and the completion of a receive in
  \<open>src/src/io/connection.h\<close>. One iteration of \<open>Client::Process\<close> makes room in the query buffer,
  receives bytes, parses, runs a complete command on the data structure service and sends the
  reply. What the kernel does is an input: the bytes a receive returns and the number of bytes a
  send takes. A failed \<open>assert\<close> or an exception is \<open>None\<close>.
\<close>

section \<open>State\<close>

definition kIOGenericBufferSize :: nat where
  "kIOGenericBufferSize = 16 * 1024"

definition kOutputBufferSize :: nat where
  "kOutputBufferSize = 1024"

record client =
  query_buffer :: buffer
  output_buffer :: buffer
  arguments :: "view list"
  cparser :: "mbulk_parser option"
  query_result :: result

definition Client_init :: "bool \<Rightarrow> addr \<Rightarrow> addr \<Rightarrow> client" where
  "Client_init use_ring_buf a1 a2 =
     \<lparr>query_buffer = Buffer_init (if use_ring_buf then 0 else kIOGenericBufferSize) a1,
      output_buffer = Buffer_init kOutputBufferSize a2, arguments = [], cparser = None, query_result = Result_init\<rparr>"

text \<open>A client with what it shares: the statistics of the client manager and the service.\<close>

record session =
  sclient :: client
  sstats :: client_stats
  sdss :: dss

section \<open>Parsing\<close>

definition run_mbulk :: "mbulk_parser \<Rightarrow> buffer \<Rightarrow> view list \<Rightarrow> nat
    \<Rightarrow> (ParserState \<times> buffer \<times> mbulk_parser option \<times> view list \<times> nat) option" where
  "run_mbulk p b result result_size =
     (case MultiBulk_Parse p b result of
        None \<Rightarrow> None
      | Some (p', b', result') \<Rightarrow>
          Some (pstate p', b', Some p', result', if pstate p' = kDone then the (GetResultSize p') else result_size))"

definition detail_Parse :: "buffer \<Rightarrow> mbulk_parser option \<Rightarrow> view list \<Rightarrow> nat
    \<Rightarrow> (ParserState \<times> buffer \<times> mbulk_parser option \<times> view list \<times> nat) option" where
  "detail_Parse b mp result result_size =
     (if mp \<noteq> None \<and> InProgress (the mp) then run_mbulk (the mp) b result result_size
      else if vlen (Source b) = 0 then None
      else if chars b (Source b) ! 0 = CHR ''*''
      then run_mbulk (if mp = None then MultiBulkParser_init else the mp) b result result_size
      else map_option (\<lambda>(st, b', result', n). (st, b', mp, result', n)) (ParseInline b result result_size))"

section \<open>An iteration\<close>

text \<open>\<open>a\<close> is the address of the query buffer if it is resized.\<close>

definition EnsureBuffer :: "addr \<Rightarrow> client \<times> client_stats \<Rightarrow> client \<times> client_stats" where
  "EnsureBuffer a = (\<lambda>(c, st).
     if IsVirtual (query_buffer c) then (c, st)
     else
       (let (data_start, b) = EnsureAvailable kIOGenericBufferSize (Capacity (query_buffer c) < kIOGenericBufferSize) a
              (query_buffer c);
            args = (case (data_start, cparser c) of
                (Some start, Some p) \<Rightarrow> (if InProgress p then BufferUpdate p start (buf_base b) (arguments c) else arguments c)
              | _ \<Rightarrow> arguments c)
        in (c\<lparr>query_buffer := b, arguments := args\<rparr>, UpdateInputBufferSize (Capacity b) st)))"

definition ResetState :: "client \<Rightarrow> client" where
  "ResetState c = c\<lparr>query_buffer := Reset (query_buffer c), output_buffer := Reset (output_buffer c),
     query_result := Result_Reset (query_result c)\<rparr>"

text \<open>
  The completion of a receive: an error, or bytes (none at the end of the stream). In the buffer's
  own memory the kernel writes to the sink, at most its size; with ring buffers it passes bytes at
  address \<open>a\<close>.
\<close>

datatype recv_result = RecvError | Received string addr

definition Recv_resume :: "string \<Rightarrow> addr \<Rightarrow> buffer \<Rightarrow> buffer option" where
  "Recv_resume bs a b =
     (if bs = [] then Some b
      else if virtual_view b then Produce_view bs a b
      else (let got = take (Available b) bs
            in Produce (length got) (b\<lparr>buf_data := write_at (write_index b) got (buf_data b)\<rparr>)))"

datatype send_result = SendError | Sent nat

text \<open>The inputs of one iteration.\<close>

record io =
  grow_base :: addr
  incoming :: recv_result
  around :: world
  reply_base :: addr
  sending :: send_result

datatype status = Running | Stopped

text \<open>The end of an iteration: sending the result. The output are the bytes that the kernel took.\<close>

definition send_result_of :: "io \<Rightarrow> session \<Rightarrow> (status \<times> session \<times> string) option" where
  "send_result_of x s =
     (case send_reply (reply_base x) (query_result (sclient s)) (output_buffer (sclient s)) of
        None \<Rightarrow> None
      | Some (bytes, ob) \<Rightarrow>
          (let c = (sclient s)\<lparr>output_buffer := ob\<rparr>
           in case sending x of
                SendError \<Rightarrow> Some (Stopped, s\<lparr>sclient := c\<rparr>, [])
              | Sent n \<Rightarrow>
                  (let out = take n bytes
                   in if length out = 0 then Some (Stopped, s\<lparr>sclient := c\<rparr>, [])
                      else (let st = UpdateOutputBufferSize (Capacity ob) (sstats s);
                                st' = st\<lparr>snet_output_bytes := snet_output_bytes st + length out\<rparr>
                            in Some (Running, s\<lparr>sclient := ResetState c, sstats := st'\<rparr>, out)))))"

definition Process_iteration :: "io \<Rightarrow> session \<Rightarrow> (status \<times> session \<times> string) option" where
  "Process_iteration x s =
     (let (c, st) = EnsureBuffer (grow_base x) (sclient s, sstats s); s1 = s\<lparr>sclient := c, sstats := st\<rparr>
      in case incoming x of
           RecvError \<Rightarrow> Some (Stopped, s1, [])
         | Received bs a \<Rightarrow>
             (case Recv_resume bs a (query_buffer c) of
                None \<Rightarrow> None
              | Some b \<Rightarrow>
                  (let bytes_read = vlen (Source b)
                   in if bytes_read = 0 then Some (Stopped, s1\<lparr>sclient := c\<lparr>query_buffer := b\<rparr>\<rparr>, [])
                      else
                        (case detail_Parse b (cparser c) (arguments c) 0 of
                           None \<Rightarrow> None
                         | Some (pst, b', mp, args, num_strings) \<Rightarrow>
                             (let c' = c\<lparr>query_buffer := b', cparser := mp, arguments := args\<rparr>;
                                  s2 = s1\<lparr>sclient := c', sstats := st\<lparr>snet_input_bytes := snet_input_bytes st + bytes_read\<rparr>\<rparr>
                              in case pst of
                                   kInit \<Rightarrow> Some (Running, s2, [])
                                 | kParsing \<Rightarrow> Some (Running, s2, [])
                                 | kError \<Rightarrow>
                                     send_result_of x (s2\<lparr>sclient := c'\<lparr>query_result := SetError kProtocol (query_result c')\<rparr>\<rparr>)
                                 | kDone \<Rightarrow>
                                     (if num_strings = 0 then None
                                      else case Invoke (around x) (sdss s2) (map (chars b') (take num_strings args)) (query_result c') of
                                        None \<Rightarrow> None
                                      | Some (d, r) \<Rightarrow>
                                          send_result_of x (s2\<lparr>sclient := c'\<lparr>query_result := r\<rparr>, sdss := d\<rparr>)))))))"

text \<open>The loop of \<open>Process\<close> over the inputs of its iterations.\<close>

fun Process :: "io list \<Rightarrow> session \<Rightarrow> (status \<times> session \<times> string) option" where
  "Process [] s = Some (Running, s, [])"
| "Process (x # xs) s =
     (case Process_iteration x s of
        None \<Rightarrow> None
      | Some (Stopped, s', out) \<Rightarrow> Some (Stopped, s', out)
      | Some (Running, s', out) \<Rightarrow> map_option (\<lambda>(st, s'', out'). (st, s'', out @ out')) (Process xs s'))"

section \<open>A client between commands and inside a command\<close>

definition the_parser :: "client \<Rightarrow> mbulk_parser" where
  "the_parser c = (case cparser c of None \<Rightarrow> MultiBulkParser_init | Some p \<Rightarrow> p)"

definition out_ready :: "buffer \<Rightarrow> bool" where
  "out_ready b \<longleftrightarrow> buffer_inv b \<and> \<not> virtual_view b \<and> read_index b = 0 \<and> write_index b = 0 \<and> 1024 \<le> length (buf_data b)"

definition idle :: "client \<Rightarrow> bool" where
  "idle c \<longleftrightarrow> \<not> virtual_view (query_buffer c) \<and> buffer_inv (query_buffer c) \<and> unread (query_buffer c) = [] \<and>
     \<not> InProgress (the_parser c) \<and> (pstate (the_parser c) = kInit \<longrightarrow> cur_arg_idx (the_parser c) = 0) \<and>
     out_ready (output_buffer c)"

definition waiting :: "string list \<Rightarrow> string \<Rightarrow> client \<Rightarrow> bool" where
  "waiting args tl_bytes c \<longleftrightarrow> \<not> virtual_view (query_buffer c) \<and>
     expecting args tl_bytes (the_parser c) (query_buffer c) (arguments c) \<and> out_ready (output_buffer c)"

text \<open>The bytes of the command that have not been received.\<close>

definition missing :: "string list \<Rightarrow> client \<Rightarrow> string" where
  "missing args c = drop (length (unread (query_buffer c))) (pending args (the_parser c))"

lemma idle_init: "idle (Client_init False a1 a2)"
  by (simp add: idle_def Client_init_def buffer_inv_init out_ready_def the_parser_def InProgress_def)
    (simp add: Buffer_init_def unread_def MultiBulkParser_init_def kIOGenericBufferSize_def kOutputBufferSize_def)

lemma idle_waiting:
  assumes "idle c"
  shows "waiting args tl_bytes c" and "missing args c = multibulk args"
  using assms by (auto simp: idle_def waiting_def missing_def expecting_def pending_def)

section \<open>Making room\<close>

lemma chars_moved:
  assumes "view_ok b v" and "buffer_inv b" and "\<not> virtual_view b"
    and "b' = b\<lparr>buf_data := buf_data b @ zs, buf_base := a\<rparr>" and "v' = v\<lparr>vptr := a + (vptr v - buf_base b)\<rparr>"
  shows "view_ok b' v' \<and> chars b' v' = chars b v"
proof -
  let ?o = "nat (vptr v - buf_base b)"
  have "?o + vlen v \<le> length (buf_data b)"
    using assms(1-3) by (auto simp: view_ok_def mem_start_def buffer_inv_def)
  then have "take (vlen v) (drop ?o (buf_data b @ zs)) = take (vlen v) (drop ?o (buf_data b))" by simp
  then show ?thesis
    using assms by (auto simp: view_ok_def chars_def mem_start_def mem_bytes_def)
qed

text \<open>A parser's expectation survives a move of the buffer, with the views moved along.\<close>

lemma expecting_moved:
  assumes "expecting args tl_bytes p b result" and "\<not> virtual_view b"
    and "b' = b\<lparr>buf_data := buf_data b @ zs, buf_base := a\<rparr>"
  shows "expecting args tl_bytes p b' (if InProgress p then BufferUpdate p (buf_base b) a result else result)"
proof -
  have inv: "buffer_inv b" using assms(1) by (simp add: expecting_def)
  have u: "unread b' = unread b" "buffer_inv b'"
    using inv assms(2,3) by (auto simp: unread_def mem_bytes_def buffer_inv_def)
  have "decoded args p b' (BufferUpdate p (buf_base b) a result)" if "decoded args p b result"
  proof -
    let ?mv = "\<lambda>v. v\<lparr>vptr := a + (vptr v - buf_base b)\<rparr>"
    have "BufferUpdate p (buf_base b) a result ! i = ?mv (result ! i)" if "i < cur_arg_idx p" "cur_arg_idx p \<le> length result" for i
      using that by (simp add: BufferUpdate_def nth_append)
    then show ?thesis
      using that chars_moved [OF _ inv assms(2,3) refl] by (simp add: decoded_def) (simp add: BufferUpdate_def)
  qed
  then show ?thesis using assms(1) u by (simp add: expecting_def)
qed

lemma EnsureBuffer_waiting:
  assumes "waiting args tl_bytes c" and "EnsureBuffer a (c, st) = (c', st')"
  shows "waiting args tl_bytes c'" "missing args c' = missing args c" "unread (query_buffer c') = unread (query_buffer c)"
    "kIOGenericBufferSize \<le> Available (query_buffer c')" "cparser c' = cparser c"
    "query_result c' = query_result c" "output_buffer c' = output_buffer c"
proof -
  define b where "b = query_buffer c"
  define n where "n = kIOGenericBufferSize"
  obtain r b' where e: "EnsureAvailable n (Capacity b < n) a b = (r, b')" by (metis surj_pair)
  note w = assms(1) [unfolded waiting_def]
  have ex: "expecting args tl_bytes (the_parser c) b (arguments c)" and v: "\<not> virtual_view b"
    using w by (simp_all add: b_def)
  have inv: "buffer_inv b" using ex by (simp add: expecting_def)
  define args' where "args' = (case (r, cparser c) of
      (Some start, Some p) \<Rightarrow> (if InProgress p then BufferUpdate p start (buf_base b') (arguments c) else arguments c)
    | _ \<Rightarrow> arguments c)"
  have c': "c' = c\<lparr>query_buffer := b', arguments := args'\<rparr>"
    using assms(2) v e by (simp add: EnsureBuffer_def IsVirtual_def b_def n_def args'_def)
  have kept: "unread b' = unread b" "\<not> virtual_view b'"
    using EnsureAvailable_kept [OF inv e] v by (simp_all add: unread_def mem_bytes_def)
  have "expecting args tl_bytes (the_parser c) b' args'"
  proof (cases "length (buf_data b) \<ge> n + write_index b")
    case True
    then have "r = None" "b' = b" using e by (simp_all add: EnsureAvailable_def Let_def)
    then show ?thesis using ex by (simp add: args'_def)
  next
    case False
    then obtain zs where b': "b' = b\<lparr>buf_data := buf_data b @ zs, buf_base := a\<rparr>" and r: "r = Some (buf_base b)"
      using e by (auto simp: EnsureAvailable_def Let_def)
    have "args' = (if InProgress (the_parser c) then BufferUpdate (the_parser c) (buf_base b) a (arguments c) else arguments c)"
      by (simp add: args'_def r b' the_parser_def InProgress_def MultiBulkParser_init_def split: option.splits)
    then show ?thesis using expecting_moved [OF ex v b'] by simp
  qed
  then show "waiting args tl_bytes c'" using w kept c' by (simp add: waiting_def the_parser_def)
  show "missing args c' = missing args c" "unread (query_buffer c') = unread (query_buffer c)"
    using kept c' by (simp_all add: missing_def the_parser_def b_def)
  show "kIOGenericBufferSize \<le> Available (query_buffer c')"
    using EnsureAvailable_room [OF inv v e] c' by (simp add: n_def)
qed (use assms(2) in \<open>auto simp: EnsureBuffer_def Let_def split: if_splits prod.splits\<close>)

section \<open>Receiving\<close>

lemma Recv_own_memory:
  assumes "buffer_inv b" and "\<not> virtual_view b" and "bs \<noteq> []" and "length bs \<le> Available b"
  obtains b' where "Recv_resume bs a b = Some b'" "unread b' = unread b @ bs" "buffer_inv b'" "\<not> virtual_view b'"
    "mem_start b' = mem_start b" "\<And>v. view_ok b v \<Longrightarrow> view_ok b' v \<and> chars b' v = chars b v"
proof -
  let ?d = "write_at (write_index b) bs (buf_data b)"
  let ?b = "b\<lparr>buf_data := ?d, write_index := write_index b + length bs\<rparr>"
  have fit: "write_index b + length bs \<le> length (buf_data b)"
    using assms(1,2,4) by (auto simp: Available_def buffer_inv_def)
  note w = write_at_simps [OF fit]
  show thesis
  proof (rule that [of ?b])
    show "Recv_resume bs a b = Some ?b" using assms fit w by (simp add: Recv_resume_def Produce_def)
    have "read_index b \<le> write_index b" "write_index b \<le> length (buf_data b)"
      using assms(1,2) by (simp_all add: buffer_inv_def)
    then show "unread ?b = unread b @ bs" using assms(2) w(4) by (simp add: unread_def mem_bytes_def)
    show "buffer_inv ?b" using assms(1,2) fit w(1) by (simp add: buffer_inv_def)
    show "view_ok ?b v \<and> chars ?b v = chars b v" if "view_ok b v" for v
    proof -
      let ?o = "nat (vptr v - buf_base b)"
      have o: "?o + vlen v \<le> write_index b" using that assms(2) by (auto simp: view_ok_def mem_start_def)
      have "take (vlen v) (drop ?o ?d) = take (vlen v) (drop ?o (take (write_index b) ?d))"
        using o by (simp add: drop_take)
      also have "\<dots> = take (vlen v) (drop ?o (buf_data b))" using o unfolding w(2) by (simp add: drop_take)
      finally show ?thesis using that assms(2) by (auto simp: view_ok_def chars_def mem_start_def mem_bytes_def)
    qed
  qed (use assms(2) in \<open>simp_all add: mem_start_def\<close>)
qed

section \<open>Parsing a part of a command\<close>

lemma run_mbulk_outcome:
  assumes "expecting args tl_bytes p b result" and "unread b \<noteq> []" and "encodable args"
  obtains p' k result' n' where "run_mbulk p b result n = Some (pstate p', b\<lparr>read_index := read_index b + k\<rparr>, Some p', result', n')"
    "parse_outcome args tl_bytes p b p' k result'" "pstate p' = kDone \<Longrightarrow> n' = pargs p'"
proof -
  obtain p' k result' where "MultiBulk_Parse p b result = Some (p', b\<lparr>read_index := read_index b + k\<rparr>, result')"
      "parse_outcome args tl_bytes p b p' k result'"
    using Parse_outcome [OF assms] by blast
  then show thesis using that by (simp add: run_mbulk_def GetResultSize_def)
qed

lemma Source_nonempty: "buffer_inv b \<Longrightarrow> unread b \<noteq> [] \<Longrightarrow> vlen (Source b) \<noteq> 0"
  using chars_Source [of b] by (metis chars_def take_0)

lemma detail_Parse_mbulk:
  assumes "expecting args tl_bytes p b result" and "unread b \<noteq> []"
    and "p = (case mp of None \<Rightarrow> MultiBulkParser_init | Some p \<Rightarrow> p)"
  shows "detail_Parse b mp result n = run_mbulk p b result n"
proof (cases "InProgress p")
  case True
  then have "mp = Some p" using assms(3) by (auto simp: InProgress_def MultiBulkParser_init_def split: option.splits)
  then show ?thesis using True by (simp add: detail_Parse_def)
next
  case False
  have inv: "buffer_inv b" using assms(1) by (simp add: expecting_def)
  have src: "chars b (Source b) = unread b" by (rule chars_Source [OF inv])
  have "prefix (unread b) (multibulk args @ tl_bytes)" using assms(1) False by (simp add: expecting_def pending_def)
  then have "unread b ! 0 = CHR ''*''"
    using assms(2) by (cases "unread b") (auto simp: multibulk_def mbulk_header_def)
  moreover have "vlen (Source b) \<noteq> 0" by (rule Source_nonempty [OF inv assms(2)])
  ultimately show ?thesis
    using False assms(3) src by (auto simp: detail_Parse_def split: option.splits)
qed

text \<open>The start of an iteration that receives a further part of a command: up to the parser's verdict.\<close>

lemma receive_part:
  assumes "waiting args tl_bytes c" and "encodable args" and "bs \<noteq> []" and "length bs \<le> kIOGenericBufferSize"
    and "prefix bs (missing args c @ drop (length (unread (query_buffer c)) - length (pending args (the_parser c))) tl_bytes)"
  obtains c1 st1 b p' k args' n where
    "EnsureBuffer a (c, st) = (c1, st1)" "Recv_resume bs a' (query_buffer c1) = Some b" "vlen (Source b) \<noteq> 0"
    "detail_Parse b (cparser c1) (arguments c1) 0 = Some (pstate p', b\<lparr>read_index := read_index b + k\<rparr>, Some p', args', n)"
    "parse_outcome args tl_bytes (the_parser c) b p' k args'" "unread b = unread (query_buffer c) @ bs"
    "buffer_inv b" "\<not> virtual_view b" "pstate p' = kDone \<Longrightarrow> n = pargs p'"
    "query_result c1 = query_result c" "out_ready (output_buffer c1)"
proof -
  obtain c1 st1 where e: "EnsureBuffer a (c, st) = (c1, st1)" by (metis surj_pair)
  note k = EnsureBuffer_waiting [OF assms(1) e]
  let ?p = "the_parser c" and ?u = "unread (query_buffer c)"
  have tp: "the_parser c1 = ?p" using k(5) by (simp add: the_parser_def)
  have w: "expecting args tl_bytes ?p (query_buffer c1) (arguments c1)" "\<not> virtual_view (query_buffer c1)"
    "out_ready (output_buffer c1)" using k(1) tp by (simp_all add: waiting_def)
  have inv: "buffer_inv (query_buffer c1)" using w(1) by (simp add: expecting_def)
  obtain b where b: "Recv_resume bs a' (query_buffer c1) = Some b" "unread b = unread (query_buffer c1) @ bs"
      "buffer_inv b" "\<not> virtual_view b" "\<And>v. view_ok (query_buffer c1) v \<Longrightarrow> view_ok b v \<and> chars b v = chars (query_buffer c1) v"
    by (rule Recv_own_memory [OF inv w(2) assms(3) order_trans [OF assms(4) k(4)]]) blast
  have "prefix ?u (pending args ?p @ tl_bytes)" using w(1) k(3) by (simp add: expecting_def)
  then have "?u @ drop (length ?u) (pending args ?p @ tl_bytes) = pending args ?p @ tl_bytes"
    by (metis append_eq_conv_conj prefix_def)
  then have "prefix (?u @ bs) (pending args ?p @ tl_bytes)"
    using assms(5) by (metis drop_append missing_def same_prefix_prefix)
  moreover have "decoded args ?p b (arguments c1)" if "InProgress ?p"
    using w(1) that b(5) by (simp add: expecting_def decoded_def)
  ultimately have ex: "expecting args tl_bytes ?p b (arguments c1)"
    using w(1) b(2,3) k(3) by (simp add: expecting_def)
  have ne: "unread b \<noteq> []" using b(2) assms(3) by simp
  obtain p' j args' n where "run_mbulk ?p b (arguments c1) 0 = Some (pstate p', b\<lparr>read_index := read_index b + j\<rparr>, Some p', args', n)"
      "parse_outcome args tl_bytes ?p b p' j args'" "pstate p' = kDone \<Longrightarrow> n = pargs p'"
    by (rule run_mbulk_outcome [OF ex ne assms(2)]) blast
  moreover have "detail_Parse b (cparser c1) (arguments c1) 0 = run_mbulk ?p b (arguments c1) 0"
    using detail_Parse_mbulk [OF ex ne, of "cparser c1"] k(5) by (simp add: the_parser_def)
  moreover have "vlen (Source b) \<noteq> 0" by (rule Source_nonempty [OF b(3) ne])
  ultimately show thesis using that [OF e b(1)] b k w(3) by simp
qed

lemma iteration_partial:
  assumes "waiting args tl_bytes (sclient s)" and "encodable args" and "incoming x = Received bs a" and "bs \<noteq> []"
    and "length bs \<le> kIOGenericBufferSize" and "strict_prefix bs (missing args (sclient s))"
  obtains s' where "Process_iteration x s = Some (Running, s', [])" "waiting args tl_bytes (sclient s')"
    "missing args (sclient s') = drop (length bs) (missing args (sclient s))" "sdss s' = sdss s"
    "query_result (sclient s') = query_result (sclient s)"
proof -
  let ?c = "sclient s"
  let ?p = "the_parser ?c" and ?u = "unread (query_buffer ?c)"
  have "prefix bs (missing args ?c @ zs)" for zs using assms(6) by (simp add: prefix_prefix strict_prefix_def)
  then obtain c1 st1 b p' k args' n where r:
    "EnsureBuffer (grow_base x) (?c, sstats s) = (c1, st1)" "Recv_resume bs a (query_buffer c1) = Some b" "vlen (Source b) \<noteq> 0"
    "detail_Parse b (cparser c1) (arguments c1) 0 = Some (pstate p', b\<lparr>read_index := read_index b + k\<rparr>, Some p', args', n)"
    and o: "parse_outcome args tl_bytes ?p b p' k args'" and u: "unread b = ?u @ bs"
    and b: "buffer_inv b" "\<not> virtual_view b" and q: "query_result c1 = query_result ?c" "out_ready (output_buffer c1)"
    by (rule receive_part [OF assms(1,2,4,5)]) blast
  have "length (unread b) < length (pending args ?p)"
    using prefix_length_less [OF assms(6)] u by (simp add: missing_def)
  then have st: "pstate p' = kInit \<or> pstate p' = kParsing" and pd: "pending args ?p = take k (unread b) @ pending args p'"
    and ex: "expecting args tl_bytes p' (b\<lparr>read_index := read_index b + k\<rparr>) args'" and k: "k \<le> length (unread b)"
    using o by (auto simp: parse_outcome_def)
  define s' where "s' = s\<lparr>sclient := c1\<lparr>query_buffer := b\<lparr>read_index := read_index b + k\<rparr>, cparser := Some p', arguments := args'\<rparr>,
      sstats := st1\<lparr>snet_input_bytes := snet_input_bytes st1 + vlen (Source b)\<rparr>\<rparr>"
  show thesis
  proof (rule that [of s'])
    show "Process_iteration x s = Some (Running, s', [])"
      using r assms(3) st by (auto simp: Process_iteration_def s'_def)
    show "waiting args tl_bytes (sclient s')"
      using ex b(2) q(2) by (simp add: waiting_def s'_def the_parser_def)
    have "missing args (sclient s') = drop (length (unread b) - k) (pending args p')"
      by (simp add: missing_def s'_def the_parser_def unread_advance)
    also have "\<dots> = drop (length (unread b)) (pending args ?p)" using k unfolding pd by simp
    finally show "missing args (sclient s') = drop (length bs) (missing args ?c)"
      using u by (simp add: missing_def add.commute)
  qed (simp_all add: s'_def q)
qed

lemma encode_reply_nonempty: "encode_reply r \<noteq> []"
  by (cases "rtype r"; cases "rerror r"; cases "string_ptr r")
    (auto simp: encode_reply_def kOkStr_def kNilStr_def bulk_def)

lemma send_result_ok:
  assumes "out_ready (output_buffer (sclient s))" and "result_ok (query_result (sclient s))" and "sending x = Sent n" and "n > 0"
  obtains s' ob where "send_result_of x s = Some (Running, s', take n (encode_reply (query_result (sclient s))))"
    "sclient s' = ResetState ((sclient s)\<lparr>output_buffer := ob\<rparr>)" "out_ready (Reset ob)" "sdss s' = sdss s"
proof -
  obtain ob where ob: "send_reply (reply_base x) (query_result (sclient s)) (output_buffer (sclient s)) =
      Some (encode_reply (query_result (sclient s)), ob)"
    using send_reply_ok [of "output_buffer (sclient s)"] assms(1,2) by (auto simp: out_ready_def)
  have "out_ready (Reset ob)"
    using send_reply_grown [OF ob] assms(1) Reset_inv [of ob] by (auto simp: out_ready_def grown_def Reset_def Let_def)
  then show thesis
    using that ob assms(3,4) encode_reply_nonempty by (simp add: send_result_of_def Let_def)
qed

lemma iteration_final:
  assumes "waiting args tl_bytes (sclient s)" and "encodable args" and "incoming x = Received bs a"
    and "length bs \<le> kIOGenericBufferSize" and "bs = missing args (sclient s) @ tl_bytes" and "missing args (sclient s) \<noteq> []"
    and "Invoke (around x) (sdss s) args (query_result (sclient s)) = Some (d, r)" and "result_ok r"
    and "sending x = Sent m" and "m > 0"
  obtains s' where "Process_iteration x s = Some (Running, s', take m (encode_reply r))" "idle (sclient s')" "sdss s' = d"
    "query_result (sclient s') = Result_Reset r"
proof -
  let ?c = "sclient s"
  let ?p = "the_parser ?c" and ?u = "unread (query_buffer ?c)"
  have lt: "length ?u < length (pending args ?p)" using assms(6) by (simp add: missing_def)
  have ne: "bs \<noteq> []" using assms(5,6) by simp
  have "prefix bs (missing args ?c @ drop (length ?u - length (pending args ?p)) tl_bytes)"
    using lt assms(5) by simp
  then obtain c1 st1 b p' k args' n where r:
    "EnsureBuffer (grow_base x) (?c, sstats s) = (c1, st1)" "Recv_resume bs a (query_buffer c1) = Some b" "vlen (Source b) \<noteq> 0"
    "detail_Parse b (cparser c1) (arguments c1) 0 = Some (pstate p', b\<lparr>read_index := read_index b + k\<rparr>, Some p', args', n)"
    and o: "parse_outcome args tl_bytes ?p b p' k args'" and u: "unread b = ?u @ bs"
    and b: "\<not> virtual_view b" and n: "pstate p' = kDone \<Longrightarrow> n = pargs p'"
    and q: "query_result c1 = query_result ?c" "out_ready (output_buffer c1)"
    by (rule receive_part [OF assms(1,2) ne assms(4)]) blast
  have "length (pending args ?p) \<le> length (unread b)" using u assms(5) lt by (simp add: missing_def)
  then have dn: "pstate p' = kDone" "decoded args p' b args'" "cur_arg_idx p' = length args"
    using o by (simp_all add: parse_outcome_def)
  then have nn: "n = length args" "map (chars b) (take n args') = args"
    using n by (auto simp: decoded_def intro!: nth_equalityI)
  have "args \<noteq> []" using assms(7) by (auto simp: Invoke_def)
  define b' where "b' = b\<lparr>read_index := read_index b + k\<rparr>"
  define s2 where "s2 = s\<lparr>sclient := c1\<lparr>query_buffer := b', cparser := Some p', arguments := args', query_result := r\<rparr>,
      sstats := st1\<lparr>snet_input_bytes := snet_input_bytes st1 + vlen (Source b)\<rparr>, sdss := d\<rparr>"
  have "chars b' = chars b" by (simp add: b'_def fun_eq_iff)
  then have mc: "map (chars b') (take n args') = args" using nn(2) by simp
  have it: "Process_iteration x s = send_result_of x s2"
    using r assms(3,7) dn(1) nn(1) mc q(1) \<open>args \<noteq> []\<close>
    by (cases s; cases c1) (simp add: Process_iteration_def s2_def flip: b'_def)
  have "out_ready (output_buffer (sclient s2))" "result_ok (query_result (sclient s2))"
    using q(2) assms(8) by (simp_all add: s2_def)
  then obtain s' ob where s': "send_result_of x s2 = Some (Running, s', take m (encode_reply (query_result (sclient s2))))"
    "sclient s' = ResetState ((sclient s2)\<lparr>output_buffer := ob\<rparr>)" "out_ready (Reset ob)" "sdss s' = sdss s2"
    by (rule send_result_ok [OF _ _ assms(9,10)])
  show thesis
  proof (rule that [of s'])
    show "Process_iteration x s = Some (Running, s', take m (encode_reply r))" using it s'(1) by (simp add: s2_def)
    have "\<not> virtual_view (Reset b')" "unread (Reset b') = []" using b by (simp_all add: b'_def Reset_def Let_def unread_def)
    then show "idle (sclient s')"
      using s'(2,3) dn(1) Reset_inv [of b'] by (simp add: idle_def ResetState_def s2_def the_parser_def InProgress_def)
  qed (simp_all add: s' s2_def ResetState_def)
qed

section \<open>Conversations\<close>

text \<open>
  A request as it arrives: the iterations \<open>xs\<close> receive pieces of the bytes, cut anywhere, none
  longer than the room that \<open>EnsureBuffer\<close> makes. The last of them completes the command.
\<close>

definition received_bytes :: "io \<Rightarrow> string" where
  "received_bytes x = (case incoming x of Received bs a \<Rightarrow> bs | RecvError \<Rightarrow> [])"

definition delivers :: "string \<Rightarrow> io list \<Rightarrow> bool" where
  "delivers bytes xs \<longleftrightarrow> concat (map received_bytes xs) = bytes \<and>
     list_all (\<lambda>x. received_bytes x \<noteq> [] \<and> length (received_bytes x) \<le> kIOGenericBufferSize) xs"

lemma received_bytes_incoming: "received_bytes x \<noteq> [] \<Longrightarrow> \<exists>a. incoming x = Received (received_bytes x) a"
  by (auto simp: received_bytes_def split: recv_result.splits)

lemma request_served:
  assumes "waiting args [] (sclient s)" and "encodable args" and "missing args (sclient s) \<noteq> []"
    and "delivers (missing args (sclient s)) xs"
    and "Invoke (around (last xs)) (sdss s) args (query_result (sclient s)) = Some (d, r)" and "result_ok r"
    and "sending (last xs) = Sent m" and "m > 0"
  shows "\<exists>s'. Process xs s = Some (Running, s', take m (encode_reply r)) \<and> idle (sclient s') \<and> sdss s' = d \<and>
    query_result (sclient s') = Result_Reset r"
  using assms
proof (induction xs arbitrary: s)
  case Nil
  then show ?case by (simp add: delivers_def)
next
  case (Cons x xs)
  let ?bs = "received_bytes x" and ?miss = "missing args (sclient s)"
  have x: "?bs \<noteq> []" "length ?bs \<le> kIOGenericBufferSize" "?miss = ?bs @ concat (map received_bytes xs)"
    using Cons.prems(4) by (simp_all add: delivers_def)
  obtain a where inc: "incoming x = Received ?bs a" using received_bytes_incoming [OF x(1)] by blast
  show ?case
  proof (cases "xs = []")
    case True
    then have bs: "?bs = ?miss @ []" using x(3) by simp
    have l: "last (x # xs) = x" using True by simp
    obtain s' where "Process_iteration x s = Some (Running, s', take m (encode_reply r))" "idle (sclient s')" "sdss s' = d"
        "query_result (sclient s') = Result_Reset r"
      by (rule iteration_final [OF Cons.prems(1,2) inc x(2) bs Cons.prems(3) Cons.prems(5,6,7) [unfolded l] Cons.prems(8)])
    then show ?thesis using True by simp
  next
    case False
    then have "concat (map received_bytes xs) \<noteq> []" using Cons.prems(4) by (cases xs) (auto simp: delivers_def)
    then have sp: "strict_prefix ?bs ?miss" using x(3) by (auto simp: strict_prefix_def)
    obtain s1 where s1: "Process_iteration x s = Some (Running, s1, [])" "waiting args [] (sclient s1)"
        "missing args (sclient s1) = drop (length ?bs) ?miss" "sdss s1 = sdss s" "query_result (sclient s1) = query_result (sclient s)"
      by (rule iteration_partial [OF Cons.prems(1,2) inc x(1,2) sp])
    have "missing args (sclient s1) = concat (map received_bytes xs)" using s1(3) x(3) by simp
    moreover have "delivers (concat (map received_bytes xs)) xs" using Cons.prems(4) by (simp add: delivers_def)
    ultimately show ?thesis
      using Cons.IH [OF s1(2) Cons.prems(2)] Cons.prems(5-8) s1 False \<open>concat (map received_bytes xs) \<noteq> []\<close> by auto
  qed
qed

text \<open>The reference: the commands run one after the other on the service, with the results they give.\<close>

type_synonym request = "string list \<times> io list"

fun answers :: "request list \<Rightarrow> dss \<Rightarrow> result \<Rightarrow> (dss \<times> result list) option" where
  "answers [] d r = Some (d, [])"
| "answers ((args, xs) # reqs) d r =
     (case Invoke (around (last xs)) d args r of
        None \<Rightarrow> None
      | Some (d', r') \<Rightarrow> map_option (\<lambda>(d'', rs). (d'', r' # rs)) (answers reqs d' (Result_Reset r')))"

text \<open>A request that arrives in pieces and whose reply the kernel takes as a whole.\<close>

definition request_ok :: "request \<Rightarrow> result \<Rightarrow> bool" where
  "request_ok q r \<longleftrightarrow> encodable (fst q) \<and> delivers (multibulk (fst q)) (snd q) \<and> result_ok r \<and>
     (case sending (last (snd q)) of Sent n \<Rightarrow> length (encode_reply r) \<le> n | SendError \<Rightarrow> False)"

lemma Process_append:
  "Process xs s = Some (Running, s1, out) \<Longrightarrow>
    Process (xs @ ys) s = map_option (\<lambda>(st, s2, out'). (st, s2, out @ out')) (Process ys s1)"
proof (induction xs s arbitrary: out rule: Process.induct)
  case (1 s)
  then show ?case by (simp add: option.map_ident split_def)
next
  case (2 x xs s)
  then show ?case by (auto split: option.splits status.splits prod.splits simp: option.map_comp o_def split_def)
qed

lemma conversation_served:
  assumes "idle (sclient s)" and "answers reqs (sdss s) (query_result (sclient s)) = Some (d, rs)"
    and "list_all2 request_ok reqs rs"
  shows "\<exists>s'. Process (concat (map snd reqs)) s = Some (Running, s', concat (map encode_reply rs)) \<and>
    idle (sclient s') \<and> sdss s' = d"
  using assms
proof (induction reqs arbitrary: s rs)
  case Nil
  then show ?case by auto
next
  case (Cons q reqs)
  obtain args xs where q: "q = (args, xs)" by (metis surj_pair)
  obtain d1 r rs' where i: "Invoke (around (last xs)) (sdss s) args (query_result (sclient s)) = Some (d1, r)"
    and rest: "answers reqs d1 (Result_Reset r) = Some (d, rs')" and rs: "rs = r # rs'"
    using Cons.prems(2) q by (auto split: option.splits)
  have rq: "request_ok (args, xs) r" and tail_ok: "list_all2 request_ok reqs rs'"
    using Cons.prems(3) q rs by simp_all
  from rq have ok: "encodable args" "delivers (multibulk args) xs" "result_ok r" by (simp_all add: request_ok_def)
  obtain m where m: "sending (last xs) = Sent m" "length (encode_reply r) \<le> m"
    using rq by (auto simp: request_ok_def split: send_result.splits)
  have "m > 0" using m(2) encode_reply_nonempty [of r] by (cases m) auto
  note w = idle_waiting [OF Cons.prems(1), of args]
  have ne: "missing args (sclient s) \<noteq> []" using w(2) by (simp add: multibulk_def mbulk_header_def)
  obtain s1 where s1: "Process xs s = Some (Running, s1, take m (encode_reply r))" "idle (sclient s1)" "sdss s1 = d1"
      "query_result (sclient s1) = Result_Reset r"
    using request_served [OF w(1) ok(1) ne _ i ok(3) m(1) \<open>m > 0\<close>] ok(2) w(2) by auto
  have "\<exists>s'. Process (concat (map snd reqs)) s1 = Some (Running, s', concat (map encode_reply rs')) \<and>
      idle (sclient s') \<and> sdss s' = d"
    using Cons.IH [OF s1(2) _ tail_ok] rest s1(3,4) by simp
  then show ?case using Process_append [OF s1(1)] m(2) q rs by auto
qed


definition example_session :: session where
  "example_session = \<lparr>sclient = Client_init False 0 0, sstats = mstats ClientManager_init, sdss = example_store\<rparr>"

definition piece :: "string \<Rightarrow> io" where
  "piece bs = \<lparr>grow_base = 0, incoming = Received bs 0, around = example_world, reply_base = 0, sending = Sent 100\<rparr>"

lemma example_get_reply:
  obtains s' where "Invoke example_world example_store [''get'', ''b''] Result_init = Some (s', SetString (Some ''yy'') Result_init)"
proof -
  have "snd (GetFunction (\<lambda>_. 0) example_store [''get'', ''b''] Result_init) = SetString (Some ''yy'') Result_init"
    using GetFunctionBase_svc(4) [OF example_store(1), of "''b''" Result_init]
    by (simp add: GetFunction_def split_def Let_def value_reply_def example_store(2))
  then show thesis using that example_get [of Result_init] by (simp add: split_def Let_def)
qed


text \<open>
  Commands that arrive together. What follows the first command in a piece is dropped: the client
  runs and answers the first command only and forgets the rest.
\<close>

theorem pipelined_bytes_dropped:
  assumes "idle (sclient s)" and "encodable args" and "incoming x = Received (multibulk args @ tl_bytes) a"
    and "length (multibulk args @ tl_bytes) \<le> kIOGenericBufferSize"
    and "Invoke (around x) (sdss s) args (query_result (sclient s)) = Some (d, r)" and "result_ok r"
    and "sending x = Sent m" and "length (encode_reply r) \<le> m"
  shows "\<exists>s'. Process_iteration x s = Some (Running, s', encode_reply r) \<and> idle (sclient s') \<and> sdss s' = d"
proof -
  note w = idle_waiting [OF assms(1), of args]
  have ne: "missing args (sclient s) \<noteq> []" using w(2) by (simp add: multibulk_def mbulk_header_def)
  have "m > 0" using assms(8) encode_reply_nonempty [of r] by (cases m) auto
  obtain s' where "Process_iteration x s = Some (Running, s', take m (encode_reply r))" "idle (sclient s')" "sdss s' = d"
    by (rule iteration_final [OF w(1) [of tl_bytes] assms(2,3,4) _ ne assms(5,6,7) \<open>m > 0\<close>]) (simp_all add: w(2))
  then show ?thesis using assms(8) by simp
qed

end
