(* ===== verification/Server.thy ===== *)
theory Server
  imports ClientManager
begin

text \<open>
  The server's life of connections: \<open>src/src/server.cc\<close>, with the end of \<open>Client::Process\<close> and
  \<open>Client::Close\<close> of \<open>src/src/client.cc\<close>. The accept loop runs on one executor and hands each
  connection to an executor, on which the client is created later: in between, the accept loop
  may accept further connections. A failed \<open>assert\<close> is \<open>None\<close>. The kernel gives a connection a
  descriptor that is not open.
\<close>

section \<open>State\<close>

text \<open>
  \<open>scheduled\<close> are the callbacks that wait on the client executors: a descriptor and the index of
  the executor. \<open>open_fds\<close> are the descriptors of open connections.
\<close>

record server =
  srv_maxclients :: nat
  client_executors :: nat
  ce_index :: nat
  srv_connections_received :: nat
  rejected_connections :: nat
  scheduled :: "(int \<times> nat) list"
  manager :: client_manager
  open_fds :: "int set"

definition Server_init :: "nat \<Rightarrow> nat \<Rightarrow> server" where
  "Server_init maxc n = \<lparr>srv_maxclients = maxc, client_executors = n, ce_index = 0, srv_connections_received = 0,
     rejected_connections = 0, scheduled = [], manager = ClientManager_init, open_fds = {}\<rparr>"

section \<open>Operations\<close>

text \<open>An iteration of \<open>AcceptLoop\<close>: \<open>None\<close> is an error of \<open>accept\<close>.\<close>

definition AcceptLoop_iteration :: "int option \<Rightarrow> server \<Rightarrow> server" where
  "AcceptLoop_iteration conn s =
     (case conn of
        None \<Rightarrow> s
      | Some fd \<Rightarrow>
          (let s1 = s\<lparr>srv_connections_received := srv_connections_received s + 1, open_fds := insert fd (open_fds s)\<rparr>
           in if mactive_clients (manager s1) = srv_maxclients s1
              then s1\<lparr>rejected_connections := rejected_connections s1 + 1, open_fds := open_fds s1 - {fd}\<rparr>
              else s1\<lparr>scheduled := scheduled s1 @ [(fd, ce_index s1)],
                      ce_index := (ce_index s1 + 1) mod client_executors s1\<rparr>))"

text \<open>The callback of \<open>AcceptLoop\<close>, which creates the client.\<close>

definition start_client :: "int \<times> nat \<Rightarrow> server \<Rightarrow> server option" where
  "start_client x s =
     map_option (\<lambda>m. s\<lparr>manager := m, scheduled := remove1 x (scheduled s)\<rparr>) (AddClient (fst x) (manager s))"

text \<open>The end of \<open>Client::Process\<close>, and \<open>Client::Close\<close>.\<close>

definition Client_Close :: "int \<Rightarrow> server \<Rightarrow> server option" where
  "Client_Close fd s =
     map_option (\<lambda>m. s\<lparr>manager := m, open_fds := open_fds s - {fd}\<rparr>) (RemoveClient fd (manager s))"

text \<open>\<open>Shutdown\<close>, after the executors have stopped: the loop runs over a copy of the vector of clients.\<close>

fun close_clients :: "int option list \<Rightarrow> server \<Rightarrow> server option" where
  "close_clients [] s = Some s"
| "close_clients (None # cs) s = close_clients cs s"
| "close_clients (Some fd # cs) s = (case Client_Close fd s of None \<Rightarrow> None | Some s' \<Rightarrow> close_clients cs s')"

definition Server_Shutdown :: "server \<Rightarrow> server option" where
  "Server_Shutdown s =
     (case close_clients (clients (manager s)) s of
        None \<Rightarrow> None
      | Some s' \<Rightarrow> (if mactive_clients (manager s') = 0 then Some s' else None))"

section \<open>Runs\<close>

text \<open>
  Accepts, started clients and ended clients in any order. With \<open>strict\<close>, a connection is only
  accepted when no callback waits.
\<close>

inductive server_step :: "bool \<Rightarrow> server \<Rightarrow> server \<Rightarrow> bool" for strict where
  accept_error: "server_step strict s (AcceptLoop_iteration None s)"
| accept_conn: "fd_ok fd \<Longrightarrow> fd \<notin> open_fds s \<Longrightarrow> (strict \<Longrightarrow> scheduled s = []) \<Longrightarrow>
     server_step strict s (AcceptLoop_iteration (Some fd) s)"
| client_start: "x \<in> set (scheduled s) \<Longrightarrow> start_client x s = Some s' \<Longrightarrow> server_step strict s s'"
| client_end: "fd \<in> connected (manager s) \<Longrightarrow> Client_Close fd s = Some s' \<Longrightarrow> server_step strict s s'"

inductive server_run :: "bool \<Rightarrow> nat \<Rightarrow> nat \<Rightarrow> server \<Rightarrow> bool" for strict maxc n where
  server_start: "server_run strict maxc n (Server_init maxc n)"
| server_next: "server_run strict maxc n s \<Longrightarrow> server_step strict s t \<Longrightarrow> server_run strict maxc n t"

definition server_inv :: "server \<Rightarrow> bool" where
  "server_inv s \<longleftrightarrow> manager_inv (manager s) \<and> distinct (map fst (scheduled s)) \<and>
     fst ` set (scheduled s) \<inter> connected (manager s) = {} \<and>
     open_fds s = fst ` set (scheduled s) \<union> connected (manager s) \<and> (\<forall>fd\<in>open_fds s. fd_ok fd) \<and>
     ce_index s < client_executors s \<and> (\<forall>x\<in>set (scheduled s). snd x < client_executors s) \<and>
     srv_connections_received s \<ge> rejected_connections s + length (scheduled s) + mactive_clients (manager s)"

lemma manager_inv_init [simp]: "manager_inv ClientManager_init" "connected ClientManager_init = {}"
  by (simp_all add: manager_inv_def ClientManager_init_def connected_def)

lemma length_remove1_Suc: "x \<in> set xs \<Longrightarrow> length xs = Suc (length (remove1 x xs))"
  by (induction xs) auto

lemma start_client_ok:
  assumes "server_inv s" and "x \<in> set (scheduled s)"
  obtains s' where "start_client x s = Some s'" "server_inv s'" "scheduled s' = remove1 x (scheduled s)"
    "mactive_clients (manager s') = mactive_clients (manager s) + 1" "srv_maxclients s' = srv_maxclients s"
proof -
  note inv = assms(1) [unfolded server_inv_def]
  have x: "fst x \<in> fst ` set (scheduled s)" using assms(2) by simp
  have "manager_inv (manager s)" "fd_ok (fst x)" "fst x \<notin> connected (manager s)" using inv x by blast+
  then obtain m where m: "AddClient (fst x) (manager s) = Some m" "manager_inv m"
      "connected m = insert (fst x) (connected (manager s))" "mactive_clients m = mactive_clients (manager s) + 1"
    by (rule AddClient_ok)
  have d: "distinct (scheduled s)" "inj_on fst (set (scheduled s))" using inv by (auto simp: distinct_map)
  have "set (remove1 x (scheduled s)) = set (scheduled s) - {x}" by (rule set_remove1_eq [OF d(1)])
  then have r: "fst ` set (remove1 x (scheduled s)) = fst ` set (scheduled s) - {fst x}"
    using inj_on_image_set_diff [OF d(2), of "set (scheduled s)" "{x}"] assms(2) by simp
  have "inj_on fst (set (remove1 x (scheduled s)))" by (rule inj_on_subset [OF d(2) set_remove1_subset])
  then have dr: "distinct (map fst (remove1 x (scheduled s)))" using d(1) by (simp add: distinct_map)
  have l: "length (scheduled s) = Suc (length (remove1 x (scheduled s)))"
    by (rule length_remove1_Suc [OF assms(2)])
  let ?s = "s\<lparr>manager := m, scheduled := remove1 x (scheduled s)\<rparr>"
  have "\<forall>y\<in>set (remove1 x (scheduled s)). snd y < client_executors s"
    using inv set_remove1_subset [of x "scheduled s"] by blast
  moreover have "insert (fst x) (connected (manager s)) \<union> (fst ` set (scheduled s) - {fst x}) = open_fds s"
    "insert (fst x) (connected (manager s)) \<inter> (fst ` set (scheduled s) - {fst x}) = {}"
    using inv x by blast+
  ultimately have "server_inv ?s" using inv m r dr l unfolding server_inv_def by (simp add: Int_commute Un_commute)
  then show thesis using that [of ?s] m by (simp add: start_client_def)
qed

lemma Client_Close_ok:
  assumes "server_inv s" and "fd \<in> connected (manager s)"
  obtains s' where "Client_Close fd s = Some s'" "server_inv s'" "scheduled s' = scheduled s"
    "connected (manager s') = connected (manager s) - {fd}"
    "mactive_clients (manager s) = mactive_clients (manager s') + 1" "srv_maxclients s' = srv_maxclients s"
proof -
  note inv = assms(1) [unfolded server_inv_def]
  have "manager_inv (manager s)" using inv by blast
  then obtain m where m: "RemoveClient fd (manager s) = Some m" "manager_inv m"
      "connected m = connected (manager s) - {fd}" "mactive_clients (manager s) = mactive_clients m + 1"
    by (rule RemoveClient_ok [OF _ assms(2)])
  have "server_inv (s\<lparr>manager := m, open_fds := open_fds s - {fd}\<rparr>)"
    using inv m assms(2) unfolding server_inv_def by auto
  then show thesis using that m by (simp add: Client_Close_def)
qed

lemma AcceptLoop_iteration_inv:
  assumes "server_inv s" and "fd_ok fd" and "fd \<notin> open_fds s"
  shows "server_inv (AcceptLoop_iteration (Some fd) s)"
proof -
  note inv = assms(1) [unfolded server_inv_def]
  have "(ce_index s + 1) mod client_executors s < client_executors s" using inv by simp
  then show ?thesis
    using inv assms(2,3) unfolding server_inv_def by (auto simp: AcceptLoop_iteration_def Let_def)
qed

lemma server_run_inv:
  assumes "server_run strict maxc n s" and "n > 0"
  shows "server_inv s \<and> srv_maxclients s = maxc \<and>
    (strict \<longrightarrow> mactive_clients (manager s) + length (scheduled s) \<le> maxc)"
  using assms(1)
proof (induction rule: server_run.induct)
  case server_start
  show ?case using assms(2) by (simp add: server_inv_def Server_init_def) (simp add: ClientManager_init_def)
next
  case (server_next s t)
  show ?case using server_next(2)
  proof (cases rule: server_step.cases)
    case accept_error
    then show ?thesis using server_next.IH by (simp add: AcceptLoop_iteration_def)
  next
    case (accept_conn fd)
    then show ?thesis
      using server_next.IH AcceptLoop_iteration_inv [of s fd] by (auto simp: AcceptLoop_iteration_def Let_def)
  next
    case (client_start x)
    have "server_inv s" using server_next.IH by blast
    then obtain s' where "start_client x s = Some s'" "server_inv s'" "scheduled s' = remove1 x (scheduled s)"
      "mactive_clients (manager s') = mactive_clients (manager s) + 1" "srv_maxclients s' = srv_maxclients s"
      using client_start(1) by (rule start_client_ok)
    moreover have "length (scheduled s) = Suc (length (remove1 x (scheduled s)))"
      by (rule length_remove1_Suc [OF client_start(1)])
    ultimately show ?thesis using client_start(2) server_next.IH by simp
  next
    case (client_end fd)
    have "server_inv s" using server_next.IH by blast
    then obtain s' where "Client_Close fd s = Some s'" "server_inv s'" "scheduled s' = scheduled s"
      "mactive_clients (manager s) = mactive_clients (manager s') + 1" "srv_maxclients s' = srv_maxclients s"
      using client_end(1) by (rule Client_Close_ok)
    then show ?thesis using client_end(2) server_next.IH by auto
  qed
qed

section \<open>Shutdown\<close>

lemma distinct_slots:
  "(\<And>i j. i < length xs \<Longrightarrow> j < length xs \<Longrightarrow> xs ! i = xs ! j \<Longrightarrow> xs ! i \<noteq> None \<Longrightarrow> i = j) \<Longrightarrow>
    distinct (filter (\<lambda>c. c \<noteq> None) xs)"
proof (induction xs)
  case (Cons c xs)
  have "i = j" if "i < length xs" "j < length xs" "xs ! i = xs ! j" "xs ! i \<noteq> None" for i j
    using Cons.prems [of "Suc i" "Suc j"] that by simp
  moreover have "c \<notin> set xs" if "c \<noteq> None"
    using Cons.prems [of 0 "Suc k" for k] that by (fastforce simp: in_set_conv_nth)
  ultimately show ?case using Cons.IH by simp
qed simp

lemma manager_distinct:
  assumes "manager_inv m"
  shows "distinct (filter (\<lambda>c. c \<noteq> None) (clients m))"
  using assms by (intro distinct_slots) (auto simp: manager_inv_def, metis)

lemma close_clients_ok:
  assumes "server_inv s" and "distinct (filter (\<lambda>c. c \<noteq> None) cs)" and "{fd. Some fd \<in> set cs} \<subseteq> connected (manager s)"
  shows "\<exists>s'. close_clients cs s = Some s' \<and> server_inv s' \<and> scheduled s' = scheduled s \<and>
    connected (manager s') = connected (manager s) - {fd. Some fd \<in> set cs}"
  using assms
proof (induction cs s rule: close_clients.induct)
  case (3 fd cs s)
  have "fd \<in> connected (manager s)" using "3.prems"(3) by auto
  with "3.prems"(1) obtain s1 where s1: "Client_Close fd s = Some s1" "server_inv s1" "scheduled s1 = scheduled s"
      "connected (manager s1) = connected (manager s) - {fd}"
    by (rule Client_Close_ok)
  have "{fd. Some fd \<in> set cs} \<subseteq> connected (manager s1)" using "3.prems"(2,3) s1(4) by auto
  from "3.IH" [OF s1(1,2) _ this] show ?case using "3.prems"(2) s1 by auto
qed auto

lemma Server_Shutdown_ok:
  assumes "server_inv s"
  obtains s' where "Server_Shutdown s = Some s'" "connected (manager s') = {}" "mactive_clients (manager s') = 0"
    "open_fds s' = fst ` set (scheduled s)"
proof -
  have m: "manager_inv (manager s)" using assms by (simp add: server_inv_def)
  have "{fd. Some fd \<in> set (clients (manager s))} = connected (manager s)" by (simp add: connected_def)
  then obtain s' where s': "close_clients (clients (manager s)) s = Some s'" "server_inv s'"
      "scheduled s' = scheduled s" "connected (manager s') = {}"
    using close_clients_ok [OF assms manager_distinct [OF m]] by auto
  moreover have "mactive_clients (manager s') = 0"
    using s'(2,4) connected_card [of "manager s'"] by (simp add: server_inv_def)
  ultimately show thesis using that by (simp add: Server_Shutdown_def server_inv_def)
qed

section \<open>Properties\<close>


text \<open>
  The limit \<open>maxclients\<close> holds when every client is registered before the next connection is
  accepted.
\<close>

theorem maxclients_respected:
  assumes "server_run True maxc n s" and "n > 0"
  shows "mactive_clients (manager s) \<le> maxc"
  using server_run_inv [OF assms] by simp

text \<open>Two connections accepted one after the other, then both callbacks, under a limit of 1.\<close>

definition accepted_two :: server where
  "accepted_two = AcceptLoop_iteration (Some 8) (AcceptLoop_iteration (Some 7) (Server_init 1 2))"

lemma accepted_two_run: "server_run False 1 2 accepted_two"
proof -
  have "server_step False (Server_init 1 2) (AcceptLoop_iteration (Some 7) (Server_init 1 2))"
    by (rule accept_conn) (simp_all add: fd_ok_def Server_init_def)
  moreover have "server_step False (AcceptLoop_iteration (Some 7) (Server_init 1 2)) accepted_two"
    unfolding accepted_two_def
    by (rule accept_conn) (simp_all add: fd_ok_def Server_init_def AcceptLoop_iteration_def ClientManager_init_def)
  ultimately show ?thesis using server_next server_start by metis
qed

text \<open>In general the limit can be exceeded: the count that is compared does not include waiting callbacks.\<close>

theorem maxclients_exceeded: "\<exists>s. server_run False 1 2 s \<and> mactive_clients (manager s) = 2"
proof -
  have "accepted_two = \<lparr>srv_maxclients = 1, client_executors = 2, ce_index = 0, srv_connections_received = 2,
     rejected_connections = 0, scheduled = [(7, 0), (8, 1)], manager = ClientManager_init, open_fds = {8, 7}\<rparr>"
    by (simp add: accepted_two_def AcceptLoop_iteration_def Server_init_def ClientManager_init_def)
  note two = this
  define s1 where "s1 = the (start_client (7, 0) accepted_two)"
  define s2 where "s2 = the (start_client (8, 1) s1)"
  note defs = start_client_def AddClient_def ConnectionToIndex_def ClientManager_init_def vector_resize_def Let_def
  have s1: "start_client (7, 0) accepted_two = Some s1" "scheduled s1 = [(8, 1)]"
    "manager s1 = ClientManager_init\<lparr>clients := (replicate 12 None)[6 := Some 7], mactive_clients := 1\<rparr>"
    unfolding s1_def two by (simp_all add: defs)
  have s2: "start_client (8, 1) s1 = Some s2" "mactive_clients (manager s2) = 2"
    unfolding s2_def by (simp_all add: defs s1)
  have "server_run False 1 2 s1"
    by (rule server_next [OF accepted_two_run client_start [OF _ s1(1)]]) (simp add: two)
  then have "server_run False 1 2 s2"
    by (rule server_next [OF _ client_start [OF _ s2(1)]]) (simp add: s1)
  then show ?thesis using s2(2) by blast
qed


theorem maxclients_respected_witness:
  "mactive_clients (manager (AcceptLoop_iteration (Some 7) (Server_init 1 2))) \<le> 1"
proof -
  have "server_run True 1 2 (AcceptLoop_iteration (Some 7) (Server_init 1 2))"
    by (intro server_next [OF server_start] accept_conn) (simp_all add: fd_ok_def Server_init_def)
  then show ?thesis using maxclients_respected by fastforce
qed

end
