(* ===== verification/Memory.thy ===== *)
theory Memory
  imports Buffer AtomicMax "HOL-Library.Word"
begin

text \<open>
  Memory accounting: \<open>MemoryTracker\<close> and \<open>Mallocator\<close> of \<open>src/src/base/memory.h\<close>, and the calls
  of the tracker in \<open>src/src/base/buffer.h\<close> and \<open>buffer.cc\<close>. The counters are 64-bit words that
  wrap around. \<open>malloc\<close> is a parameter: the address it returns, \<open>None\<close> for a null pointer. So is
  the capacity that a \<open>std::vector\<close> chooses when it grows. The accesses of one call are
  uninterrupted here; the loop that raises the peak is treated in \<open>AtomicMax\<close> for all interleavings.
\<close>

section \<open>The tracker\<close>

datatype MemTrackingCategory = kMallocator | kQueryBuffer | kAll

record tracker =
  counter :: "MemTrackingCategory \<Rightarrow> 64 word"
  peak :: "64 word"

definition MemoryTracker_init :: tracker where
  "MemoryTracker_init = \<lparr>counter = (\<lambda>_. 0), peak = 0\<rparr>"

text \<open>\<open>GetInstance\<close> on the static pointer \<open>instance_\<close>.\<close>

definition GetInstance :: "tracker option \<Rightarrow> tracker" where
  "GetInstance instance_ptr = (case instance_ptr of None \<Rightarrow> MemoryTracker_init | Some t \<Rightarrow> t)"

fun category_name :: "MemTrackingCategory \<Rightarrow> string" where
  "category_name kMallocator = ''Mallocator''"
| "category_name kQueryBuffer = ''QueryBuffer''"
| "category_name kAll = ''All''"

definition Allocate :: "MemTrackingCategory \<Rightarrow> 64 word \<Rightarrow> tracker \<Rightarrow> tracker" where
  "Allocate c n t =
     (let t1 = t\<lparr>counter := (counter t)(c := counter t c + n)\<rparr>;
          sum = counter t1 kMallocator + counter t1 kQueryBuffer
      in if sum > peak t1 then t1\<lparr>peak := sum\<rparr> else t1)"

definition Deallocate :: "MemTrackingCategory \<Rightarrow> 64 word \<Rightarrow> tracker \<Rightarrow> tracker" where
  "Deallocate c n t = t\<lparr>counter := (counter t)(c := counter t c - n)\<rparr>"

definition GetAllocated :: "MemTrackingCategory \<Rightarrow> tracker \<Rightarrow> 64 word" where
  "GetAllocated c t = (if c = kAll then counter t kMallocator + counter t kQueryBuffer else counter t c)"

definition GetPeakAllocated :: "tracker \<Rightarrow> 64 word" where
  "GetPeakAllocated t = peak t"

section \<open>The allocator\<close>

text \<open>A \<open>Mallocator\<close> for elements of \<open>sz\<close> bytes, \<open>sz > 0\<close>.\<close>

datatype alloc_error = bad_array_new_length | bad_alloc

definition size_max :: nat where
  "size_max = 2 ^ 64 - 1"

definition report_alloc :: "nat \<Rightarrow> nat \<Rightarrow> tracker \<Rightarrow> tracker" where
  "report_alloc sz n = Allocate kMallocator (of_nat (sz * n))"

definition report_dealloc :: "nat \<Rightarrow> nat \<Rightarrow> tracker \<Rightarrow> tracker" where
  "report_dealloc sz n = Deallocate kMallocator (of_nat (sz * n))"

definition Mallocator_allocate ::
  "(nat \<Rightarrow> addr option) \<Rightarrow> nat \<Rightarrow> nat \<Rightarrow> tracker \<Rightarrow> alloc_error + (addr \<times> tracker)" where
  "Mallocator_allocate malloc sz n t =
     (if n > size_max div sz then Inl bad_array_new_length
      else case malloc (n * sz) of
        Some p \<Rightarrow> Inr (p, report_alloc sz n t)
      | None \<Rightarrow> Inl bad_alloc)"

definition Mallocator_deallocate :: "nat \<Rightarrow> addr \<Rightarrow> nat \<Rightarrow> tracker \<Rightarrow> tracker" where
  "Mallocator_deallocate sz p n t = report_dealloc sz n t"

section \<open>Runs of the allocator\<close>

text \<open>
  The live blocks with their element size and count, the tracker, and the largest total so far.
  \<open>malloc\<close> returns an address that no live block has. A block is freed with the element size and
  the count it was allocated with, as the container that holds it does.
\<close>

record heap =
  blocks :: "addr \<rightharpoonup> (nat \<times> nat)"
  usage :: tracker
  highest :: nat

definition live_bytes :: "(addr \<rightharpoonup> (nat \<times> nat)) \<Rightarrow> nat" where
  "live_bytes m = (\<Sum>p\<in>dom m. fst (the (m p)) * snd (the (m p)))"

inductive heap_step :: "heap \<Rightarrow> heap \<Rightarrow> bool" where
  alloc_step: "Mallocator_allocate malloc sz n (usage s) = Inr (p, t) \<Longrightarrow> sz > 0 \<Longrightarrow> blocks s p = None \<Longrightarrow>
     m = (blocks s)(p \<mapsto> (sz, n)) \<Longrightarrow>
     heap_step s \<lparr>blocks = m, usage = t, highest = max (highest s) (live_bytes m)\<rparr>"
| free_step: "blocks s p = Some (sz, n) \<Longrightarrow>
     heap_step s (s\<lparr>blocks := (blocks s)(p := None), usage := Mallocator_deallocate sz p n (usage s)\<rparr>)"

definition heap_start :: heap where
  "heap_start = \<lparr>blocks = Map.empty, usage = MemoryTracker_init, highest = 0\<rparr>"

inductive heap_run :: "heap \<Rightarrow> bool" where
  heap_run_start: "heap_run heap_start"
| heap_run_step: "heap_run s \<Longrightarrow> heap_step s t \<Longrightarrow> heap_run t"

lemma live_bytes_insert:
  assumes "finite (dom m)" and "m p = None"
  shows "live_bytes (m(p \<mapsto> (sz, n))) = live_bytes m + sz * n"
proof -
  have "p \<notin> dom m" using assms(2) by auto
  then have "(\<Sum>q\<in>dom m. fst (the ((m(p \<mapsto> (sz, n))) q)) * snd (the ((m(p \<mapsto> (sz, n))) q))) = live_bytes m"
    unfolding live_bytes_def by (intro sum.cong) auto
  then show ?thesis using assms \<open>p \<notin> dom m\<close> by (simp add: live_bytes_def)
qed

lemma live_bytes_remove:
  assumes "finite (dom m)" and "m p = Some (sz, n)"
  shows "live_bytes m = live_bytes (m(p := None)) + sz * n"
proof -
  have "(m(p := None))(p \<mapsto> (sz, n)) = m" using assms(2) by (simp add: fun_upd_idem)
  then show ?thesis using live_bytes_insert [of "m(p := None)" p sz n] assms(1) by simp
qed

text \<open>The tracker against the live blocks. The counter is exact up to the wrap-around of its 64 bits.\<close>

definition heap_inv :: "heap \<Rightarrow> bool" where
  "heap_inv s \<longleftrightarrow> finite (dom (blocks s)) \<and> counter (usage s) kMallocator = of_nat (live_bytes (blocks s)) \<and>
     counter (usage s) kQueryBuffer = 0 \<and> live_bytes (blocks s) \<le> highest s \<and>
     (highest s < 2 ^ 64 \<longrightarrow> peak (usage s) = of_nat (highest s))"

lemma of_nat_less_word: "m < 2 ^ 64 \<Longrightarrow> n < 2 ^ 64 \<Longrightarrow> (of_nat m :: 64 word) < of_nat n \<longleftrightarrow> m < n"
  by (simp add: word_less_nat_alt unat_of_nat take_bit_eq_mod)

lemma Allocate_simps [simp]:
  "counter (Allocate c n t) = (counter t)(c := counter t c + n)"
  "peak (Allocate c n t) = max (peak t) (counter (Allocate c n t) kMallocator + counter (Allocate c n t) kQueryBuffer)"
  by (auto simp: Allocate_def Let_def max_def)

lemma heap_step_inv: "heap_step s t \<Longrightarrow> heap_inv s \<Longrightarrow> heap_inv t"
proof (induction rule: heap_step.induct)
  case (alloc_step malloc sz n s p t m)
  note inv = alloc_step.prems [unfolded heap_inv_def]
  have t: "t = report_alloc sz n (usage s)"
    using alloc_step(1) by (auto simp: Mallocator_allocate_def split: if_splits option.splits)
  have m: "live_bytes m = live_bytes (blocks s) + sz * n" "finite (dom m)"
    using live_bytes_insert [of "blocks s" p sz n] alloc_step inv by simp_all
  have c: "counter t = (counter (usage s))(kMallocator := of_nat (live_bytes m))"
    using m inv unfolding t by (simp add: report_alloc_def)
  have pk: "peak t = max (peak (usage s)) (of_nat (live_bytes m))"
    using m inv unfolding t by (simp add: report_alloc_def)
  have "peak t = of_nat (max (highest s) (live_bytes m))" if "max (highest s) (live_bytes m) < 2 ^ 64"
    using that inv of_nat_less_word [of "live_bytes m" "highest s"] unfolding pk
    by (auto simp: max_def not_le not_less of_nat_less_word simp flip: linorder_not_less)
  then show ?case using m c inv by (auto simp: heap_inv_def)
next
  case (free_step s p sz n)
  note inv = free_step.prems [unfolded heap_inv_def]
  note m = live_bytes_remove [of "blocks s" p sz n]
  have "of_nat (live_bytes (blocks s)) = (of_nat (live_bytes ((blocks s)(p := None))) + of_nat (sz * n) :: 64 word)"
    using m inv free_step(1) by simp
  then show ?case using m inv free_step(1)
    by (auto simp: heap_inv_def Mallocator_deallocate_def report_dealloc_def Deallocate_def)
qed

lemma heap_run_inv: "heap_run s \<Longrightarrow> heap_inv s"
proof (induction rule: heap_run.induct)
  case heap_run_start
  show ?case by (simp add: heap_inv_def heap_start_def live_bytes_def MemoryTracker_init_def)
qed (rule heap_step_inv)

text \<open>
  C10. Memory accounting of the allocator. In every run of allocations and deallocations, the
  counter that \<open>GetAllocated\<close> reads is the number of bytes in live blocks and the peak is the
  largest such number so far, as long as that fits in 64 bits.
\<close>

theorem tracker_exact:
  assumes "heap_run s" and "highest s < 2 ^ 64"
  shows "unat (GetAllocated kMallocator (usage s)) = live_bytes (blocks s) \<and>
    GetAllocated kAll (usage s) = GetAllocated kMallocator (usage s) \<and>
    unat (GetPeakAllocated (usage s)) = highest s"
proof -
  have "live_bytes (blocks s) < 2 ^ 64" using heap_run_inv [OF assms(1)] assms(2) by (simp add: heap_inv_def)
  then show ?thesis
    using heap_run_inv [OF assms(1)] assms(2)
    by (simp add: heap_inv_def GetAllocated_def GetPeakAllocated_def unat_of_nat take_bit_eq_mod)
qed

text \<open>Two blocks allocated, the first one freed.\<close>

definition two_blocks :: tracker where
  "two_blocks = report_dealloc 8 2 (report_alloc 1 5 (report_alloc 8 2 MemoryTracker_init))"

lemma two_blocks_run:
  "heap_run \<lparr>blocks = [200 \<mapsto> (1, 5)], usage = two_blocks, highest = 21\<rparr>"
proof -
  let ?t1 = "report_alloc 8 2 MemoryTracker_init" and ?m1 = "[100 \<mapsto> (8, 2)] :: addr \<rightharpoonup> (nat \<times> nat)"
  let ?t2 = "report_alloc 1 5 ?t1" and ?m2 = "?m1(200 \<mapsto> (1, 5))"
  have "heap_step heap_start \<lparr>blocks = ?m1, usage = ?t1, highest = max 0 (live_bytes ?m1)\<rparr>"
    using alloc_step [of "\<lambda>_. Some 100" 8 2 heap_start 100 ?t1 ?m1]
    by (simp add: heap_start_def Mallocator_allocate_def size_max_def)
  moreover have "live_bytes ?m1 = 16" by (simp add: live_bytes_def)
  ultimately have "heap_run \<lparr>blocks = ?m1, usage = ?t1, highest = 16\<rparr>"
    using heap_run_step [OF heap_run_start] by simp
  moreover have "live_bytes ?m2 = 21" by (simp add: live_bytes_def)
  ultimately have "heap_run \<lparr>blocks = ?m2, usage = ?t2, highest = 21\<rparr>"
    using heap_run_step [OF _ alloc_step [of "\<lambda>_. Some 200" 1 5 _ 200 ?t2 ?m2]]
    by (fastforce simp: Mallocator_allocate_def size_max_def)
  then have "heap_run (\<lparr>blocks = ?m2(100 := None), usage = Mallocator_deallocate 8 100 2 ?t2, highest = 21\<rparr>)"
    using heap_run_step [OF _ free_step [of "\<lparr>blocks = ?m2, usage = ?t2, highest = 21\<rparr>" 100 8 2]] by simp
  moreover have "?m2(100 := None) = [200 \<mapsto> (1, 5)]" by auto
  ultimately show ?thesis by (simp add: Mallocator_deallocate_def two_blocks_def)
qed

theorem tracker_exact_witness: "unat (GetAllocated kMallocator two_blocks) = 5 \<and> unat (GetPeakAllocated two_blocks) = 21"
  using tracker_exact [OF two_blocks_run] by (simp add: live_bytes_def)

section \<open>Buffers\<close>

text \<open>
  A buffer with the \<open>capacity()\<close> of its vector, which is at least its size, and the tracker. A
  vector made with \<open>n\<close> elements has capacity \<open>n\<close>; one that is resized beyond its capacity \<open>cap\<close> to
  \<open>n\<close> elements has capacity \<open>grow cap n\<close>.
\<close>

record tracked_buffer =
  tbuf :: buffer
  vcapacity :: nat
  ttracker :: tracker

definition Buffer_construct :: "nat \<Rightarrow> addr \<Rightarrow> tracker \<Rightarrow> tracked_buffer" where
  "Buffer_construct capacity a t =
     \<lparr>tbuf = Buffer_init capacity a, vcapacity = capacity,
      ttracker = (if capacity = 0 then t else Allocate kQueryBuffer (of_nat capacity) t)\<rparr>"

definition EnsureAvailable_tracked ::
  "(nat \<Rightarrow> nat \<Rightarrow> nat) \<Rightarrow> nat \<Rightarrow> bool \<Rightarrow> addr \<Rightarrow> tracked_buffer \<Rightarrow> tracked_buffer" where
  "EnsureAvailable_tracked grow n greedy new_base x =
     (let b = tbuf x; needed_size = n + write_index b
      in if length (buf_data b) \<ge> needed_size then x
         else (let new_size = MakeRoomFor needed_size greedy
               in x\<lparr>tbuf := snd (EnsureAvailable n greedy new_base b),
                    vcapacity := (if new_size \<le> vcapacity x then vcapacity x else grow (vcapacity x) new_size),
                    ttracker := Allocate kQueryBuffer (of_nat (new_size - length (buf_data b))) (ttracker x)\<rparr>))"

definition Buffer_destruct :: "tracked_buffer \<Rightarrow> tracker" where
  "Buffer_destruct x = Deallocate kQueryBuffer (of_nat (vcapacity x)) (ttracker x)"

text \<open>The life of a buffer up to its destructor.\<close>

inductive buffer_life :: "(nat \<Rightarrow> nat \<Rightarrow> nat) \<Rightarrow> nat \<Rightarrow> tracker \<Rightarrow> tracked_buffer \<Rightarrow> bool" for grow c t0 where
  life_construct: "buffer_life grow c t0 (Buffer_construct c a t0)"
| life_ensure: "buffer_life grow c t0 x \<Longrightarrow> buffer_life grow c t0 (EnsureAvailable_tracked grow n g a x)"
| life_produce: "buffer_life grow c t0 x \<Longrightarrow> Produce n (tbuf x) = Some b \<Longrightarrow> buffer_life grow c t0 (x\<lparr>tbuf := b\<rparr>)"
| life_produce_view: "buffer_life grow c t0 x \<Longrightarrow> Produce_view v a (tbuf x) = Some b \<Longrightarrow> buffer_life grow c t0 (x\<lparr>tbuf := b\<rparr>)"
| life_consume: "buffer_life grow c t0 x \<Longrightarrow> Consume n (tbuf x) = Some b \<Longrightarrow> buffer_life grow c t0 (x\<lparr>tbuf := b\<rparr>)"
| life_reset: "buffer_life grow c t0 x \<Longrightarrow> buffer_life grow c t0 (x\<lparr>tbuf := Reset (tbuf x)\<rparr>)"

lemma buffer_life_counter:
  assumes "buffer_life grow c t0 x"
  shows "counter (ttracker x) kQueryBuffer = counter t0 kQueryBuffer + of_nat (Capacity (tbuf x)) \<and>
    (\<forall>d. d \<noteq> kQueryBuffer \<longrightarrow> counter (ttracker x) d = counter t0 d)"
  using assms
proof (induction rule: buffer_life.induct)
  case (life_construct a)
  then show ?case by (simp add: Buffer_construct_def Capacity_def Buffer_init_def)
next
  case (life_ensure x n g a)
  let ?need = "n + write_index (tbuf x)"
  have "?need \<le> MakeRoomFor ?need g" by (rule MakeRoomFor_enough)
  then show ?case
    using life_ensure.IH
    by (simp add: EnsureAvailable_tracked_def EnsureAvailable_def Capacity_def Let_def not_le of_nat_diff)
qed (auto simp: Produce_def Produce_view_def Consume_def Reset_def Capacity_def Let_def split: if_splits)

text \<open>
  C40. Memory accounting of buffers. Over the life of a buffer the query buffer counter changes by
  the buffer's last size less the capacity of its vector: the constructor and every resize add
  sizes, the destructor subtracts the capacity. So the counter is restored if and only if the
  vector's capacity equals its size at the end, modulo the 64-bit wrap-around.
\<close>

theorem buffer_accounting:
  assumes "buffer_life grow c t0 x"
  shows "counter (Buffer_destruct x) kQueryBuffer =
      counter t0 kQueryBuffer + of_nat (Capacity (tbuf x)) - of_nat (vcapacity x) \<and>
    counter (Buffer_destruct x) kMallocator = counter t0 kMallocator"
  using buffer_life_counter [OF assms] by (simp add: Buffer_destruct_def Deallocate_def)

text \<open>
  A vector that doubles: a query buffer that holds the first 5 bytes of a command makes room for
  the next 16384 bytes and is destroyed. The counter ends 16379 below zero.
\<close>

definition doubling :: "nat \<Rightarrow> nat \<Rightarrow> nat" where
  "doubling cap n = max (2 * cap) n"

definition short_lived :: tracked_buffer where
  "short_lived = EnsureAvailable_tracked doubling 16384 False 0
     ((Buffer_construct 16384 0 MemoryTracker_init)\<lparr>tbuf := (Buffer_init 16384 0)\<lparr>write_index := 5\<rparr>\<rparr>)"

theorem buffer_accounting_witness: "unat (counter (Buffer_destruct short_lived) kQueryBuffer) = 2 ^ 64 - 16379"
proof -
  have "buffer_life doubling 16384 MemoryTracker_init
      ((Buffer_construct 16384 0 MemoryTracker_init)\<lparr>tbuf := (Buffer_init 16384 0)\<lparr>write_index := 5\<rparr>\<rparr>)"
    by (rule life_produce [OF life_construct, where n = 5])
      (simp add: Buffer_construct_def Produce_def Buffer_init_def)
  then have "buffer_life doubling 16384 MemoryTracker_init short_lived"
    unfolding short_lived_def by (rule life_ensure)
  moreover have "Capacity (tbuf short_lived) = 16389" "vcapacity short_lived = 32768"
    by (simp_all add: short_lived_def EnsureAvailable_tracked_def EnsureAvailable_def Let_def MakeRoomFor_def
        Buffer_construct_def Buffer_init_def Capacity_def doubling_def)
  ultimately show ?thesis
    using buffer_accounting by (fastforce simp: MemoryTracker_init_def)
qed

end
