(* ===== verification/RingExecutor.thy ===== *)
theory RingExecutor
  imports Prelude "HOL-Library.Word"
begin

unbundle bit_operations_syntax

text \<open>
  The parts of \<open>src/src/runtime/ring_executor.cc\<close> that compute: the slots for registered file
  descriptors, the ring of receive buffers, and the loop over completed operations. What the code
  asks of the kernel through liburing is the list of its calls, in order. Addresses are offsets
  into the buffer memory. A failed \<open>assert\<close> is \<open>None\<close>.
\<close>

section \<open>State\<close>

datatype ring_call =
  RegisterFilesUpdate nat int
| BufAdd (add_addr: nat) (add_len: nat) (add_bid: nat) (add_mask: int) (add_offset: nat)
| BufAdvance nat

record ring_executor =
  max_direct_descriptors :: nat
  fd_slot_indices :: "nat list"
  buf_entries :: nat
  buf :: string
  concat_str :: string

abbreviation buf_entry_size :: nat where "buf_entry_size \<equiv> 4096"
abbreviation io_buffer_size :: nat where "io_buffer_size \<equiv> 16384"

text \<open>The constructor's part: all slots are free.\<close>

definition RingExecutor_init :: "nat \<Rightarrow> ring_executor" where
  "RingExecutor_init n = \<lparr>max_direct_descriptors = n, fd_slot_indices = [0..<n], buf_entries = 0, buf = [], concat_str = []\<rparr>"

section \<open>Registered descriptors\<close>

definition RegisterFd :: "int \<Rightarrow> ring_executor \<Rightarrow> int \<times> ring_executor \<times> ring_call list" where
  "RegisterFd fd x =
     (if fd_slot_indices x = [] then (-1, x, [])
      else (let index = last (fd_slot_indices x)
            in (int index, x\<lparr>fd_slot_indices := butlast (fd_slot_indices x)\<rparr>, [RegisterFilesUpdate index fd])))"

definition UnregisterFd :: "int \<Rightarrow> ring_executor \<Rightarrow> ring_executor option" where
  "UnregisterFd fd_slot_index x =
     (if fd_slot_index < 0 then None
      else Some (x\<lparr>fd_slot_indices := fd_slot_indices x @ [nat fd_slot_index]\<rparr>))"

section \<open>The buffer ring\<close>

text \<open>
  The calls of \<open>InitBufRing\<close> and the executor after it; \<open>memory\<close> are the bytes that
  \<open>posix_memalign\<close> returns. Products are taken in \<open>uint32_t\<close>.
\<close>

definition InitBufRing :: "string \<Rightarrow> ring_executor \<Rightarrow> (ring_executor \<times> ring_call list) option" where
  "InitBufRing memory x =
     (let buf_size = ((if max_direct_descriptors x = 0 then 1024 else max_direct_descriptors x)
            * io_buffer_size) mod 2 ^ 32;
          n = buf_size div buf_entry_size
      in if buf_size mod buf_entry_size \<noteq> 0 \<or> n > 2 ^ 15 then None
         else Some (x\<lparr>buf_entries := n, buf := take buf_size memory\<rparr>,
           map (\<lambda>i. BufAdd (i * buf_entry_size) buf_entry_size i (int n - 1) i) [0..<n] @ [BufAdvance n]))"

text \<open>A view: the memory it points into with the offset there, its length, and the separated entry.\<close>

datatype view_place = InBuf nat | InConcat

record buffer_view =
  vplace :: view_place
  view_length :: nat
  separated_entry_id :: "nat option"

definition GetBufferView :: "nat \<Rightarrow> nat \<Rightarrow> ring_executor \<Rightarrow> (buffer_view \<times> ring_executor) option" where
  "GetBufferView entry_id len x =
     (if \<not> entry_id < buf_entries x then None
      else (let num_entries = len div buf_entry_size + (if len mod buf_entry_size = 0 then 0 else 1)
            in if num_entries + entry_id \<le> buf_entries x
               then Some (\<lparr>vplace = InBuf (entry_id * buf_entry_size), view_length = len, separated_entry_id = None\<rparr>, x)
               else if concat_str x \<noteq> [] then None
               else (let first_part_length = (buf_entries x - entry_id) * buf_entry_size
                     in if \<not> first_part_length < len then None
                        else Some (\<lparr>vplace = InConcat, view_length = len, separated_entry_id = Some entry_id\<rparr>,
                          x\<lparr>concat_str := take first_part_length (drop (entry_id * buf_entry_size) (buf x))
                               @ take (len - first_part_length) (buf x)\<rparr>))))"

definition view_bytes :: "ring_executor \<Rightarrow> buffer_view \<Rightarrow> string" where
  "view_bytes x v = take (view_length v) (case vplace v of InBuf off \<Rightarrow> drop off (buf x) | InConcat \<Rightarrow> concat_str x)"

text \<open>The loop of \<open>PutBufferView\<close>, one entry in a round.\<close>

function put_entries :: "nat \<Rightarrow> nat \<Rightarrow> nat \<Rightarrow> nat \<Rightarrow> ring_call list \<times> nat" where
  "put_entries n remaining_length entry_id offset =
     (if remaining_length = 0 then ([], offset)
      else (let (calls, offset') =
              put_entries n (remaining_length - (if remaining_length < buf_entry_size then remaining_length else buf_entry_size))
                ((entry_id + 1) AND (n - 1)) (offset + 1)
            in (BufAdd (entry_id * buf_entry_size) buf_entry_size entry_id (int n - 1) offset # calls, offset')))"
  by auto
termination by (relation "measure (\<lambda>(n, r, e, off). r)") auto

declare put_entries.simps [simp del]

definition PutBufferView :: "buffer_view \<Rightarrow> ring_executor \<Rightarrow> (ring_executor \<times> ring_call list) option" where
  "PutBufferView v x =
     (let start = (case separated_entry_id v of
            Some e \<Rightarrow> Some e
          | None \<Rightarrow> (case vplace v of
              InBuf off \<Rightarrow> (if off mod buf_entry_size \<noteq> 0 then None else Some (off div buf_entry_size))
            | InConcat \<Rightarrow> None))
      in case start of
           None \<Rightarrow> None
         | Some start_entry_id \<Rightarrow>
             (let (calls, offset) = put_entries (buf_entries x) (view_length v) (start_entry_id mod 2 ^ 16) 0
              in Some (if separated_entry_id v \<noteq> None then x\<lparr>concat_str := []\<rparr> else x, calls @ [BufAdvance offset])))"

section \<open>The event loop\<close>

text \<open>A completed operation: the operation it belongs to (0 for a message that only wakes the loop) and its result.\<close>

record cqe =
  user_data :: nat
  cqe_res :: int
  cqe_flags :: nat

datatype loop_call = Resume cqe | Submit | CqAdvance nat

text \<open>The inner loop of \<open>EventLoop\<close> over the completions that are there, after \<open>processed\<close> of them.\<close>

fun for_each_cqe :: "nat \<Rightarrow> cqe list \<Rightarrow> nat \<Rightarrow> loop_call list" where
  "for_each_cqe submit_batch [] processed =
     (if processed mod submit_batch \<noteq> 0 then [CqAdvance (processed mod submit_batch)] else [])"
| "for_each_cqe submit_batch (c # cs) processed =
     (if user_data c = 0
      then (if (processed + 1) mod submit_batch \<noteq> 0 then [CqAdvance ((processed + 1) mod submit_batch)] else [])
      else Resume c #
        (if (processed + 1) mod submit_batch = 0 then [Submit, CqAdvance submit_batch] else []) @
        for_each_cqe submit_batch cs (processed + 1))"

definition EventLoop_round :: "nat \<Rightarrow> cqe list \<Rightarrow> loop_call list" where
  "EventLoop_round submit_batch_size cqes = for_each_cqe (max 1 submit_batch_size) cqes 0"

section \<open>Slots\<close>

text \<open>Connections that come and go on one executor, with the slots they hold.\<close>

inductive slot_run :: "nat \<Rightarrow> ring_executor \<times> nat set \<Rightarrow> bool" for n where
  slot_start: "slot_run n (RingExecutor_init n, {})"
| slot_register: "slot_run n (x, used) \<Longrightarrow> RegisterFd fd x = (i, x', calls) \<Longrightarrow>
     slot_run n (x', if i = -1 then used else insert (nat i) used)"
| slot_unregister: "slot_run n (x, used) \<Longrightarrow> i \<in> used \<Longrightarrow> UnregisterFd (int i) x = Some x' \<Longrightarrow> slot_run n (x', used - {i})"

lemma slot_run_inv:
  assumes "slot_run n y"
  shows "distinct (fd_slot_indices (fst y)) \<and> set (fd_slot_indices (fst y)) \<inter> snd y = {} \<and>
    set (fd_slot_indices (fst y)) \<union> snd y = {..<n}"
  using assms
proof (induction rule: slot_run.induct)
  case slot_start
  show ?case by (auto simp: RingExecutor_init_def)
next
  case (slot_register x used fd i x' calls)
  show ?case
  proof (cases "fd_slot_indices x" rule: rev_cases)
    case (snoc js j)
    then have "x' = x\<lparr>fd_slot_indices := js\<rparr>" "i = int j" using slot_register by (auto simp: RegisterFd_def Let_def)
    then show ?thesis using slot_register.IH snoc by auto
  qed (use slot_register in \<open>auto simp: RegisterFd_def\<close>)
next
  case (slot_unregister x used i x')
  then have "x' = x\<lparr>fd_slot_indices := fd_slot_indices x @ [i]\<rparr>" by (simp add: UnregisterFd_def)
  then show ?case using slot_unregister by auto
qed

text \<open>
  Registered descriptors. However connections come and go, a registration gets a slot that no
  other connection holds and registers the descriptor there, and it fails only when all slots are
  held.
\<close>

theorem slots_exclusive:
  assumes "slot_run n (x, used)" and "RegisterFd fd x = (i, x', calls)"
  shows "if card used = n then i = -1 \<and> x' = x \<and> calls = []
    else 0 \<le> i \<and> i < int n \<and> nat i \<notin> used \<and> calls = [RegisterFilesUpdate (nat i) fd]"
proof -
  have inv: "distinct (fd_slot_indices x)" "set (fd_slot_indices x) \<inter> used = {}" "set (fd_slot_indices x) \<union> used = {..<n}"
    using slot_run_inv [OF assms(1)] by simp_all
  have "finite used" using inv(3) by (metis finite_Un finite_lessThan)
  then have "length (fd_slot_indices x) + card used = n"
    using inv card_Un_disjoint [of "set (fd_slot_indices x)" used] distinct_card [OF inv(1)] by simp
  moreover have "last (fd_slot_indices x) < n" "last (fd_slot_indices x) \<notin> used" if "fd_slot_indices x \<noteq> []"
    using last_in_set [OF that] inv(2,3) by blast+
  ultimately show ?thesis using assms(2) by (auto simp: RegisterFd_def Let_def split: if_splits)
qed

theorem slots_exclusive_witness:
  "case RegisterFd 9 (RingExecutor_init 4) of (i, x', calls) \<Rightarrow> i = 3 \<and> calls = [RegisterFilesUpdate 3 9] \<and> nat i \<notin> {}"
proof -
  obtain i x' calls where r: "RegisterFd 9 (RingExecutor_init 4) = (i, x', calls)" by (metis prod_cases3)
  from slots_exclusive [OF slot_start this] have "calls = [RegisterFilesUpdate (nat i) 9]" by simp
  moreover have "i = 3" using r by (auto simp: RegisterFd_def RingExecutor_init_def Let_def)
  ultimately show ?thesis using r by simp
qed

section \<open>Buffer views\<close>

definition entries_of :: "nat \<Rightarrow> nat" where
  "entries_of len = len div buf_entry_size + (if len mod buf_entry_size = 0 then 0 else 1)"

text \<open>The ring as \<open>InitBufRing\<close> leaves it: a power of two of entries, none larger than 16-bit indices allow.\<close>

definition ring_ok :: "ring_executor \<Rightarrow> bool" where
  "ring_ok x \<longleftrightarrow> (\<exists>k\<le>15. buf_entries x = 2 ^ k) \<and> length (buf x) = buf_entries x * buf_entry_size \<and> concat_str x = []"

lemma next_entry: "n = 2 ^ k \<Longrightarrow> m AND (n - 1) = m mod (n :: nat)"
  by (simp add: take_bit_eq_mod [symmetric] take_bit_eq_mask mask_eq_exp_minus_1)

lemma entries_of_step:
  "len \<noteq> 0 \<Longrightarrow> entries_of len = Suc (entries_of (len - (if len < buf_entry_size then len else buf_entry_size)))"
  by (auto simp: entries_of_def not_less le_div_geq le_mod_geq)

lemma entries_of_le: "entries_of len \<le> m \<longleftrightarrow> len \<le> m * buf_entry_size"
proof -
  define q r where "q = len div buf_entry_size" and "r = len mod buf_entry_size"
  have "len = q * buf_entry_size + r" "r < buf_entry_size" by (simp_all add: q_def r_def)
  moreover have "entries_of len = q + (if r = 0 then 0 else 1)" by (simp add: entries_of_def q_def r_def)
  ultimately show ?thesis by (cases "r = 0") auto
qed

definition entry_adds :: "nat \<Rightarrow> nat \<Rightarrow> nat \<Rightarrow> nat \<Rightarrow> ring_call list" where
  "entry_adds n entry_id offset m =
     map (\<lambda>i. BufAdd ((entry_id + i) mod n * buf_entry_size) buf_entry_size ((entry_id + i) mod n) (int n - 1) (offset + i))
       [0..<m]"

lemma entry_adds_Suc:
  assumes "entry_id < n"
  shows "entry_adds n entry_id offset (Suc m) =
    BufAdd (entry_id * buf_entry_size) buf_entry_size entry_id (int n - 1) offset #
    entry_adds n ((entry_id + 1) mod n) (offset + 1) m"
  unfolding entry_adds_def upt_conv_Cons [OF zero_less_Suc] map_Suc_upt [symmetric]
  using assms by (simp add: mod_simps)

lemma put_entries_eq:
  assumes "n = 2 ^ k" and "entry_id < n"
  shows "put_entries n len entry_id offset = (entry_adds n entry_id offset (entries_of len), offset + entries_of len)"
  using assms
proof (induction n len entry_id offset rule: put_entries.induct)
  case (1 n len entry_id offset)
  show ?case
  proof (cases "len = 0")
    case True
    then show ?thesis by (simp add: put_entries.simps entries_of_def entry_adds_def)
  next
    case False
    have "(entry_id + 1) AND (n - 1) = (entry_id + 1) mod n" "(entry_id + 1) mod n < n"
      using next_entry "1.prems" by (blast, simp)
    then show ?thesis
      using "1.IH" [OF False] "1.prems" False entry_adds_Suc [OF "1.prems"(2)] entries_of_step [OF False]
      by (subst put_entries.simps) (simp only: prod.case if_False, simp)
  qed
qed

text \<open>\<open>InitBufRing\<close> provides every entry once, and leaves a ring as the views need it.\<close>

lemma InitBufRing_ok:
  assumes "max_direct_descriptors x = 2 ^ j" and "j \<le> 13" and "length memory = 2 ^ (j + 14)" and "concat_str x = []"
  obtains x' where "InitBufRing memory x = Some (x', entry_adds (2 ^ (j + 2)) 0 0 (2 ^ (j + 2)) @ [BufAdvance (2 ^ (j + 2))])"
    and "ring_ok x'" and "buf_entries x' = 2 ^ (j + 2)" and "buf x' = memory"
proof -
  have "(2::nat) ^ j \<le> 2 ^ 13" using assms(2) by (intro power_increasing) simp_all
  then have sz: "(2 ^ j * io_buffer_size) mod 2 ^ 32 = 2 ^ (j + 14)" by (simp add: power_add)
  have n: "(2::nat) ^ (j + 14) div buf_entry_size = 2 ^ (j + 2)" "(2::nat) ^ (j + 14) mod buf_entry_size = 0"
    by (simp_all add: power_add)
  have le: "(2::nat) ^ (j + 2) \<le> 2 ^ 15" using assms(2) by (intro power_increasing) simp_all
  have "entry_adds (2 ^ (j + 2)) 0 0 (2 ^ (j + 2)) =
      map (\<lambda>i. BufAdd (i * buf_entry_size) buf_entry_size i (int (2 ^ (j + 2)) - 1) i) [0..<2 ^ (j + 2)]"
    by (simp add: entry_adds_def)
  then have "InitBufRing memory x = Some (x\<lparr>buf_entries := 2 ^ (j + 2), buf := memory\<rparr>,
      entry_adds (2 ^ (j + 2)) 0 0 (2 ^ (j + 2)) @ [BufAdvance (2 ^ (j + 2))])"
    using assms(1,3) le by (simp add: InitBufRing_def sz n Let_def power_add)
  moreover have "ring_ok (x\<lparr>buf_entries := 2 ^ (j + 2), buf := memory\<rparr>)"
    using assms(2-4) by (auto simp: ring_ok_def power_add intro!: exI [of _ "j + 2"])
  ultimately show thesis using that by simp
qed

text \<open>
  C37. Receive buffers. For a completion that reports \<open>len\<close> bytes from entry \<open>entry_id\<close> on, also
  when they run over the end of the ring, the view has exactly these bytes, and giving the view
  back after use provides exactly its entries to the kernel again, in order, each at its own
  address, and restores the executor.
\<close>

theorem buffer_view_roundtrip:
  assumes "ring_ok x" and "entry_id < buf_entries x" and "len \<le> length (buf x)"
  shows "\<exists>v x'. GetBufferView entry_id len x = Some (v, x') \<and>
    view_bytes x' v = take len (drop (entry_id * buf_entry_size) (buf x @ buf x)) \<and>
    PutBufferView v x' = Some (x, entry_adds (buf_entries x) entry_id 0 (entries_of len) @ [BufAdvance (entries_of len)])"
proof -
  let ?n = "buf_entries x" and ?off = "entry_id * buf_entry_size" and ?fst = "(buf_entries x - entry_id) * buf_entry_size"
  obtain k where k: "?n = 2 ^ k" "k \<le> 15" and l: "length (buf x) = ?n * buf_entry_size" and c: "concat_str x = []"
    using assms(1) by (auto simp: ring_ok_def)
  have "(2::nat) ^ k \<le> 2 ^ 15" using k(2) by (intro power_increasing) simp_all
  then have e: "entry_id mod 2 ^ 16 = entry_id" using assms(2) k(1) by simp
  note put = put_entries_eq [OF k(1) assms(2), of len 0]
  have split: "length (buf x) = ?off + ?fst" using l assms(2) by (simp add: diff_mult_distrib)
  have ef: "len \<le> ?fst \<longleftrightarrow> entries_of len + entry_id \<le> ?n"
    using entries_of_le [of len "?n - entry_id"] assms(2) by auto
  show ?thesis
  proof (cases "len \<le> ?fst")
    case True
    then have "GetBufferView entry_id len x =
        Some (\<lparr>vplace = InBuf ?off, view_length = len, separated_entry_id = None\<rparr>, x)"
      using ef assms(2) by (simp add: GetBufferView_def entries_of_def)
    then show ?thesis using True split put e by (simp add: view_bytes_def PutBufferView_def)
  next
    case False
    let ?x = "x\<lparr>concat_str := take ?fst (drop ?off (buf x)) @ take (len - ?fst) (buf x)\<rparr>"
    have "GetBufferView entry_id len x =
        Some (\<lparr>vplace = InConcat, view_length = len, separated_entry_id = Some entry_id\<rparr>, ?x)"
      using False ef assms(2) c by (simp add: GetBufferView_def entries_of_def Let_def)
    then show ?thesis using False split put e c assms(3) by (simp add: view_bytes_def PutBufferView_def)
  qed
qed

text \<open>A ring of two entries and 5000 bytes from its last entry on.\<close>

definition example_ring :: ring_executor where
  "example_ring = (RingExecutor_init 4)\<lparr>buf_entries := 2,
     buf := replicate 4096 (CHR ''a'') @ replicate 4096 (CHR ''b'')\<rparr>"

theorem buffer_view_roundtrip_witness:
  "\<exists>v x'. GetBufferView 1 5000 example_ring = Some (v, x') \<and>
    view_bytes x' v = replicate 4096 (CHR ''b'') @ replicate 904 (CHR ''a'') \<and>
    PutBufferView v x' = Some (example_ring,
      [BufAdd 4096 4096 1 1 0, BufAdd 0 4096 0 1 1, BufAdvance 2])"
proof -
  have "ring_ok example_ring"
    by (simp add: ring_ok_def example_ring_def RingExecutor_init_def exI [of _ 1])
  moreover have "entries_of 5000 = 2" by (simp add: entries_of_def)
  moreover have "entry_adds 2 1 0 2 = [BufAdd 4096 4096 1 1 0, BufAdd 0 4096 0 1 1]"
    by (simp add: entry_adds_def numeral_2_eq_2)
  moreover have "take 5000 (drop 4096 (buf example_ring @ buf example_ring)) =
      replicate 4096 (CHR ''b'') @ replicate 904 (CHR ''a'')"
    by (simp add: example_ring_def)
  moreover have "buf_entries example_ring = 2" "length (buf example_ring) = 8192" by (simp_all add: example_ring_def)
  ultimately show ?thesis
    using buffer_view_roundtrip [of example_ring 1 5000] by (simp del: One_nat_def)
qed

section \<open>The event loop\<close>

fun resumed :: "loop_call list \<Rightarrow> cqe list" where
  "resumed [] = []"
| "resumed (Resume c # calls) = c # resumed calls"
| "resumed (_ # calls) = resumed calls"

fun advanced_by :: "loop_call list \<Rightarrow> nat" where
  "advanced_by [] = 0"
| "advanced_by (CqAdvance n # calls) = n + advanced_by calls"
| "advanced_by (_ # calls) = advanced_by calls"

lemma mod_step: "(m :: nat) > 0 \<Longrightarrow> (p + 1) mod m = (if p mod m + 1 = m then 0 else p mod m + 1)"
  by (simp add: mod_Suc)

lemma for_each_cqe_resumed: "resumed (for_each_cqe b cs p) = takeWhile (\<lambda>c. user_data c \<noteq> 0) cs"
  by (induction b cs p rule: for_each_cqe.induct) simp_all

lemma for_each_cqe_advanced:
  assumes "b > 0" and "\<forall>c\<in>set cs. user_data c \<noteq> 0"
  shows "advanced_by (for_each_cqe b cs p) = p mod b + length cs"
  using assms
proof (induction b cs p rule: for_each_cqe.induct)
  case (2 b c cs p)
  then show ?case using mod_step [of b p] by (auto split: if_splits)
qed simp

lemma for_each_cqe_woken:
  assumes "b > 0" and "\<forall>c\<in>set cs. user_data c \<noteq> 0" and "user_data z = 0"
  shows "advanced_by (for_each_cqe b (cs @ z # rest) p) =
    (if (p + length cs + 1) mod b = 0 then p mod b + length cs + 1 - b else p mod b + length cs + 1)"
  using assms
proof (induction cs arbitrary: p)
  case Nil
  then show ?case using mod_step [of b p] by (auto split: if_splits)
next
  case (Cons c cs)
  have "b \<le> length cs + 1 + (p + 1) mod b" if "(p + 1 + length cs + 1) mod b = 0"
  proof -
    have "((p + 1) mod b + (length cs + 1)) mod b = 0" 
      using that unfolding mod_add_left_eq by (simp add: add.assoc)
    then have "b dvd (p + 1) mod b + (length cs + 1)" by (rule mod_0_imp_dvd)
    then show ?thesis using dvd_imp_le [of b "(p + 1) mod b + (length cs + 1)"] by simp
  qed
  then show ?case using Cons mod_step [of b p] by (auto split: if_splits)
qed

text \<open>
  A round of the event loop, for every batch size. Every completion in the queue is resumed
  once, in order, and exactly these are removed from the queue. A message that only wakes the loop
  ends the round: the completions before it are resumed, those behind it stay in the queue.
\<close>

theorem event_loop_reaps:
  assumes "\<forall>c\<in>set cqes. user_data c \<noteq> 0"
  shows "resumed (EventLoop_round batch cqes) = cqes \<and> advanced_by (EventLoop_round batch cqes) = length cqes \<and>
    resumed (EventLoop_round batch (cqes @ c0\<lparr>user_data := 0\<rparr> # rest)) = cqes"
  using assms for_each_cqe_advanced [of "max 1 batch" cqes 0]
  by (simp add: EventLoop_round_def for_each_cqe_resumed takeWhile_append2 takeWhile_eq_all_conv [THEN iffD2])

definition example_cqes :: "cqe list" where
  "example_cqes = map (\<lambda>i. \<lparr>user_data = i, cqe_res = 0, cqe_flags = 0\<rparr>) [1, 2, 3]"

theorem event_loop_reaps_witness:
  "resumed (EventLoop_round 2 example_cqes) = example_cqes \<and> advanced_by (EventLoop_round 2 example_cqes) = 3"
  using event_loop_reaps [of example_cqes 2] by (simp add: example_cqes_def)

end
