(* ===== verification/Ini.thy ===== *)
theory Ini
  imports Config "HOL-Library.List_Lexorder" "HOL-Library.Char_ord"
begin

text \<open>
  The INI reader and writer \<open>src/src/external/tortellini.hh\<close>. A section and a file are
  \<open>std::map\<close>s with a case-insensitive order: lists of pairs, sorted by the key in lower case. The
  lemmas show that reading a written file gives the file back and that a number is read as it was
  written.
\<close>

section \<open>Case-insensitive maps\<close>

definition ci_key :: "string \<Rightarrow> string" where
  "ci_key = map tolower"

definition ci_compare :: "string \<Rightarrow> string \<Rightarrow> bool" where
  "ci_compare l r \<longleftrightarrow> length l = length r \<and> list_all2 (\<lambda>a b. tolower a = tolower b) l r"

text \<open>\<open>m[k] = v\<close>: an equivalent key keeps its spelling.\<close>

fun ci_put :: "string \<Rightarrow> 'v \<Rightarrow> (string \<times> 'v) list \<Rightarrow> (string \<times> 'v) list" where
  "ci_put k v [] = [(k, v)]"
| "ci_put k v ((k', v') # m) =
     (if ci_key k < ci_key k' then (k, v) # (k', v') # m
      else if ci_key k' < ci_key k then (k', v') # ci_put k v m
      else (k', v) # m)"

text \<open>
  \<open>m[k]\<close> on a read: an absent key gives the empty value \<open>e\<close>. The entry that \<open>operator[]\<close> creates
  then is left out: it is empty, and an empty value reads and prints as an absent one.
\<close>

fun ci_get :: "'v \<Rightarrow> string \<Rightarrow> (string \<times> 'v) list \<Rightarrow> 'v" where
  "ci_get e k [] = e"
| "ci_get e k ((k', v) # m) = (if ci_key k = ci_key k' then v else ci_get e k m)"

type_synonym ini_section = "(string \<times> string) list"
type_synonym ini = "(string \<times> ini_section) list"

definition ini_put :: "string \<Rightarrow> string \<Rightarrow> string \<Rightarrow> ini \<Rightarrow> ini" where
  "ini_put name key v ini = ci_put name (ci_put key v (ci_get [] name ini)) ini"

section \<open>Reading\<close>

definition ltrim :: "string \<Rightarrow> string" where
  "ltrim s = dropWhile isspace s"

definition rtrim :: "string \<Rightarrow> string" where
  "rtrim s = rev (dropWhile isspace (rev s))"

definition trim :: "string \<Rightarrow> string" where
  "trim s = rtrim (ltrim s)"

text \<open>The lines that \<open>std::getline\<close> returns.\<close>

fun getlines :: "string \<Rightarrow> string list" where
  "getlines [] = []"
| "getlines (c # cs) =
     (if c = LF then [] # getlines cs
      else case getlines cs of [] \<Rightarrow> [[c]] | l # ls \<Rightarrow> (c # l) # ls)"

definition BOM :: string where
  "BOM = [CHR 0xEF, CHR 0xBB, CHR 0xBF]"

fun strip_bom :: "string list \<Rightarrow> string list" where
  "strip_bom [] = []"
| "strip_bom (l # ls) = (if length l \<ge> 3 \<and> take 3 l = BOM then drop 3 l else l) # ls"

text \<open>One line, with the name of the section it belongs to and what was read so far.\<close>

definition parse_line :: "string \<times> ini \<Rightarrow> string \<Rightarrow> string \<times> ini" where
  "parse_line = (\<lambda>(section_name, ini) l.
     let line = trim l
     in if line = [] then (section_name, ini)
        else if line ! 0 = CHR ''[''
        then (if CHR '']'' \<notin> set line then (section_name, ini)
              else (let idx = length (takeWhile (\<lambda>c. c \<noteq> CHR '']'') line)
                    in (trim (take (idx - 1) (drop 1 line)), ini)))
        else if CHR ''='' \<notin> set line then (section_name, ini)
        else (let idx = length (takeWhile (\<lambda>c. c \<noteq> CHR ''='') line);
                  key = trim (take idx line)
              in if key = [] then (section_name, ini)
                 else (let v = trim (drop (idx + 1) line)
                       in if v = [] then (section_name, ini) else (section_name, ini_put section_name key v ini))))"

definition ini_read :: "string \<Rightarrow> ini \<Rightarrow> ini" where
  "ini_read text ini = snd (foldl parse_line ([], ini) (strip_bom (getlines text)))"

section \<open>Writing\<close>

definition written :: "string \<times> string \<Rightarrow> bool" where
  "written kv \<longleftrightarrow> fst kv \<noteq> [] \<and> snd kv \<noteq> []"

definition kv_line :: "string \<times> string \<Rightarrow> string" where
  "kv_line kv = fst kv @ '' = '' @ snd kv @ [LF]"

fun write_sections :: "bool \<Rightarrow> ini \<Rightarrow> string" where
  "write_sections has_sections [] = []"
| "write_sections has_sections ((name, kvs) # rest) =
     (if name = [] \<or> filter written kvs = [] then write_sections has_sections rest
      else (if has_sections then [LF] else []) @ CHR ''['' # name @ CHR '']'' # LF #
        concat (map kv_line (filter written kvs)) @ write_sections True rest)"

definition ini_write :: "ini \<Rightarrow> string" where
  "ini_write ini =
     (let kvs = filter written (ci_get [] [] ini)
      in concat (map kv_line kvs) @ write_sections (kvs \<noteq> []) ini)"

section \<open>Values\<close>

text \<open>
  \<open>std::stoul(s, &idx, 0)\<close> with 64-bit \<open>unsigned long\<close>: leading spaces, a sign (a negative number
  is negated modulo \<open>2 ^ 64\<close>), and digits, in base 16 after \<open>0x\<close>, in base 8 after \<open>0\<close>, in base 10
  otherwise. \<open>None\<close> is an exception; the number is the index of the first character not read.
\<close>

definition digit_of :: "char \<Rightarrow> nat" where
  "digit_of c =
     (let n = of_char c :: nat
      in if 48 \<le> n \<and> n \<le> 57 then n - 48
         else if 97 \<le> n \<and> n \<le> 122 then n - 87
         else if 65 \<le> n \<and> n \<le> 90 then n - 55
         else 36)"

definition value_in :: "nat \<Rightarrow> string \<Rightarrow> nat" where
  "value_in base ds = foldl (\<lambda>acc c. acc * base + digit_of c) 0 ds"

definition stoul :: "string \<Rightarrow> (nat \<times> nat) option" where
  "stoul s =
     (let spaces = length (takeWhile isspace s); s1 = drop spaces s;
          signed = (s1 \<noteq> [] \<and> (hd s1 = CHR ''-'' \<or> hd s1 = CHR ''+''));
          neg = (signed \<and> hd s1 = CHR ''-'');
          s2 = (if signed then tl s1 else s1);
          hex = (length s2 \<ge> 3 \<and> s2 ! 0 = CHR ''0'' \<and> tolower (s2 ! 1) = CHR ''x'' \<and> digit_of (s2 ! 2) < 16);
          base = (if hex then 16 else if s2 \<noteq> [] \<and> hd s2 = CHR ''0'' then 8 else 10);
          ds = takeWhile (\<lambda>c. digit_of c < base) (if hex then drop 2 s2 else s2);
          n = value_in base ds;
          idx = spaces + (if signed then 1 else 0) + (if hex then 2 else 0) + length ds
      in if ds = [] \<or> n \<ge> 2 ^ 64 then None
         else Some (if neg then (2 ^ 64 - n) mod 2 ^ 64 else n, idx))"

text \<open>The operators \<open>|\<close> of a value with a fallback.\<close>

definition value_ulong :: "string \<Rightarrow> nat \<Rightarrow> nat" where
  "value_ulong s fallback =
     (if s = [] then fallback
      else case stoul s of
        None \<Rightarrow> fallback
      | Some (res, idx) \<Rightarrow> (if idx < length s \<and> s ! idx \<noteq> CHR 0x00 then fallback else res))"

definition value_uint :: "string \<Rightarrow> nat \<Rightarrow> nat" where
  "value_uint s fallback =
     (case stoul s of
        None \<Rightarrow> fallback
      | Some (ul, idx) \<Rightarrow> (if ul > 2 ^ 32 - 1 then fallback else ul))"

definition value_bool :: "string \<Rightarrow> bool \<Rightarrow> bool" where
  "value_bool s fallback =
     (if s = [] then fallback else ci_compare s ''1'' \<or> ci_compare s ''true'' \<or> ci_compare s ''yes'')"

definition value_string :: "string \<Rightarrow> string \<Rightarrow> string" where
  "value_string s fallback = (if s = [] then fallback else s)"

section \<open>Maps in order\<close>

definition ci_sorted :: "(string \<times> 'v) list \<Rightarrow> bool" where
  "ci_sorted m \<longleftrightarrow> sorted_wrt (\<lambda>a b. ci_key (fst a) < ci_key (fst b)) m"

lemma ci_put_snoc: "(\<And>x. x \<in> set m \<Longrightarrow> ci_key (fst x) < ci_key k) \<Longrightarrow> ci_put k v m = m @ [(k, v)]"
proof (induction m)
  case (Cons a m)
  have "ci_key (fst a) < ci_key k" using Cons.prems by simp
  then have "\<not> ci_key k < ci_key (fst a)" by simp
  then show ?case using Cons \<open>ci_key (fst a) < ci_key k\<close> by (cases a) simp
qed simp

lemma ci_put_last: "(\<And>x. x \<in> set m \<Longrightarrow> ci_key (fst x) < ci_key k) \<Longrightarrow> ci_put k v (m @ [(k, w)]) = m @ [(k, v)]"
proof (induction m)
  case (Cons a m)
  have "ci_key (fst a) < ci_key k" using Cons.prems by simp
  then have "\<not> ci_key k < ci_key (fst a)" by simp
  then show ?case using Cons \<open>ci_key (fst a) < ci_key k\<close> by (cases a) simp
qed simp

lemma ci_get_above: "(\<And>x. x \<in> set m \<Longrightarrow> ci_key (fst x) < ci_key k) \<Longrightarrow> ci_get e k (m @ m') = ci_get e k m'"
proof (induction m)
  case (Cons a m)
  have "ci_key (fst a) < ci_key k" using Cons.prems by simp
  then have "ci_key k \<noteq> ci_key (fst a)" by auto
  then show ?case using Cons by (cases a) simp
qed simp

section \<open>Lines\<close>

text \<open>Words that a line can hold: not empty, without a line break, without spaces at the ends.\<close>

definition word_ok :: "string \<Rightarrow> bool" where
  "word_ok s \<longleftrightarrow> s \<noteq> [] \<and> LF \<notin> set s \<and> \<not> isspace (hd s) \<and> \<not> isspace (last s)"

definition key_ok :: "string \<Rightarrow> bool" where
  "key_ok k \<longleftrightarrow> word_ok k \<and> CHR ''='' \<notin> set k \<and> hd k \<noteq> CHR ''['' \<and> hd k \<noteq> CHR 0xEF"

definition name_ok :: "string \<Rightarrow> bool" where
  "name_ok s \<longleftrightarrow> (s = [] \<or> word_ok s) \<and> CHR '']'' \<notin> set s"

lemma rtrim_snoc: "rtrim (s @ [c]) = (if isspace c then rtrim s else s @ [c])"
  by (simp add: rtrim_def)

lemma trim_id: "s \<noteq> [] \<Longrightarrow> \<not> isspace (hd s) \<Longrightarrow> \<not> isspace (last s) \<Longrightarrow> trim s = s"
proof -
  assume a: "s \<noteq> []" "\<not> isspace (hd s)" "\<not> isspace (last s)"
  then have "ltrim s = s" by (simp add: ltrim_def dropWhile_eq_self_iff)
  then show "trim s = s" using a by (cases s rule: rev_cases) (simp_all add: trim_def rtrim_snoc)
qed

lemma trim_Nil [simp]: "trim [] = []"
  by (simp add: trim_def ltrim_def rtrim_def)

lemma isspace_space [simp]: "isspace CHR '' ''" "\<not> isspace CHR ''[''" "\<not> isspace CHR '']''"
  by (simp_all add: isspace_def)

lemma trim_pad:
  assumes "word_ok s"
  shows "trim (s @ '' '') = s" and "trim ('' '' @ s) = s" and "trim s = s"
proof -
  have t: "trim s = s" using assms trim_id by (simp add: word_ok_def)
  have "ltrim (s @ '' '') = s @ '' ''" using assms by (cases s) (simp_all add: word_ok_def ltrim_def)
  moreover have "ltrim s = s" using assms by (cases s) (simp_all add: word_ok_def ltrim_def)
  ultimately show "trim (s @ '' '') = s" using t by (simp add: trim_def rtrim_snoc)
  show "trim ('' '' @ s) = s" using t by (simp add: trim_def ltrim_def)
  show "trim s = s" by (rule t)
qed

definition kv_text :: "string \<times> string \<Rightarrow> string" where
  "kv_text kv = fst kv @ '' = '' @ snd kv"

lemma parse_line_kv:
  assumes "key_ok k" and "word_ok v"
  shows "parse_line (name, ini) (kv_text (k, v)) = (name, ini_put name k v ini)"
proof -
  let ?l = "k @ '' = '' @ v"
  have k: "word_ok k" "k \<noteq> []" using assms(1) by (simp_all add: key_ok_def word_ok_def)
  have "trim ?l = ?l" using assms k by (intro trim_id) (simp_all add: word_ok_def)
  moreover have "takeWhile (\<lambda>c. c \<noteq> CHR ''='') ?l = k @ '' ''"
    using assms(1) by (auto simp: key_ok_def takeWhile_append)
  moreover have "?l ! 0 \<noteq> CHR ''[''" using assms(1) k by (cases k) (simp_all add: key_ok_def)
  moreover have "trim (take (length (k @ '' '')) ?l) = k" using trim_pad(1) [OF k(1)] by simp
  moreover have "trim (drop (length (k @ '' '') + 1) ?l) = v" using trim_pad(2) [OF assms(2)] by simp
  moreover have "v \<noteq> []" using assms(2) by (simp add: word_ok_def)
  ultimately show ?thesis using k(2) by (simp add: parse_line_def kv_text_def Let_def)
qed

lemma parse_line_section:
  assumes "name_ok name"
  shows "parse_line (nm, ini) (CHR ''['' # name @ '']'') = (name, ini)"
proof -
  let ?l = "CHR ''['' # name @ '']''"
  have "trim ?l = ?l" by (intro trim_id) simp_all
  moreover have "takeWhile (\<lambda>c. c \<noteq> CHR '']'') ?l = CHR ''['' # name"
    using assms by (auto simp: name_ok_def takeWhile_append)
  moreover have "trim name = name" using assms trim_pad(3) by (auto simp: name_ok_def)
  ultimately show ?thesis by (simp add: parse_line_def Let_def)
qed

lemma parse_line_blank: "parse_line x [] = x"
  by (cases x) (simp add: parse_line_def)

lemma getlines_line: "LF \<notin> set l \<Longrightarrow> getlines (l @ LF # rest) = l # getlines rest"
  by (induction l) auto

lemma getlines_kvs:
  "list_all (\<lambda>(k, v). key_ok k \<and> word_ok v) kvs \<Longrightarrow>
    getlines (concat (map kv_line kvs) @ rest) = map kv_text kvs @ getlines rest"
proof (induction kvs)
  case (Cons kv kvs)
  have "LF \<notin> set (kv_text kv)" using Cons.prems by (auto simp: kv_text_def key_ok_def word_ok_def)
  from getlines_line [OF this] have "getlines (kv_text kv @ LF # concat (map kv_line kvs) @ rest) =
      kv_text kv # getlines (concat (map kv_line kvs) @ rest)" .
  moreover have "kv_line kv = kv_text kv @ [LF]" by (simp add: kv_line_def kv_text_def)
  ultimately show ?case using Cons by simp
qed simp

section \<open>Round trip\<close>

definition section_ok :: "string \<times> ini_section \<Rightarrow> bool" where
  "section_ok x \<longleftrightarrow> name_ok (fst x) \<and> snd x \<noteq> [] \<and> ci_sorted (snd x) \<and> list_all (\<lambda>(k, v). key_ok k \<and> word_ok v) (snd x)"

definition ini_ok :: "ini \<Rightarrow> bool" where
  "ini_ok ini \<longleftrightarrow> ci_sorted ini \<and> list_all section_ok ini"

lemma read_kvs:
  assumes "\<And>x. x \<in> set acc \<Longrightarrow> ci_key (fst x) < ci_key name" and "ci_sorted (kvs0 @ kvs)"
    and "list_all (\<lambda>(k, v). key_ok k \<and> word_ok v) kvs"
  shows "foldl parse_line (name, acc @ [(name, kvs0)]) (map kv_text kvs) = (name, acc @ [(name, kvs0 @ kvs)])"
  using assms(2,3)
proof (induction kvs arbitrary: kvs0)
  case (Cons kv kvs)
  obtain k v where kv: "kv = (k, v)" by (metis surj_pair)
  have "ci_get [] name (acc @ [(name, kvs0)]) = kvs0" using ci_get_above [OF assms(1)] by simp
  moreover have "ci_put k v kvs0 = kvs0 @ [(k, v)]"
    using Cons.prems(1) kv by (intro ci_put_snoc) (auto simp: ci_sorted_def sorted_wrt_append)
  ultimately have "parse_line (name, acc @ [(name, kvs0)]) (kv_text kv) = (name, acc @ [(name, kvs0 @ [kv])])"
    using parse_line_kv Cons.prems(2) kv ci_put_last [OF assms(1)] by (simp add: ini_put_def)
  then show ?case using Cons.IH [of "kvs0 @ [kv]"] Cons.prems by simp
qed simp

lemma read_section:
  assumes "\<And>x. x \<in> set acc \<Longrightarrow> ci_key (fst x) < ci_key name" and "section_ok (name, kvs)"
  shows "foldl parse_line (name, acc) (map kv_text kvs) = (name, acc @ [(name, kvs)])"
proof -
  obtain k v kvs' where kvs: "kvs = (k, v) # kvs'" using assms(2) by (cases kvs) (auto simp: section_ok_def)
  have "ci_get [] name acc = []" using ci_get_above [OF assms(1), where e = "[]" and m' = "[]"] by simp
  then have "parse_line (name, acc) (kv_text (k, v)) = (name, acc @ [(name, [(k, v)])])"
    using parse_line_kv assms(2) kvs ci_put_snoc [OF assms(1)] by (simp add: section_ok_def ini_put_def)
  then show ?thesis using read_kvs [OF assms(1), where ?kvs0.0 = "[(k, v)]" and kvs = kvs'] assms(2) kvs by (simp add: section_ok_def)
qed

lemma filter_written: "list_all (\<lambda>(k, v). key_ok k \<and> word_ok v) kvs \<Longrightarrow> filter written kvs = kvs"
  by (induction kvs) (auto simp: written_def key_ok_def word_ok_def)

lemma read_sections:
  assumes "\<And>x y. x \<in> set acc \<Longrightarrow> y \<in> set rest \<Longrightarrow> ci_key (fst x) < ci_key (fst y)"
    and "ini_ok rest" and "\<And>x. x \<in> set rest \<Longrightarrow> fst x \<noteq> []"
  shows "snd (foldl parse_line (nm, acc) (getlines (write_sections has rest))) = acc @ rest"
  using assms
proof (induction rest arbitrary: acc nm has)
  case (Cons x rest)
  obtain name kvs where x: "x = (name, kvs)" by (metis surj_pair)
  have ok: "section_ok (name, kvs)" "list_all (\<lambda>(k, v). key_ok k \<and> word_ok v) kvs" "name_ok name" "name \<noteq> []" "kvs \<noteq> []"
    using Cons.prems(2) Cons.prems(3) [of x] x by (simp_all add: ini_ok_def section_ok_def)
  let ?t = "CHR ''['' # name @ '']''" and ?r = "write_sections True rest"
  have w: "write_sections has (x # rest) = (if has then [LF] else []) @ ?t @ LF # concat (map kv_line kvs) @ ?r"
    using ok filter_written x by simp
  have "LF \<notin> set ?t" using ok(3) by (auto simp: name_ok_def word_ok_def)
  then have "getlines (write_sections has (x # rest)) = (if has then [[]] else []) @ ?t # map kv_text kvs @ getlines ?r"
    unfolding w using getlines_kvs [OF ok(2)] getlines_line [of ?t] by (simp add: getlines_line)
  moreover have "parse_line (nm, acc) ?t = (name, acc)" by (rule parse_line_section [OF ok(3)])
  moreover have "foldl parse_line (name, acc) (map kv_text kvs) = (name, acc @ [x])"
    using read_section [OF _ ok(1), of acc] Cons.prems(1) [of _ x] x by simp
  moreover have "snd (foldl parse_line (name, acc @ [x]) (getlines ?r)) = (acc @ [x]) @ rest"
  proof (rule Cons.IH)
    show "ini_ok rest" using Cons.prems(2) by (simp add: ini_ok_def ci_sorted_def)
    show "ci_key (fst y) < ci_key (fst z)" if "y \<in> set (acc @ [x])" "z \<in> set rest" for y z
      using that Cons.prems(1) [of y z] Cons.prems(2) by (auto simp: ini_ok_def ci_sorted_def)
  qed (use Cons.prems(3) in simp)
  ultimately show ?case using parse_line_blank by simp
qed simp

lemma strip_bom_id: "ls = [] \<or> hd ls = [] \<or> hd (hd ls) \<noteq> CHR 0xEF \<Longrightarrow> strip_bom ls = ls"
  by (cases ls; cases "hd ls") (auto simp: BOM_def numeral_3_eq_3)

lemma bracket_line: "hd (hd (getlines (CHR ''['' # cs))) = CHR ''[''"
  by (simp split: list.split)

lemma ci_key_Nil [simp]: "ci_key [] = []" "ci_key s = [] \<longleftrightarrow> s = []" "[] < ci_key s \<longleftrightarrow> s \<noteq> []"
  by (cases s; simp add: ci_key_def)+

lemma first_line_plain:
  assumes "section_ok (name, kvs)"
  shows "hd (kv_text (hd kvs)) \<noteq> CHR 0xEF" "kv_text (hd kvs) \<noteq> []"
  using assms by (cases kvs; auto simp: section_ok_def key_ok_def word_ok_def kv_text_def)+

lemma ini_read_write:
  assumes "ini_ok ini"
  shows "ini_read (ini_write ini) [] = ini"
proof (cases "\<exists>kvs rest. ini = ([], kvs) # rest")
  case True
  then obtain kvs rest where ini: "ini = ([], kvs) # rest" by blast
  have ok: "section_ok ([], kvs)" "ini_ok rest" "list_all (\<lambda>(k, v). key_ok k \<and> word_ok v) kvs" "kvs \<noteq> []"
    using assms ini by (auto simp: ini_ok_def ci_sorted_def section_ok_def)
  have ne: "fst x \<noteq> []" if "x \<in> set rest" for x
    using assms that unfolding ini ini_ok_def ci_sorted_def by auto
  have "ini_write ini = concat (map kv_line kvs) @ write_sections True rest"
    using ini filter_written [OF ok(3)] ok(4) by (simp add: ini_write_def)
  then have g: "getlines (ini_write ini) = map kv_text kvs @ getlines (write_sections True rest)"
    using getlines_kvs [OF ok(3)] by simp
  have "strip_bom (getlines (ini_write ini)) = getlines (ini_write ini)"
    using first_line_plain [OF ok(1)] ok(4) g by (intro strip_bom_id) (cases kvs; simp)
  moreover have "foldl parse_line ([], []) (map kv_text kvs) = ([], [([], kvs)])"
    using read_section [OF _ ok(1), of "[]"] by simp
  moreover have "snd (foldl parse_line ([], [([], kvs)]) (getlines (write_sections True rest))) = [([], kvs)] @ rest"
    by (rule read_sections [OF _ ok(2) ne]) (use ne in auto)
  ultimately show ?thesis using g ini by (simp add: ini_read_def)
next
  case False
  have ne: "fst x \<noteq> []" if x: "x \<in> set ini" for x
  proof (cases ini)
    case (Cons y rest)
    then have "fst y \<noteq> []" using False by (cases y) auto
    moreover have "ci_key (fst y) < ci_key (fst x)" if "x \<in> set rest"
      using assms that Cons by (simp add: ini_ok_def ci_sorted_def)
    ultimately show ?thesis using x Cons by (cases "x = y") auto
  qed (use x in simp)
  have "ci_get [] [] m = []" if "\<forall>x\<in>set m. fst x \<noteq> []" for m :: ini
  proof -
    have "[] \<noteq> ci_key a" if "a \<noteq> []" for a using that by (cases a) (simp_all add: ci_key_def)
    then show ?thesis using that by (induction m) auto
  qed
  then have w: "ini_write ini = write_sections False ini" using ne by (simp add: ini_write_def)
  have "write_sections False ini = [] \<or> (\<exists>cs. write_sections False ini = CHR ''['' # cs)"
  proof (cases ini)
    case (Cons y rest)
    then have "fst y \<noteq> []" "filter written (snd y) \<noteq> []"
      using assms ne [of y] filter_written [of "snd y"] by (simp_all add: ini_ok_def section_ok_def)
    then show ?thesis using Cons by (cases y) simp
  qed simp
  then have "strip_bom (getlines (ini_write ini)) = getlines (ini_write ini)"
    unfolding w using bracket_line by (intro strip_bom_id) auto
  moreover have "snd (foldl parse_line ([], []) (getlines (write_sections False ini))) = [] @ ini"
    by (rule read_sections [OF _ assms ne]) auto
  ultimately show ?thesis using w by (simp add: ini_read_def)
qed

text \<open>
  C38. Reading back a written file. For every file with its sections and keys in order (as the
  maps have them), no empty section and words that a line can hold, reading what was written gives
  exactly the file.
\<close>

theorem ini_roundtrip:
  assumes "ini_ok ini"
  shows "ini_read (ini_write ini) [] = ini"
  using assms by (rule ini_read_write)

definition example_ini :: ini where
  "example_ini = [([], [(''a'', ''1'')]), (''redis'', [(''hz'', ''20''), (''port'', ''70'')])]"

theorem ini_roundtrip_witness: "ini_read (ini_write example_ini) [] = example_ini"
proof (rule ini_roundtrip)
  have "CHR ''h'' < CHR ''p''" by (simp add: less_char_def)
  then have "ci_key ''hz'' < ci_key ''port''" by (simp add: ci_key_def tolower_def)
  then show "ini_ok example_ini"
    by (simp add: ini_ok_def example_ini_def ci_sorted_def section_ok_def key_ok_def name_ok_def word_ok_def isspace_def)
qed

section \<open>Numbers\<close>

lemma digit_of_digit: "is_digit c \<Longrightarrow> digit_of c = digit_value c \<and> digit_value c < 10 \<and> \<not> isspace c"
  by (auto simp: is_digit_def digit_of_def digit_value_def isspace_def)

lemma value_in_digits: "list_all is_digit ds \<Longrightarrow> value_in 10 ds = digits_value ds"
proof -
  have "foldl (\<lambda>acc c. acc * 10 + digit_of c) a ds = foldl (\<lambda>acc c. acc * 10 + digit_value c) a ds" if "list_all is_digit ds" for a
    using that by (induction ds arbitrary: a) (auto simp: digit_of_digit)
  then show "list_all is_digit ds \<Longrightarrow> value_in 10 ds = digits_value ds" by (simp add: value_in_def digits_value_def)
qed

lemma hd_nat_digits_0: "hd (nat_digits n) = CHR ''0'' \<Longrightarrow> n = 0"
proof (induction n rule: nat_digits.induct)
  case (1 n)
  show ?case
  proof (cases "n < 10")
    case True
    then have "digit_char n = CHR ''0''" using "1.prems" by (subst (asm) nat_digits.simps) simp
    then show ?thesis using of_digit_char [OF True] by simp
  next
    case False
    then have "hd (nat_digits (n div 10)) = CHR ''0''" using "1.prems" by (subst (asm) nat_digits.simps) simp
    then show ?thesis using "1.IH" [OF False] False by simp
  qed
qed

text \<open>A number in decimal is read as it was written.\<close>

lemma stoul_nat_digits:
  assumes "n < 2 ^ 64"
  shows "stoul (nat_digits n) = Some (n, length (nat_digits n))"
proof (cases "n = 0")
  case True
  then have "nat_digits n = ''0''" by (subst nat_digits.simps) (simp add: digit_char_def char_of_eq_iff)
  then show ?thesis using True by (simp add: stoul_def Let_def isspace_def digit_of_def value_in_def)
next
  case False
  let ?s = "nat_digits n"
  have d: "list_all is_digit ?s" "?s \<noteq> []" using nat_digits_are_digits by simp_all
  then have h: "is_digit (hd ?s)" by (cases ?s) auto
  have z: "hd ?s \<noteq> CHR ''0''" using hd_nat_digits_0 False by blast
  have "?s ! 0 = hd ?s" using d(2) by (simp add: hd_conv_nth)
  moreover have "takeWhile isspace ?s = []" using h d(2) digit_of_digit [of "hd ?s"] by (cases ?s) auto
  moreover have "hd ?s \<noteq> CHR ''-''" "hd ?s \<noteq> CHR ''+''" using h by (auto simp: is_digit_def)
  moreover have "takeWhile (\<lambda>c. digit_of c < 10) ?s = ?s"
    using d(1) digit_of_digit by (auto simp: list_all_iff takeWhile_eq_all_conv)
  moreover have "\<not> (3 \<le> length ?s \<and> ?s ! 0 = CHR ''0'' \<and> tolower (?s ! 1) = CHR ''x'' \<and> digit_of (?s ! 2) < 16)"
    using z calculation(1) by simp
  ultimately show ?thesis using d z assms value_in_digits [OF d(1)]
    by (simp add: stoul_def Let_def del: takeWhile_eq_all_conv)
qed

lemma value_number:
  "n < 2 ^ 64 \<Longrightarrow> value_ulong (nat_digits n) fallback = n"
  "n < 2 ^ 32 \<Longrightarrow> value_uint (nat_digits n) fallback = n"
  by (simp_all add: value_ulong_def value_uint_def stoul_nat_digits)

lemma stoul_result:
  "(if e \<or> n \<ge> 2 ^ 64 then None else Some (if neg then (2 ^ 64 - n) mod 2 ^ 64 else n, i)) = Some (m, j) \<Longrightarrow> m < (2 ^ 64 :: nat)"
  by (auto split: if_splits)

lemma stoul_bound: "stoul s = Some (n, idx) \<Longrightarrow> n < 2 ^ 64"
  unfolding stoul_def Let_def by (rule stoul_result)

lemma value_bound:
  "fallback < 2 ^ 64 \<Longrightarrow> value_ulong s fallback < 2 ^ 64"
  "fallback < 2 ^ 32 \<Longrightarrow> value_uint s fallback < 2 ^ 32"
  by (auto simp: value_ulong_def value_uint_def split: option.splits dest: stoul_bound)

end
