(* ===== verification/ConfigFile.thy ===== *)
theory ConfigFile
  imports Ini
begin

text \<open>
  \<open>Config::ReadFromFile\<close> of \<open>src/src/base/config.cc\<close>: the configuration from the text of an INI
  file. A file that cannot be opened reads as an empty one. \<open>LOG(FATAL)\<close> on an unknown eviction
  policy, which ends the process, is \<open>None\<close>.
\<close>

definition ReadFromFile :: "string \<Rightarrow> config \<Rightarrow> config option" where
  "ReadFromFile file c =
     (let ini = ini_read file [];
          redis_section = (\<lambda>key. ci_get [] key (ci_get [] ''redis'' ini));
          rdss_section = (\<lambda>key. ci_get [] key (ci_get [] ''rdss'' ini));
          clients0 = value_uint (redis_section ''maxclients'') 10000
      in map_option (\<lambda>policy.
           \<lparr>port = value_uint (redis_section ''port'') 6379 mod 2 ^ 16,
            hz = value_uint (redis_section ''hz'') 10,
            maxclients = (if clients0 = 0 then 10000 else clients0),
            maxmemory = value_ulong (redis_section ''maxmemory'') (maxmemory c),
            maxmemory_policy = policy,
            maxmemory_samples = value_uint (redis_section ''maxmemory-samples'') 5,
            active_expire_cycle_time_percent = value_uint (redis_section ''active_expire_cycle_time_percent'') 25,
            active_expire_acceptable_stale_percent = value_uint (redis_section ''active_expire_acceptable_stale_percent'') 10,
            active_expire_keys_per_loop = value_uint (redis_section ''active_expire_keys_per_loop'') 20,
            client_executors = value_uint (rdss_section ''client_executors'') 2,
            sqpoll = value_bool (rdss_section ''sqpoll'') False,
            max_direct_fds_per_exr = value_uint (rdss_section ''max_direct_fds_per_exr'') 4096,
            use_ring_buffer = value_bool (rdss_section ''use_ring_buffer'') True,
            submit_batch_size = value_uint (rdss_section ''submit_batch_size'') 32,
            wait_batch_size = value_uint (rdss_section ''wait_batch_size'') 1\<rparr>)
         (MaxmemoryPolicyStrToEnum (value_string (redis_section ''maxmemory-policy'') ''noeviction'')))"

section \<open>The values a configuration can have\<close>

definition config_ok :: "config \<Rightarrow> bool" where
  "config_ok c \<longleftrightarrow> port c < 2 ^ 16 \<and> hz c < 2 ^ 32 \<and> 0 < maxclients c \<and> maxclients c < 2 ^ 32 \<and> maxmemory c < 2 ^ 64 \<and>
     maxmemory_samples c < 2 ^ 32 \<and> active_expire_cycle_time_percent c < 2 ^ 32 \<and>
     active_expire_acceptable_stale_percent c < 2 ^ 32 \<and> active_expire_keys_per_loop c < 2 ^ 32 \<and>
     client_executors c < 2 ^ 32 \<and> max_direct_fds_per_exr c < 2 ^ 32 \<and> submit_batch_size c < 2 ^ 32 \<and>
     wait_batch_size c < 2 ^ 32"

lemma ReadFromFile_ok:
  assumes "maxmemory c < 2 ^ 64" and "ReadFromFile file c = Some c'"
  shows "config_ok c'"
proof -
  have u: "f < 2 ^ 32 \<Longrightarrow> value_uint s f < 2 ^ 32" for s f by (rule value_bound)
  have "value_ulong s (maxmemory c) < 2 ^ 64" for s by (rule value_bound(1) [OF assms(1)])
  then show ?thesis using assms(2) u unfolding ReadFromFile_def Let_def config_ok_def
    by auto
qed

section \<open>A file that states every setting\<close>

definition yes_no :: "bool \<Rightarrow> string" where
  "yes_no b = (if b then ''yes'' else ''no'')"

definition config_ini :: "config \<Rightarrow> ini" where
  "config_ini c =
     [(''rdss'',
       [(''client_executors'', put_nat (client_executors c)),
        (''max_direct_fds_per_exr'', put_nat (max_direct_fds_per_exr c)),
        (''sqpoll'', yes_no (sqpoll c)),
        (''submit_batch_size'', put_nat (submit_batch_size c)),
        (''use_ring_buffer'', yes_no (use_ring_buffer c)),
        (''wait_batch_size'', put_nat (wait_batch_size c))]),
      (''redis'',
       [(''active_expire_acceptable_stale_percent'', put_nat (active_expire_acceptable_stale_percent c)),
        (''active_expire_cycle_time_percent'', put_nat (active_expire_cycle_time_percent c)),
        (''active_expire_keys_per_loop'', put_nat (active_expire_keys_per_loop c)),
        (''hz'', put_nat (hz c)),
        (''maxclients'', put_nat (maxclients c)),
        (''maxmemory'', put_nat (maxmemory c)),
        (''maxmemory-policy'', MaxmemoryPolicyEnumToStr (maxmemory_policy c)),
        (''maxmemory-samples'', put_nat (maxmemory_samples c)),
        (''port'', put_nat (port c))])]"

text \<open>Names without capital letters are their own lower case.\<close>

definition lower_case :: "string \<Rightarrow> bool" where
  "lower_case s \<longleftrightarrow> list_all (\<lambda>c. \<not> (65 \<le> (of_char c :: nat) \<and> (of_char c :: nat) \<le> 90)) s"

lemma ci_key_lower: "lower_case s \<Longrightarrow> ci_key s = s"
  unfolding lower_case_def ci_key_def by (induction s) (auto simp: tolower_def)

lemma setting_keys:
  "ci_key ''rdss'' = ''rdss''"
  "ci_key ''redis'' = ''redis''"
  "ci_key ''client_executors'' = ''client_executors''"
  "ci_key ''max_direct_fds_per_exr'' = ''max_direct_fds_per_exr''"
  "ci_key ''sqpoll'' = ''sqpoll''"
  "ci_key ''submit_batch_size'' = ''submit_batch_size''"
  "ci_key ''use_ring_buffer'' = ''use_ring_buffer''"
  "ci_key ''wait_batch_size'' = ''wait_batch_size''"
  "ci_key ''active_expire_acceptable_stale_percent'' = ''active_expire_acceptable_stale_percent''"
  "ci_key ''active_expire_cycle_time_percent'' = ''active_expire_cycle_time_percent''"
  "ci_key ''active_expire_keys_per_loop'' = ''active_expire_keys_per_loop''"
  "ci_key ''hz'' = ''hz''"
  "ci_key ''maxclients'' = ''maxclients''"
  "ci_key ''maxmemory'' = ''maxmemory''"
  "ci_key ''maxmemory-policy'' = ''maxmemory-policy''"
  "ci_key ''maxmemory-samples'' = ''maxmemory-samples''"
  "ci_key ''port'' = ''port''"
  by (rule ci_key_lower, simp add: lower_case_def)+

lemma word_ok_nat_digits: "word_ok (nat_digits n)"
proof -
  have d: "\<forall>c\<in>set (nat_digits n). \<not> isspace c \<and> c \<noteq> LF"
    using nat_digits_are_digits [of n] digit_of_digit by (auto simp: list_all_iff is_digit_def)
  then show ?thesis using hd_in_set [of "nat_digits n"] last_in_set [of "nat_digits n"] by (auto simp: word_ok_def)
qed

lemma word_ok_values:
  "word_ok (put_nat n)" "word_ok (yes_no b)" "word_ok (MaxmemoryPolicyEnumToStr pol)"
proof -
  show "word_ok (put_nat n)" using word_ok_nat_digits by (simp add: put_nat_def)
  show "word_ok (yes_no b)" by (simp add: yes_no_def word_ok_def isspace_def)
  show "word_ok (MaxmemoryPolicyEnumToStr pol)" by (cases pol) (simp_all add: word_ok_def isspace_def)
qed

lemma config_ini_ok: "ini_ok (config_ini c)"
proof -
  have "section_ok x" if "x \<in> set (config_ini c)" for x
    using that word_ok_values unfolding config_ini_def
    by (auto simp: section_ok_def name_ok_def key_ok_def word_ok_def isspace_def ci_sorted_def setting_keys less_char_def)
  moreover have "ci_sorted (config_ini c)" by (simp add: ci_sorted_def config_ini_def setting_keys less_char_def)
  ultimately show ?thesis by (simp add: ini_ok_def list_all_iff)
qed

section \<open>Properties\<close>

lemma value_bool_yes_no: "value_bool (yes_no b) f = b"
  by (simp add: value_bool_def yes_no_def ci_compare_def tolower_def)

lemma policy_names: "MaxmemoryPolicyStrToEnum (value_string (MaxmemoryPolicyEnumToStr pol) d) = Some pol"
  by (cases pol) (simp_all add: value_string_def MaxmemoryPolicyStrToEnum_def)


definition policy_setting :: "string \<Rightarrow> string" where
  "policy_setting file =
     value_string (ci_get [] ''maxmemory-policy'' (ci_get [] ''redis'' (ini_read file []))) ''noeviction''"

text \<open>
  What reading a configuration file can give. For every file, reading either ends the process,
  exactly when the file names an unknown eviction policy, or gives a configuration whose fields are
  in the range of their types, with a positive number of clients.
\<close>

theorem ReadFromFile_total:
  assumes "maxmemory c < 2 ^ 64"
  shows "case ReadFromFile file c of
      None \<Rightarrow> policy_setting file \<notin> MaxmemoryPolicyEnumToStr ` UNIV
    | Some c' \<Rightarrow> policy_setting file = MaxmemoryPolicyEnumToStr (maxmemory_policy c') \<and> config_ok c'"
proof (cases "ReadFromFile file c")
  case None
  then have n: "MaxmemoryPolicyStrToEnum (policy_setting file) = None"
    by (simp add: ReadFromFile_def Let_def policy_setting_def)
  have "MaxmemoryPolicyStrToEnum (MaxmemoryPolicyEnumToStr pol) = Some pol" for pol
    by (cases pol) (simp_all add: MaxmemoryPolicyStrToEnum_def)
  then have "policy_setting file \<notin> range MaxmemoryPolicyEnumToStr" using n by auto
  then show ?thesis unfolding None by simp
next
  case (Some c')
  then have "MaxmemoryPolicyStrToEnum (policy_setting file) = Some (maxmemory_policy c')"
    by (auto simp: ReadFromFile_def Let_def policy_setting_def)
  then have "policy_setting file = MaxmemoryPolicyEnumToStr (maxmemory_policy c')"
    by (auto simp: MaxmemoryPolicyStrToEnum_def split: if_splits)
  then show ?thesis using Some ReadFromFile_ok [OF assms] by simp
qed


theorem ReadFromFile_total_witness: "\<exists>c. ReadFromFile [] Config_default = Some c \<and> config_ok c"
proof -
  have "ReadFromFile [] Config_default \<noteq> None"
    by (simp add: ReadFromFile_def ini_read_def Let_def value_string_def MaxmemoryPolicyStrToEnum_def)
  then show ?thesis using ReadFromFile_total [of Config_default "[]"] by (auto simp: Config_default_def)
qed

end
