(* ===== verification/Spec2Isabelle.thy ===== *)
theory Spec2Isabelle
  imports ReplyTypes ServiceRuns Client Server Memory RingExecutor ConfigFile
begin

text \<open>
  A verification development of rdss, a Redis-like server in C++20 on io_uring. Source files are
  named relative to \<open>src/src/\<close>.

  \<^bold>\<open>The program.\<close> A connection is accepted by \<open>Server::AcceptLoop\<close> and handed to one of the
  client executors. There a \<open>Client\<close> is registered with the \<open>ClientManager\<close> and runs its
  \<open>Process\<close> loop: receive bytes into a \<open>Buffer\<close>, parse them with the RESP parsers, run a
  complete command on the executor of the \<open>DataStructureService\<close>, serialise the \<open>Result\<close> with the
  replier, send it. The service finds the handler of a command in its dictionary, frees memory by
  the evictor if a writing command runs above \<open>maxmemory\<close>, and the handler works on two
  \<open>HashTable\<close>s, one with the values and one with the expire times. A background loop (\<open>Cron\<close>)
  expires keys and moves incremental rehashes forward. The configuration is read from an INI file.

  \<^bold>\<open>Theories and sources.\<close>
  \<^item> \<open>Prelude\<close>: machine integers, the type of the hash function, lists of buckets. \<open>CharConv\<close>: the
    functions of the C++ library on characters and decimal numbers.
  \<^item> \<open>HashTable\<close>, \<open>HashCursor\<close> (\<open>data_structure/hash_table.h\<close>): the table with its two bucket vectors,
    every operation, the reverse binary cursor and random sampling. \<open>HashTableInv\<close>: invariant and
    functional correctness. \<open>HashTableSpec\<close>: the contract as the locale \<open>kv_table\<close>, interpreted on
    the table. \<open>HashTableRuns\<close>: sequences of operations refine a finite map, and rehashes end.
  \<^item> \<open>Buffer\<close> (\<open>base/buffer.h\<close>, \<open>buffer.cc\<close>), \<open>RespParser\<close> (\<open>resp/resp_parser.cc\<close>), \<open>Replier\<close>
    (\<open>resp/result.cc\<close>, \<open>error.cc\<close>, \<open>replier.cc\<close>): buffers with addresses, parsers that fill a vector of
    views, results and their encoding. \<open>RespCodec\<close>: safety on every input and the round trip with
    the encoding of commands.
  \<^item> \<open>Config\<close>, \<open>ConfigFile\<close> (\<open>base/config.h\<close>, \<open>config.cc\<close>), \<open>Ini\<close> (\<open>external/tortellini.hh\<close>): the
    configuration, reading it from a file, and the INI reader and writer.
  \<^item> \<open>Service\<close> (\<open>service/data_structure_service.cc\<close>): the record \<open>dss\<close> with both tables, lookup with
    lazy expiry, \<open>SetData\<close> in all modes, erasure, background rehashing. What a client can see of it,
    \<open>live\<close>, and the locale \<open>expiring_store\<close> that the commands rest on.
  \<^item> \<open>StringCommands\<close>, \<open>KeyCommands\<close>, \<open>MiscCommands\<close> (\<open>service/commands/\<close>): one definition for each
    handler. \<open>StringSpec\<close>, \<open>ExpirySpec\<close>, \<open>RangeSpec\<close>: what they do to \<open>live\<close> and what they answer.
    \<open>CommandsInv\<close>: every handler keeps the service well formed.
  \<^item> \<open>Eviction\<close>, \<open>ActiveExpire\<close> (\<open>service/eviction_strategy.cc\<close>, \<open>expire_strategy.cc\<close>): the locale
    \<open>eviction_policy\<close> is interpreted on the random and on the LRU policy.
  \<^item> \<open>Dispatch\<close> (\<open>service/command.h\<close>, \<open>command_dictionary.h\<close>, \<open>command_registry.cc\<close>): registration and
    \<open>Invoke\<close>. \<open>ReplyTypes\<close>: the types of replies. \<open>ServiceRuns\<close>: commands and iterations of \<open>Cron\<close> in
    any order.
  \<^item> \<open>Client\<close> (\<open>client.cc\<close>, \<open>io/connection.h\<close>): an iteration of \<open>Process\<close> and conversations.
    \<open>ClientManager\<close> (\<open>client_manager.cc\<close>) and \<open>Server\<close> (\<open>server.cc\<close>): registered clients, the accept
    loop and the shutdown in any order of their steps.
  \<^item> \<open>Memory\<close> (\<open>base/memory.h\<close>, \<open>memory.cc\<close>): the memory counters and the allocator. \<open>AtomicMax\<close>: the
    lock-free maximum that the tracker and the client statistics share, for all interleavings.
  \<^item> \<open>RingExecutor\<close> (\<open>runtime/ring_executor.cc\<close>): registered descriptors, the ring of receive
    buffers, and the loop over completions.

  \<^bold>\<open>How code is modelled.\<close> A class is a record and a method a function that returns the changed
  record. A failed \<open>assert\<close>, an exception, an access outside a container and \<open>LOG(FATAL)\<close> are
  \<open>None\<close>. What comes from outside is an argument: the hash function (xxHash), the outputs of \<open>rand\<close>,
  clocks, addresses chosen by the allocator, the bytes a receive returns, the number of bytes a
  send takes, the values INFO reads of the process (record \<open>world\<close>). Widths are kept where
  they matter: hashes, cursors and memory counters are 64-bit words, LRU times 32-bit words, RESP
  lengths are checked against 32 bits, expire times and integer replies against 64 bits. Sizes of
  containers are natural numbers.

  \<^bold>\<open>What is shown.\<close> The claims are numbered in the order of importance. Composition: a
  conversation from bytes to bytes (\<open>Client\<close>), the invariant of the service over all runs
  (\<open>ServiceRuns\<close>), of every command (\<open>Dispatch\<close>), of the connections (\<open>Server\<close>). Data: the hash table
  refines a finite map for every hash function, scans visit every entry once, sampling reaches
  exactly the entries. Protocol: parsing inverts encoding, is safe on every input, and replies are
  the encoding of results. Commands: the exact effect of each on the visible keys and its reply,
  errors included. Background work: expiry removes only and eventually all expired keys it should,
  eviction frees the memory it reports. Configuration files are read back as written. Some
  statements record what the code does where that is surprising: SETRANGE and GETRANGE at their
  boundaries, APPEND on an expired key, the overflow of SETEX, pipelined commands, the accounting
  of buffers, the limit on clients.

  \<^bold>\<open>Bounds.\<close> Loops end by their data, with a measure, but for those that depend on the outside.
  A loop that draws random numbers takes them from a list, and is \<open>None\<close> only when the list is too
  short. The loops with a time limit take the number of rounds or the clock readings as an
  argument. The loops of \<open>ActiveExpire\<close> are bounded by the number of buckets, after which the
  cursor is back at 0, and by the number of keys; that a cycle returns in every reachable state is
  part of the claims. \<open>GetSomeOldEntry\<close> has a bound on its rounds, and two rounds are enough
  (\<open>Eviction\<close>). Theorems about the service ask for \<open>room\<close>: below \<open>2 ^ 30\<close> keys, so that the bucket
  index, which the code casts to 32 bits, stays in range. Theorems about replies ask for strings and
  arrays below \<open>2 ^ 31\<close> elements.

  \<^bold>\<open>Not modelled.\<close> Coroutines and the awaitables of \<open>io/\<close> and \<open>runtime/\<close>, which only fill in
  submission entries for the kernel and resume the caller; listener, sockets and the other calls
  of \<open>sys/\<close>; the creation of threads and rings; logging; \<open>main.cc\<close> and the example programs. Of
  \<open>tortellini.hh\<close>, the conversions to signed and floating point numbers and the iterators, which
  rdss does not use. The mutex of the client manager is not modelled: its operations are single
  steps.
\<close>

end
